(* ===== verification/KPrelude.thy ===== *)
theory KPrelude
  imports Main "HOL-Library.Char_ord" "HOL-Library.List_Lexorder" "HOL-Library.Product_Lexorder"
begin

text \<open>
  Shared vocabulary of the development: identifier types, saturating unsigned arithmetic,
  the Rust \<open>BTreeMap\<close> as a strictly ascending association list, \<open>HashMap\<close> entry access,
  and the generic list lemmas the component theories rely on.
\<close>

section \<open>Lemma collections\<close>

named_theorems sat_simps \<open>saturating arithmetic, unfolded to min and minus\<close>
named_theorems bt_simps \<open>lookup after a BTreeMap operation\<close>
named_theorems step_simps \<open>unfoldings of the state-changing operations\<close>

section \<open>Identifiers\<close>

type_synonym user_id = string
type_synonym transaction_id = string
type_synonym node_id = nat

datatype table_id = TableId (namespace_id: string) (table_name: string)

definition full_name :: "table_id \<Rightarrow> string" where
  "full_name t = namespace_id t @ ''.'' @ table_name t"

datatype table_type = User | Shared | Stream | System

datatype operation_kind = Insert | Update | Delete

section \<open>Unsigned machine integers\<close>

text \<open>
  \<open>u64\<close> and \<open>usize\<close> values (64-bit targets) are naturals up to \<open>u64_max\<close>; the saturating
  operations are written out.
\<close>

definition u64_max :: nat where
  "u64_max = 18446744073709551615"

definition sat_add :: "nat \<Rightarrow> nat \<Rightarrow> nat" where
  "sat_add a b = min (a + b) u64_max"

definition sat_mul :: "nat \<Rightarrow> nat \<Rightarrow> nat" where
  "sat_mul a b = min (a * b) u64_max"

lemma sat_add_exact [sat_simps]: "a + b \<le> u64_max \<Longrightarrow> sat_add a b = a + b"
  by (simp add: sat_add_def)

lemma sat_add_le_max: "sat_add a b \<le> u64_max"
  by (simp add: sat_add_def)

lemma sat_add_le_sum: "sat_add a b \<le> a + b"
  by (simp add: sat_add_def)

lemma sat_add_mono: "a \<le> b \<Longrightarrow> sat_add a c \<le> sat_add b c"
  by (auto simp: sat_add_def)

lemma le_sat_add: "a \<le> u64_max \<Longrightarrow> a \<le> sat_add a b"
  by (simp add: sat_add_def)

lemma less_sat_add_one: "o1 \<le> o2 \<Longrightarrow> o2 < u64_max \<Longrightarrow> o1 < sat_add o2 1"
  by (simp add: sat_add_def)

section \<open>BTreeMap\<close>

text \<open>
  A \<open>BTreeMap\<close> is the list of its entries in key order. \<open>bt_wf\<close> says the keys ascend strictly,
  which every operation keeps; iteration (\<open>iter\<close>, \<open>values\<close>, \<open>keys\<close>) is the list itself.
\<close>

type_synonym ('k, 'v) btree = "('k \<times> 'v) list"

definition bt_wf :: "('k::linorder, 'v) btree \<Rightarrow> bool" where
  "bt_wf m = sorted_wrt (<) (map fst m)"

definition bt_get :: "('k, 'v) btree \<Rightarrow> 'k \<Rightarrow> 'v option" where
  "bt_get m k = map_of m k"

definition bt_insert :: "'k::linorder \<Rightarrow> 'v \<Rightarrow> ('k, 'v) btree \<Rightarrow> ('k, 'v) btree" where
  "bt_insert k v m = filter (\<lambda>e. fst e < k) m @ (k, v) # filter (\<lambda>e. k < fst e) m"

definition bt_remove :: "'k \<Rightarrow> ('k, 'v) btree \<Rightarrow> ('k, 'v) btree" where
  "bt_remove k m = filter (\<lambda>e. fst e \<noteq> k) m"

definition bt_keys :: "('k, 'v) btree \<Rightarrow> 'k list" where
  "bt_keys m = map fst m"

definition bt_extend :: "('k::linorder, 'v) btree \<Rightarrow> ('k, 'v) btree \<Rightarrow> ('k, 'v) btree" where
  "bt_extend m new = fold (\<lambda>e acc. bt_insert (fst e) (snd e) acc) new m"

lemma map_of_filter_key:
  "map_of (filter (\<lambda>e. P (fst e)) m) k = (if P k then map_of m k else None)"
  by (induction m) auto

lemma bt_get_empty [simp, bt_simps]: "bt_get [] k = None"
  by (simp add: bt_get_def)

lemma bt_get_Cons: "bt_get (e # m) k = (if k = fst e then Some (snd e) else bt_get m k)"
  by (cases e) (simp add: bt_get_def)

lemma bt_get_insert [simp, bt_simps]:
  "bt_get (bt_insert k v m) j = (if j = k then Some v else bt_get m j)"
  for k :: "'k::linorder"
proof -
  have "map_of (filter (\<lambda>e. fst e < k) m) j = (if j < k then map_of m j else None)"
    by (rule map_of_filter_key)
  moreover have "map_of (filter (\<lambda>e. k < fst e) m) j = (if k < j then map_of m j else None)"
    by (rule map_of_filter_key)
  ultimately show ?thesis
    by (auto simp: bt_get_def bt_insert_def map_add_def split: option.splits)
qed

lemma bt_get_remove [simp, bt_simps]:
  "bt_get (bt_remove k m) j = (if j = k then None else bt_get m j)"
  unfolding bt_get_def bt_remove_def
  by (simp add: map_of_filter_key [where P = "\<lambda>x. x \<noteq> k"])

lemma bt_wf_Nil [simp]: "bt_wf []"
  by (simp add: bt_wf_def)

lemma bt_wf_filter [simp]: "bt_wf m \<Longrightarrow> bt_wf (filter P m)"
  by (induction m) (auto simp: bt_wf_def)

lemma bt_wf_insert [simp]: "bt_wf m \<Longrightarrow> bt_wf (bt_insert k v m)"
  using bt_wf_filter [of m "\<lambda>e. fst e < k"] bt_wf_filter [of m "\<lambda>e. k < fst e"]
  by (auto simp: bt_wf_def bt_insert_def sorted_wrt_append)

lemma bt_wf_remove [simp]: "bt_wf m \<Longrightarrow> bt_wf (bt_remove k m)"
  by (simp add: bt_remove_def)

lemma bt_wf_distinct: "bt_wf m \<Longrightarrow> distinct (map fst m)"
  by (auto simp: bt_wf_def strict_sorted_iff)

lemma bt_wf_extend [simp]: "bt_wf m \<Longrightarrow> bt_wf (bt_extend m new)"
  by (induction new arbitrary: m) (auto simp: bt_extend_def)

lemma bt_extend_Nil [simp]: "bt_extend m [] = m"
  by (simp add: bt_extend_def)

lemma bt_extend_Cons: "bt_extend m (e # new) = bt_extend (bt_insert (fst e) (snd e) m) new"
  by (simp add: bt_extend_def)

lemma bt_get_extend [bt_simps]:
  "distinct (map fst new) \<Longrightarrow>
   bt_get (bt_extend m new) k = (case bt_get new k of Some v \<Rightarrow> Some v | None \<Rightarrow> bt_get m k)"
proof (induction new arbitrary: m)
  case Nil
  then show ?case by simp
next
  case (Cons e new)
  then have "fst e \<notin> fst ` set new"
    by simp
  then have "bt_get new (fst e) = None"
    by (simp add: bt_get_def map_of_eq_None_iff)
  with Cons show ?case
    by (auto simp: bt_extend_Cons bt_get_Cons split: option.splits)
qed

lemma bt_get_in_set: "bt_get m k = Some v \<Longrightarrow> (k, v) \<in> set m"
  by (simp add: bt_get_def map_of_SomeD)

lemma bt_wf_get_iff: "bt_wf m \<Longrightarrow> bt_get m k = Some v \<longleftrightarrow> (k, v) \<in> set m"
  by (auto simp: bt_get_def bt_wf_distinct)

text \<open>Two well-formed trees with the same lookup function are the same tree.\<close>

lemma bt_eqI:
  assumes "bt_wf m" "bt_wf n" and same: "\<And>k. bt_get m k = bt_get n k"
  shows "m = n"
proof -
  have sets: "set m = set n"
    using assms by (auto simp flip: bt_wf_get_iff)
  then have keys: "map fst m = map fst n"
    using assms(1,2) by (intro sorted_distinct_set_unique)
      (auto simp: bt_wf_def strict_sorted_iff)
  then have len: "length m = length n"
    by (metis length_map)
  show ?thesis
  proof (rule nth_equalityI [OF len])
    fix i assume i: "i < length m"
    then have "fst (m ! i) = fst (n ! i)"
      using keys len by (metis nth_map)
    moreover have "bt_get m (fst (m ! i)) = Some (snd (m ! i))"
      using assms(1) i by (simp add: bt_wf_get_iff)
    moreover have "bt_get n (fst (n ! i)) = Some (snd (n ! i))"
      using assms(2) i len by (simp add: bt_wf_get_iff)
    ultimately show "m ! i = n ! i"
      using same by (metis option.inject prod.expand)
  qed
qed

section \<open>Ordered maps as an interface\<close>

text \<open>
  What the row and store components rely on: lookup after insert and remove, and that the
  representation invariant is kept. \<open>extend\<close> is any bulk insert built from \<open>insert\<close>.
\<close>

locale ordered_map =
  fixes empty :: 'm
    and insert :: "'k \<Rightarrow> 'v \<Rightarrow> 'm \<Rightarrow> 'm"
    and remove :: "'k \<Rightarrow> 'm \<Rightarrow> 'm"
    and get :: "'m \<Rightarrow> 'k \<Rightarrow> 'v option"
    and wf :: "'m \<Rightarrow> bool"
  assumes get_empty: "get empty k = None"
    and get_insert: "get (insert k v m) j = (if j = k then Some v else get m j)"
    and get_remove: "get (remove k m) j = (if j = k then None else get m j)"
    and wf_empty: "wf empty"
    and wf_insert: "wf m \<Longrightarrow> wf (insert k v m)"
    and wf_remove: "wf m \<Longrightarrow> wf (remove k m)"
    and extensional: "wf m \<Longrightarrow> wf n \<Longrightarrow> (\<And>k. get m k = get n k) \<Longrightarrow> m = n"
begin

lemma insert_insert: "wf m \<Longrightarrow> insert k v (insert k w m) = insert k v m"
  by (rule extensional) (auto simp: get_insert wf_insert)

lemma insert_commute: "wf m \<Longrightarrow> j \<noteq> k \<Longrightarrow> insert j v (insert k w m) = insert k w (insert j v m)"
  by (rule extensional) (auto simp: get_insert wf_insert)

lemma remove_insert: "wf m \<Longrightarrow> get m k = None \<Longrightarrow> remove k (insert k v m) = m"
  by (rule extensional) (auto simp: get_insert get_remove wf_insert wf_remove)

lemma insert_remove: "wf m \<Longrightarrow> insert k v (remove k m) = insert k v m"
  by (rule extensional) (auto simp: get_insert get_remove wf_insert wf_remove)

lemma remove_absent: "wf m \<Longrightarrow> get m k = None \<Longrightarrow> remove k m = m"
  by (rule extensional) (auto simp: get_remove wf_remove)

end

interpretation bt: ordered_map "[]" bt_insert bt_remove bt_get bt_wf
  by unfold_locales (auto intro: bt_eqI)

section \<open>HashMap entry access\<close>

text \<open>\<open>map.entry(k).or_default()\<close>: the value at \<open>k\<close>, or the default.\<close>

definition or_default :: "'v \<Rightarrow> ('k \<rightharpoonup> 'v) \<Rightarrow> 'k \<Rightarrow> 'v" where
  "or_default d m k = (case m k of None \<Rightarrow> d | Some v \<Rightarrow> v)"

lemma or_default_upd [simp]: "or_default d (m(k \<mapsto> v)) j = (if j = k then v else or_default d m j)"
  by (simp add: or_default_def)

section \<open>Generic lemmas\<close>

lemma Some_eq_map_option: "Some y = map_option f x \<longleftrightarrow> (\<exists>z. x = Some z \<and> y = f z)"
  by (cases x) auto

lemma filter_snoc: "filter P (xs @ [x]) = filter P xs @ (if P x then [x] else [])"
  by simp

lemma fold_snoc: "fold f (xs @ [x]) s = f x (fold f xs s)"
  by simp

lemma take_snoc_le: "n \<le> length xs \<Longrightarrow> take n (xs @ [x]) = take n xs"
  by simp

text \<open>The elements with a given key, when keys are unique.\<close>

lemma distinct_map_filter:
  assumes "distinct (map f xs)" "x \<in> set xs"
  shows "filter (\<lambda>y. f y = f x) xs = [x]"
  using assms
proof (induction xs)
  case (Cons a xs)
  show ?case
  proof (cases "x = a")
    case True
    with Cons.prems have "f x \<notin> f ` set xs"
      by simp
    then have "\<forall>y\<in>set xs. f y \<noteq> f x"
      by (metis image_eqI)
    with True show ?thesis
      by (simp add: filter_empty_conv)
  next
    case False
    with Cons.prems have "x \<in> set xs" "f a \<noteq> f x"
      by auto
    with Cons show ?thesis
      by simp
  qed
qed simp

text \<open>\<open>Iterator::rposition\<close>: the last index whose element satisfies the predicate.\<close>

fun rposition :: "('a \<Rightarrow> bool) \<Rightarrow> 'a list \<Rightarrow> nat option" where
  "rposition P [] = None"
| "rposition P (x # xs) =
     (case rposition P xs of
        Some i \<Rightarrow> Some (Suc i)
      | None \<Rightarrow> if P x then Some 0 else None)"

lemma rposition_Some:
  "rposition P xs = Some i \<Longrightarrow>
     i < length xs \<and> P (xs ! i) \<and> (\<forall>j. i < j \<longrightarrow> j < length xs \<longrightarrow> \<not> P (xs ! j))"
proof (induction xs arbitrary: i)
  case Nil
  then show ?case by simp
next
  case (Cons x xs)
  show ?case
  proof (cases "rposition P xs")
    case None
    have "\<forall>y\<in>set xs. \<not> P y"
      using None by (induction xs) (auto split: option.splits if_splits)
    with Cons.prems None show ?thesis
      by (auto split: if_splits simp: nth_Cons split: nat.splits)
  next
    case (Some k)
    with Cons.prems Cons.IH [of k] show ?thesis
      by (auto simp: nth_Cons split: nat.splits)
  qed
qed

lemma rposition_None: "rposition P xs = None \<longleftrightarrow> (\<forall>x\<in>set xs. \<not> P x)"
  by (induction xs) (auto split: option.splits)

lemma rposition_append:
  "rposition P (xs @ ys) =
     (case rposition P ys of Some i \<Rightarrow> Some (length xs + i) | None \<Rightarrow> rposition P xs)"
  by (induction xs) (auto split: option.splits)

end
