(* ===== verification/TextNum.thy ===== *)
theory TextNum
  imports KPrelude
begin

text \<open>
  Decimal text of unsigned integers as the standard library formats and parses it:
  \<open>format!("{}")\<close>, zero padding (\<open>{:02}\<close>, \<open>{:05}\<close>), \<open>str::parse::<u32>\<close>, \<open>str::trim\<close> and
  \<open>to_ascii_lowercase\<close>. Strings are lists of bytes, so \<open>char\<close> is one byte of the UTF-8 text.
\<close>

definition u32_max :: nat where
  "u32_max = 4294967295"

definition byte_of :: "char \<Rightarrow> nat" where
  "byte_of c = of_char c"

definition is_digit :: "char \<Rightarrow> bool" where
  "is_digit c = (48 \<le> byte_of c \<and> byte_of c \<le> 57)"

definition digit_char :: "nat \<Rightarrow> char" where
  "digit_char d = char_of (48 + d)"

fun show_dec :: "nat \<Rightarrow> string" where
  "show_dec n = (if n < 10 then [digit_char n] else show_dec (n div 10) @ [digit_char (n mod 10)])"

declare show_dec.simps [simp del]

definition pad_zero :: "nat \<Rightarrow> string \<Rightarrow> string" where
  "pad_zero w s = replicate (w - length s) (digit_char 0) @ s"

text \<open>The digit loop of \<open>from_str_radix(_, 10)\<close> with its overflow checks against the type's maximum.\<close>

fun parse_digits :: "nat \<Rightarrow> nat \<Rightarrow> string \<Rightarrow> nat option" where
  "parse_digits lim acc [] = Some acc"
| "parse_digits lim acc (c # cs) =
     (if is_digit c then
        let a = acc * 10 + (byte_of c - 48) in
        if lim < a then None else parse_digits lim a cs
      else None)"

definition parse_unsigned :: "nat \<Rightarrow> string \<Rightarrow> nat option" where
  "parse_unsigned lim s =
     (case s of
        [] \<Rightarrow> None
      | c # cs \<Rightarrow>
          if cs = [] \<and> (c = CHR ''+'' \<or> c = CHR ''-'') then None
          else if c = CHR ''+'' then parse_digits lim 0 cs
          else parse_digits lim 0 s)"

definition strip_prefix :: "string \<Rightarrow> string \<Rightarrow> string option" where
  "strip_prefix p s = (if take (length p) s = p then Some (drop (length p) s) else None)"

text \<open>
  \<open>str::trim\<close> removes characters with the Unicode \<open>White_Space\<close> property; these are their UTF-8
  encodings.
\<close>

definition whitespace_seqs :: "string list" where
  "whitespace_seqs =
     [[CHR 0x09], [CHR 0x0A], [CHR 0x0B], [CHR 0x0C], [CHR 0x0D], [CHR 0x20],
      [CHR 0xC2, CHR 0x85], [CHR 0xC2, CHR 0xA0], [CHR 0xE1, CHR 0x9A, CHR 0x80],
      [CHR 0xE2, CHR 0x80, CHR 0x80], [CHR 0xE2, CHR 0x80, CHR 0x81],
      [CHR 0xE2, CHR 0x80, CHR 0x82], [CHR 0xE2, CHR 0x80, CHR 0x83],
      [CHR 0xE2, CHR 0x80, CHR 0x84], [CHR 0xE2, CHR 0x80, CHR 0x85],
      [CHR 0xE2, CHR 0x80, CHR 0x86], [CHR 0xE2, CHR 0x80, CHR 0x87],
      [CHR 0xE2, CHR 0x80, CHR 0x88], [CHR 0xE2, CHR 0x80, CHR 0x89],
      [CHR 0xE2, CHR 0x80, CHR 0x8A], [CHR 0xE2, CHR 0x80, CHR 0xA8],
      [CHR 0xE2, CHR 0x80, CHR 0xA9], [CHR 0xE2, CHR 0x80, CHR 0xAF],
      [CHR 0xE2, CHR 0x81, CHR 0x9F], [CHR 0xE3, CHR 0x80, CHR 0x80]]"

fun strip_any :: "string list \<Rightarrow> string \<Rightarrow> string option" where
  "strip_any [] s = None"
| "strip_any (w # ws) s =
     (case strip_prefix w s of Some r \<Rightarrow> Some r | None \<Rightarrow> strip_any ws s)"

fun trim_while :: "string list \<Rightarrow> nat \<Rightarrow> string \<Rightarrow> string" where
  "trim_while ws 0 s = s"
| "trim_while ws (Suc n) s = (case strip_any ws s of None \<Rightarrow> s | Some r \<Rightarrow> trim_while ws n r)"

text \<open>A string of length \<open>n\<close> has at most \<open>n\<close> whitespace characters to strip.\<close>

definition trim :: "string \<Rightarrow> string" where
  "trim s =
     (let l = trim_while whitespace_seqs (length s) s
      in rev (trim_while (map rev whitespace_seqs) (length l) (rev l)))"

definition to_ascii_lowercase :: "string \<Rightarrow> string" where
  "to_ascii_lowercase s =
     map (\<lambda>c. if 65 \<le> byte_of c \<and> byte_of c \<le> 90 then char_of (byte_of c + 32) else c) s"

lemma strip_prefix_append [simp]: "strip_prefix p (p @ s) = Some s"
  by (simp add: strip_prefix_def)

lemma strip_prefix_Some: "strip_prefix p s = Some r \<longleftrightarrow> s = p @ r"
  by (auto simp: strip_prefix_def split: if_splits) (metis append_take_drop_id)

lemma byte_of_digit_char [simp]: "d < 10 \<Longrightarrow> byte_of (digit_char d) = 48 + d"
  by (simp add: byte_of_def digit_char_def)

lemma is_digit_digit_char [simp]: "d < 10 \<Longrightarrow> is_digit (digit_char d)"
  by (simp add: is_digit_def)

lemma parse_digits_append:
  "parse_digits lim acc (xs @ ys) =
     (case parse_digits lim acc xs of None \<Rightarrow> None | Some a \<Rightarrow> parse_digits lim a ys)"
  by (induction xs arbitrary: acc) (auto simp: Let_def)

lemma parse_digits_le: "parse_digits lim acc s = Some n \<Longrightarrow> acc \<le> lim \<Longrightarrow> n \<le> lim"
  by (induction lim acc s rule: parse_digits.induct) (auto simp: Let_def split: if_splits)

lemma parse_digits_show_dec: "n \<le> lim \<Longrightarrow> parse_digits lim 0 (show_dec n) = Some n"
proof (induction n rule: show_dec.induct)
  case (1 n)
  show ?case
  proof (cases "n < 10")
    case True
    with 1 show ?thesis
      by (simp add: show_dec.simps [of n])
  next
    case False
    then have "parse_digits lim 0 (show_dec (n div 10)) = Some (n div 10)"
      using 1 by auto
    moreover have "n div 10 * 10 + n mod 10 = n"
      by simp
    ultimately show ?thesis
      using 1 False by (simp add: show_dec.simps [of n] parse_digits_append)
  qed
qed

lemma parse_digits_zeros: "parse_digits lim 0 (replicate k (digit_char 0) @ s) = parse_digits lim 0 s"
  by (induction k) auto

lemma show_dec_not_empty [simp]: "show_dec n \<noteq> []"
  by (simp add: show_dec.simps [of n])

lemma show_dec_digits: "c \<in> set (show_dec n) \<Longrightarrow> is_digit c"
proof (induction n rule: show_dec.induct)
  case (1 n)
  then show ?case
    by (cases "n < 10") (auto simp: show_dec.simps [of n])
qed

lemma pad_zero_digits: "c \<in> set (pad_zero w (show_dec n)) \<Longrightarrow> is_digit c"
  by (auto simp: pad_zero_def dest: show_dec_digits)

lemma sign_not_digit: "is_digit c \<Longrightarrow> c \<noteq> CHR ''+'' \<and> c \<noteq> CHR ''-''"
  by (auto simp: is_digit_def byte_of_def)

lemma parse_unsigned_digits:
  "s \<noteq> [] \<Longrightarrow> \<forall>c\<in>set s. is_digit c \<Longrightarrow> parse_unsigned lim s = parse_digits lim 0 s"
  by (cases s) (simp_all add: parse_unsigned_def sign_not_digit del: parse_digits.simps)

lemma pad_zero_not_empty [simp]: "s \<noteq> [] \<Longrightarrow> pad_zero w s \<noteq> []"
  by (simp add: pad_zero_def)

text \<open>Formatting and parsing are inverse for every value of the type, whatever the padding.\<close>

lemma parse_unsigned_pad:
  "n \<le> lim \<Longrightarrow> parse_unsigned lim (pad_zero w (show_dec n)) = Some n"
  by (subst parse_unsigned_digits)
    (auto dest: pad_zero_digits, simp add: pad_zero_def parse_digits_zeros parse_digits_show_dec)

lemma show_dec_inject: "show_dec m = show_dec n \<longleftrightarrow> m = n"
proof
  assume "show_dec m = show_dec n"
  then have "parse_digits (max m n) 0 (show_dec m) = parse_digits (max m n) 0 (show_dec n)"
    by simp
  then show "m = n"
    by (simp add: parse_digits_show_dec)
qed simp

lemma parse_unsigned_le: "parse_unsigned lim s = Some n \<Longrightarrow> n \<le> lim"
  by (auto simp: parse_unsigned_def simp del: parse_digits.simps
      split: list.splits if_splits intro: parse_digits_le [where acc = 0])

lemma pad_zero_show_inject:
  "pad_zero w (show_dec m) = pad_zero w (show_dec n) \<longleftrightarrow> m = n"
proof
  assume "pad_zero w (show_dec m) = pad_zero w (show_dec n)"
  then have "parse_unsigned (max m n) (pad_zero w (show_dec m)) =
      parse_unsigned (max m n) (pad_zero w (show_dec n))"
    by simp
  then show "m = n"
    by (simp add: parse_unsigned_pad)
qed simp

end
