(* ===== verification/Sharding.thy ===== *)
theory Sharding
  imports TextNum
begin

text \<open>
  Shard routing and Raft group identifiers (\<open>kalamdb-sharding\<close>): \<open>ShardRouter\<close>, \<open>Shard\<close> and
  \<open>GroupId\<close>. The hasher (\<open>DefaultHasher\<close>, whose algorithm the standard library leaves
  unspecified) is the argument \<open>hash\<close>: it takes the list of strings written to it and returns
  the 64-bit digest.
\<close>

section \<open>Shards\<close>

datatype shard_kind = UserShard | SharedShard | StreamShard

record shard =
  shard_kind :: shard_kind
  shard_id :: nat

definition folder_name :: "shard \<Rightarrow> string" where
  "folder_name s = ''shard_'' @ show_dec (shard_id s)"

section \<open>Raft groups\<close>

datatype group_id = Meta | DataUserShard nat | DataSharedShard nat

fun is_metadata :: "group_id \<Rightarrow> bool" where
  "is_metadata Meta = True"
| "is_metadata _ = False"

fun is_data :: "group_id \<Rightarrow> bool" where
  "is_data (DataUserShard _) = True"
| "is_data (DataSharedShard _) = True"
| "is_data Meta = False"

fun partition_prefix :: "group_id \<Rightarrow> string" where
  "partition_prefix Meta = ''raft_meta''"
| "partition_prefix (DataUserShard i) = ''raft_data_user_'' @ pad_zero 2 (show_dec i)"
| "partition_prefix (DataSharedShard i) = ''raft_data_shared_'' @ pad_zero 2 (show_dec i)"

fun key_prefix :: "group_id \<Rightarrow> string" where
  "key_prefix Meta = ''meta''"
| "key_prefix (DataUserShard n) = ''u:'' @ pad_zero 5 (show_dec n)"
| "key_prefix (DataSharedShard n) = ''s:'' @ pad_zero 5 (show_dec n)"

fun as_u64 :: "group_id \<Rightarrow> nat" where
  "as_u64 Meta = 10"
| "as_u64 (DataUserShard i) = 100 + i"
| "as_u64 (DataSharedShard i) = 200 + i"

definition from_u64 :: "nat \<Rightarrow> group_id option" where
  "from_u64 n =
     (if n = 10 then Some Meta
      else if 100 \<le> n \<and> n \<le> 199 then Some (DataUserShard (n - 100))
      else if 200 \<le> n then
        (if n - 200 \<le> u32_max then Some (DataSharedShard (n - 200)) else None)
      else None)"

definition all_metadata :: "group_id list" where
  "all_metadata = [Meta]"

definition all_user_shards :: "nat \<Rightarrow> group_id list" where
  "all_user_shards n = map DataUserShard [0..<n]"

definition all_shared_shards :: "nat \<Rightarrow> group_id list" where
  "all_shared_shards n = map DataSharedShard [0..<n]"

definition all_groups :: "nat \<Rightarrow> nat \<Rightarrow> group_id list" where
  "all_groups users shared = all_metadata @ all_user_shards users @ all_shared_shards shared"

fun group_display :: "group_id \<Rightarrow> string" where
  "group_display Meta = ''meta''"
| "group_display (DataUserShard i) = ''data:user:'' @ pad_zero 2 (show_dec i)"
| "group_display (DataSharedShard i) = ''data:shared:'' @ pad_zero 2 (show_dec i)"

datatype group_parse_error = InvalidUserShard | InvalidSharedShard | UnknownGroupFormat string

definition group_from_str :: "string \<Rightarrow> group_parse_error + group_id" where
  "group_from_str s =
     (if s = ''meta'' then Inr Meta
      else case strip_prefix ''data:user:'' s of
        Some t \<Rightarrow>
          (case parse_unsigned u32_max t of
             Some i \<Rightarrow> Inr (DataUserShard i) | None \<Rightarrow> Inl InvalidUserShard)
      | None \<Rightarrow>
          (case strip_prefix ''data:shared:'' s of
             Some t \<Rightarrow>
               (case parse_unsigned u32_max t of
                  Some i \<Rightarrow> Inr (DataSharedShard i) | None \<Rightarrow> Inl InvalidSharedShard)
           | None \<Rightarrow> Inl (UnknownGroupFormat s)))"

section \<open>Router\<close>

record shard_router =
  num_user_shards :: nat
  num_shared_shards :: nat

record cluster_config =
  user_shards :: nat
  shared_shards :: nat

definition from_cluster_config :: "cluster_config \<Rightarrow> shard_router" where
  "from_cluster_config c = \<lparr>num_user_shards = user_shards c, num_shared_shards = shared_shards c\<rparr>"

definition default_config :: shard_router where
  "default_config = \<lparr>num_user_shards = 32, num_shared_shards = 1\<rparr>"

definition from_optional_cluster_config :: "cluster_config option \<Rightarrow> shard_router" where
  "from_optional_cluster_config c =
     (case c of Some cfg \<Rightarrow> from_cluster_config cfg | None \<Rightarrow> default_config)"

definition hash_to_shard :: "(string list \<Rightarrow> nat) \<Rightarrow> string \<Rightarrow> nat \<Rightarrow> nat" where
  "hash_to_shard hash key n = hash [key] mod n"

definition hash_table_to_shard :: "(string list \<Rightarrow> nat) \<Rightarrow> table_id \<Rightarrow> nat \<Rightarrow> nat" where
  "hash_table_to_shard hash t n = hash [namespace_id t, table_name t] mod n"

definition route_user :: "(string list \<Rightarrow> nat) \<Rightarrow> shard_router \<Rightarrow> user_id \<Rightarrow> shard" where
  "route_user hash r u =
     \<lparr>shard_kind = UserShard, shard_id = hash_to_shard hash u (max (num_user_shards r) 1)\<rparr>"

definition user_group_id :: "(string list \<Rightarrow> nat) \<Rightarrow> shard_router \<Rightarrow> user_id \<Rightarrow> group_id" where
  "user_group_id hash r u = DataUserShard (shard_id (route_user hash r u))"

definition route_stream_user :: "(string list \<Rightarrow> nat) \<Rightarrow> shard_router \<Rightarrow> user_id \<Rightarrow> shard" where
  "route_stream_user hash r u =
     \<lparr>shard_kind = StreamShard, shard_id = hash_to_shard hash u (max (num_user_shards r) 1)\<rparr>"

definition route_table :: "(string list \<Rightarrow> nat) \<Rightarrow> shard_router \<Rightarrow> table_id \<Rightarrow> shard" where
  "route_table hash r t =
     \<lparr>shard_kind = UserShard, shard_id = hash_table_to_shard hash t (max (num_user_shards r) 1)\<rparr>"

definition table_group_id :: "(string list \<Rightarrow> nat) \<Rightarrow> shard_router \<Rightarrow> table_id \<Rightarrow> group_id" where
  "table_group_id hash r t = DataUserShard (shard_id (route_table hash r t))"

definition place_shared_table :: "(string list \<Rightarrow> nat) \<Rightarrow> shard_router \<Rightarrow> table_id \<Rightarrow> nat" where
  "place_shared_table hash r t =
     hash_to_shard hash (namespace_id t) (max (num_shared_shards r) 1)"

text \<open>The part of \<open>TableDefinition\<close> the router reads.\<close>

datatype table_options = SharedOptions (shared_shard_id: nat) | OtherOptions

record table_definition =
  td_table_id :: table_id
  td_table_type :: table_type
  td_table_options :: table_options

datatype shared_group_error = NotSharedTable table_id | InvalidSharedOwner nat table_id

definition shared_group_id :: "shard_router \<Rightarrow> table_definition \<Rightarrow> shared_group_error + group_id" where
  "shared_group_id r t =
     (case td_table_options t of
        OtherOptions \<Rightarrow> Inl (NotSharedTable (td_table_id t))
      | SharedOptions sid \<Rightarrow>
          if td_table_type t \<noteq> Shared \<or> num_shared_shards r \<le> sid
          then Inl (InvalidSharedOwner sid (td_table_id t))
          else Inr (DataSharedShard sid))"

section \<open>Lemmas\<close>

lemma route_user_bound: "shard_id (route_user hash r u) < max (num_user_shards r) 1"
  by (simp add: route_user_def hash_to_shard_def)

lemma route_table_bound: "shard_id (route_table hash r t) < max (num_user_shards r) 1"
  by (simp add: route_table_def hash_table_to_shard_def)

lemma place_shared_bound: "place_shared_table hash r t < max (num_shared_shards r) 1"
  by (simp add: place_shared_table_def hash_to_shard_def)

lemma shared_group_id_Inr:
  "shared_group_id r t = Inr g \<longleftrightarrow>
     (\<exists>sid. td_table_options t = SharedOptions sid \<and> td_table_type t = Shared \<and>
        sid < num_shared_shards r \<and> g = DataSharedShard sid)"
  by (auto simp: shared_group_id_def split: table_options.splits)

lemma set_all_groups:
  "g \<in> set (all_groups n m) \<longleftrightarrow>
     (case g of Meta \<Rightarrow> True | DataUserShard i \<Rightarrow> i < n | DataSharedShard i \<Rightarrow> i < m)"
  by (cases g) (auto simp: all_groups_def all_metadata_def all_user_shards_def all_shared_shards_def)

lemma distinct_all_groups: "distinct (all_groups n m)"
  by (auto simp: all_groups_def all_metadata_def all_user_shards_def all_shared_shards_def
      distinct_map inj_on_def)

lemma as_u64_collision:
  "as_u64 g = as_u64 h \<and> g \<noteq> h \<longleftrightarrow>
     (\<exists>k. (g = DataUserShard (100 + k) \<and> h = DataSharedShard k) \<or>
          (h = DataUserShard (100 + k) \<and> g = DataSharedShard k))"
proof (cases g; cases h)
  fix i j assume "g = DataUserShard i" "h = DataSharedShard j"
  then show ?thesis
    by (auto intro!: exI [of _ j])
next
  fix i j assume "g = DataSharedShard i" "h = DataUserShard j"
  then show ?thesis
    by (auto intro!: exI [of _ i])
qed auto

section \<open>Properties\<close>



text \<open>
  The numeric id handed to Raft identifies the group, and \<open>from_u64\<close> inverts \<open>as_u64\<close>, exactly
  as long as a user shard number stays below 100; two distinct groups share a numeric id if and
  only if they are user shard 100+k and shared shard k.
\<close>

theorem group_numeric_id:
  "(\<forall>g. (case g of Meta \<Rightarrow> True | DataUserShard i \<Rightarrow> i < 100 | DataSharedShard i \<Rightarrow> i \<le> u32_max)
      \<longrightarrow> from_u64 (as_u64 g) = Some g) \<and>
   (\<forall>n g. from_u64 n = Some g \<longrightarrow> as_u64 g = n) \<and>
   (\<forall>g h. as_u64 g = as_u64 h \<and> g \<noteq> h \<longleftrightarrow>
     (\<exists>k. (g = DataUserShard (100 + k) \<and> h = DataSharedShard k) \<or>
          (h = DataUserShard (100 + k) \<and> g = DataSharedShard k)))"
proof (intro conjI allI impI)
  fix g
  assume "case g of Meta \<Rightarrow> True | DataUserShard i \<Rightarrow> i < 100 | DataSharedShard i \<Rightarrow> i \<le> u32_max"
  then show "from_u64 (as_u64 g) = Some g"
    by (cases g) (auto simp: from_u64_def)
next
  fix n g
  assume "from_u64 n = Some g"
  then show "as_u64 g = n"
    by (auto simp: from_u64_def split: if_splits)
qed (rule as_u64_collision)

theorem group_numeric_id_witness:
  "from_u64 (as_u64 (DataUserShard 31)) = Some (DataUserShard 31) \<and>
   as_u64 (DataUserShard 100) = as_u64 (DataSharedShard 0)"
  using conjunct1 [OF group_numeric_id, rule_format, of "DataUserShard 31"] by simp

text \<open>Printing a group and parsing the text gives the group back, for every \<open>u32\<close> shard number.\<close>

theorem group_display_roundtrip:
  assumes "case g of Meta \<Rightarrow> True | DataUserShard i \<Rightarrow> i \<le> u32_max | DataSharedShard i \<Rightarrow> i \<le> u32_max"
  shows "group_from_str (group_display g) = Inr g"
  using assms by (cases g) (auto simp: group_from_str_def parse_unsigned_pad strip_prefix_def)

theorem group_display_roundtrip_witness:
  "group_from_str (group_display (DataSharedShard 7)) = Inr (DataSharedShard 7)"
  by (rule group_display_roundtrip) (simp add: u32_max_def)

end
