(* ===== verification/Rows.thy ===== *)
theory Rows
  imports TextNum
begin

text \<open>
  Column values, rows and primary-key buckets: the DataFusion \<open>ScalarValue\<close> cases the code
  matches on, \<open>Row\<close>, the size estimate of staged data
  (\<open>kalamdb-transactions/src/staged_mutation.rs\<close>) and \<open>PkBucketKey\<close>
  (\<open>kalamdb-commons/src/conversions/pk_bucket.rs\<close>).

  Two things come from DataFusion and are arguments here: the in-memory size of one
  \<open>ScalarValue\<close> (\<open>base\<close>), and its \<open>Display\<close> text (\<open>show_scalar\<close>).
\<close>

section \<open>Scalar values\<close>

text \<open>
  Signed integers are \<open>int\<close>, unsigned ones \<open>nat\<close>, floats the bit pattern (DataFusion compares
  them by bits). Nested arrays carry their contents and their memory size. \<open>OtherScalar\<close> stands
  for the constructors that no line of the modelled code distinguishes (decimals, dates,
  intervals and so on), by their printed form; its flag says whether the value is null.
\<close>

datatype array_ref = ArrayRef (array_contents: string) (array_memory_size: nat)

datatype scalar_value =
    NullV
  | BooleanV "bool option"
  | Float32V "nat option"
  | Float64V "nat option"
  | Int8V "int option" | Int16V "int option" | Int32V "int option" | Int64V "int option"
  | UInt8V "nat option" | UInt16V "nat option" | UInt32V "nat option" | UInt64V "nat option"
  | Utf8V "string option" | Utf8ViewV "string option" | LargeUtf8V "string option"
  | BinaryV "string option" | BinaryViewV "string option" | LargeBinaryV "string option"
  | FixedSizeBinaryV int "string option"
  | FixedSizeListV array_ref | ListV array_ref | LargeListV array_ref
  | StructV array_ref | MapV array_ref
  | TimestampSecondV "int option" "string option"
  | TimestampMillisecondV "int option" "string option"
  | TimestampMicrosecondV "int option" "string option"
  | TimestampNanosecondV "int option" "string option"
  | UnionV "(int \<times> scalar_value) option" string
  | DictionaryV string scalar_value
  | RunEndEncodedV string string scalar_value
  | OtherScalar string bool

type_synonym row = "(string, scalar_value) btree"

section \<open>Size estimate\<close>

fun approximate_scalar_value_size_bytes :: "nat \<Rightarrow> scalar_value \<Rightarrow> nat" where
  "approximate_scalar_value_size_bytes base (Utf8V (Some v)) = base + length v"
| "approximate_scalar_value_size_bytes base (Utf8ViewV (Some v)) = base + length v"
| "approximate_scalar_value_size_bytes base (LargeUtf8V (Some v)) = base + length v"
| "approximate_scalar_value_size_bytes base (BinaryV (Some v)) = base + length v"
| "approximate_scalar_value_size_bytes base (BinaryViewV (Some v)) = base + length v"
| "approximate_scalar_value_size_bytes base (FixedSizeBinaryV _ (Some v)) = base + length v"
| "approximate_scalar_value_size_bytes base (LargeBinaryV (Some v)) = base + length v"
| "approximate_scalar_value_size_bytes base (FixedSizeListV a) = base + array_memory_size a"
| "approximate_scalar_value_size_bytes base (ListV a) = base + array_memory_size a"
| "approximate_scalar_value_size_bytes base (LargeListV a) = base + array_memory_size a"
| "approximate_scalar_value_size_bytes base (StructV a) = base + array_memory_size a"
| "approximate_scalar_value_size_bytes base (MapV a) = base + array_memory_size a"
| "approximate_scalar_value_size_bytes base (TimestampSecondV _ (Some tz)) = base + length tz"
| "approximate_scalar_value_size_bytes base (TimestampMillisecondV _ (Some tz)) = base + length tz"
| "approximate_scalar_value_size_bytes base (TimestampMicrosecondV _ (Some tz)) = base + length tz"
| "approximate_scalar_value_size_bytes base (TimestampNanosecondV _ (Some tz)) = base + length tz"
| "approximate_scalar_value_size_bytes base (UnionV (Some (_, v)) _) =
     base + approximate_scalar_value_size_bytes base v"
| "approximate_scalar_value_size_bytes base (DictionaryV _ v) =
     base + approximate_scalar_value_size_bytes base v"
| "approximate_scalar_value_size_bytes base (RunEndEncodedV _ _ v) =
     base + approximate_scalar_value_size_bytes base v"
| "approximate_scalar_value_size_bytes base _ = base"

definition approximate_row_size_bytes :: "nat \<Rightarrow> row \<Rightarrow> nat" where
  "approximate_row_size_bytes base r =
     sum_list (map (\<lambda>(c, v). length c + approximate_scalar_value_size_bytes base v) r)"

section \<open>Primary-key buckets\<close>

datatype pk_bucket_key = PkInt int | PkUInt nat | PkText string | PkVersion int

definition show_int :: "int \<Rightarrow> string" where
  "show_int i = (if i < 0 then CHR ''-'' # show_dec (nat (- i)) else show_dec (nat i))"

fun pk_display :: "pk_bucket_key \<Rightarrow> string" where
  "pk_display (PkInt v) = show_int v"
| "pk_display (PkUInt v) = show_dec v"
| "pk_display (PkText s) = s"
| "pk_display (PkVersion v) = ''_version:'' @ show_int v"

definition hex_char :: "nat \<Rightarrow> char" where
  "hex_char d = (if d < 10 then char_of (48 + d) else char_of (87 + d))"

definition hex2 :: "char \<Rightarrow> string" where
  "hex2 b = [hex_char (byte_of b div 16), hex_char (byte_of b mod 16)]"

definition uuid_pk_text :: "string \<Rightarrow> string option" where
  "uuid_pk_text bs =
     (if length bs \<noteq> 16 then None
      else Some (hex2 (bs ! 0) @ hex2 (bs ! 1) @ hex2 (bs ! 2) @ hex2 (bs ! 3) @ ''-'' @
        hex2 (bs ! 4) @ hex2 (bs ! 5) @ ''-'' @ hex2 (bs ! 6) @ hex2 (bs ! 7) @ ''-'' @
        hex2 (bs ! 8) @ hex2 (bs ! 9) @ ''-'' @ hex2 (bs ! 10) @ hex2 (bs ! 11) @
        hex2 (bs ! 12) @ hex2 (bs ! 13) @ hex2 (bs ! 14) @ hex2 (bs ! 15)))"

text \<open>The error text of an unsupported key embeds the debug print of the value; only that it is an error is kept.\<close>

fun try_pk_bucket_key :: "scalar_value \<Rightarrow> pk_bucket_key option" where
  "try_pk_bucket_key (Int8V (Some v)) = Some (PkInt v)"
| "try_pk_bucket_key (Int16V (Some v)) = Some (PkInt v)"
| "try_pk_bucket_key (Int32V (Some v)) = Some (PkInt v)"
| "try_pk_bucket_key (Int64V (Some v)) = Some (PkInt v)"
| "try_pk_bucket_key (UInt8V (Some v)) = Some (PkUInt v)"
| "try_pk_bucket_key (UInt16V (Some v)) = Some (PkUInt v)"
| "try_pk_bucket_key (UInt32V (Some v)) = Some (PkUInt v)"
| "try_pk_bucket_key (UInt64V (Some v)) = Some (PkUInt v)"
| "try_pk_bucket_key (BooleanV (Some v)) = Some (PkText (if v then ''true'' else ''false''))"
| "try_pk_bucket_key (Utf8V (Some s)) = Some (PkText s)"
| "try_pk_bucket_key (LargeUtf8V (Some s)) = Some (PkText s)"
| "try_pk_bucket_key (Utf8ViewV (Some s)) = Some (PkText s)"
| "try_pk_bucket_key (FixedSizeBinaryV n (Some bs)) =
     (if n = 16 then map_option PkText (uuid_pk_text bs) else None)"
| "try_pk_bucket_key _ = None"

fun is_null :: "scalar_value \<Rightarrow> bool" where
  "is_null NullV = True"
| "is_null (BooleanV v) = (v = None)"
| "is_null (Float32V v) = (v = None)"
| "is_null (Float64V v) = (v = None)"
| "is_null (Int8V v) = (v = None)"
| "is_null (Int16V v) = (v = None)"
| "is_null (Int32V v) = (v = None)"
| "is_null (Int64V v) = (v = None)"
| "is_null (UInt8V v) = (v = None)"
| "is_null (UInt16V v) = (v = None)"
| "is_null (UInt32V v) = (v = None)"
| "is_null (UInt64V v) = (v = None)"
| "is_null (Utf8V v) = (v = None)"
| "is_null (Utf8ViewV v) = (v = None)"
| "is_null (LargeUtf8V v) = (v = None)"
| "is_null (BinaryV v) = (v = None)"
| "is_null (BinaryViewV v) = (v = None)"
| "is_null (LargeBinaryV v) = (v = None)"
| "is_null (FixedSizeBinaryV _ v) = (v = None)"
| "is_null (TimestampSecondV v _) = (v = None)"
| "is_null (TimestampMillisecondV v _) = (v = None)"
| "is_null (TimestampMicrosecondV v _) = (v = None)"
| "is_null (TimestampNanosecondV v _) = (v = None)"
| "is_null (UnionV v _) = (case v of None \<Rightarrow> True | Some (_, w) \<Rightarrow> is_null w)"
| "is_null (DictionaryV _ v) = is_null v"
| "is_null (RunEndEncodedV _ _ v) = is_null v"
| "is_null (OtherScalar _ b) = b"
| "is_null _ = False"

definition pk_bucket_key_from_scalar ::
    "(scalar_value \<Rightarrow> string) \<Rightarrow> scalar_value \<Rightarrow> int \<Rightarrow> pk_bucket_key" where
  "pk_bucket_key_from_scalar show_scalar v version =
     (case try_pk_bucket_key v of
        Some (PkText t) \<Rightarrow> if t = [] then PkVersion version else PkText t
      | Some k \<Rightarrow> k
      | None \<Rightarrow> if is_null v then PkVersion version else PkText (show_scalar v))"

definition pk_bucket_key_from_row ::
    "(scalar_value \<Rightarrow> string) \<Rightarrow> row \<Rightarrow> string \<Rightarrow> int \<Rightarrow> pk_bucket_key" where
  "pk_bucket_key_from_row show_scalar r pk version =
     (case bt_get r pk of
        Some v \<Rightarrow> pk_bucket_key_from_scalar show_scalar v version
      | None \<Rightarrow> PkVersion version)"

text \<open>
  An Arrow array is the list of its cells. The typed fast paths of the reader return what the
  generic path returns for a cell of that type; they are kept as separate cases.
\<close>

definition read_pk_bucket_from_array :: "scalar_value list \<Rightarrow> nat \<Rightarrow> pk_bucket_key option" where
  "read_pk_bucket_from_array array i =
     (if is_null (array ! i) then None
      else case array ! i of
        Int64V (Some v) \<Rightarrow> Some (PkInt v)
      | Int32V (Some v) \<Rightarrow> Some (PkInt v)
      | Int16V (Some v) \<Rightarrow> Some (PkInt v)
      | Int8V (Some v) \<Rightarrow> Some (PkInt v)
      | UInt64V (Some v) \<Rightarrow> Some (PkUInt v)
      | UInt32V (Some v) \<Rightarrow> Some (PkUInt v)
      | UInt16V (Some v) \<Rightarrow> Some (PkUInt v)
      | UInt8V (Some v) \<Rightarrow> Some (PkUInt v)
      | Utf8V (Some s) \<Rightarrow> Some (PkText s)
      | LargeUtf8V (Some s) \<Rightarrow> Some (PkText s)
      | v \<Rightarrow> try_pk_bucket_key v)"

definition pk_bucket_key_from_array :: "scalar_value list \<Rightarrow> nat \<Rightarrow> int \<Rightarrow> pk_bucket_key" where
  "pk_bucket_key_from_array array i version =
     (case read_pk_bucket_from_array array i of
        Some (PkText t) \<Rightarrow> if t = [] then PkVersion version else PkText t
      | Some k \<Rightarrow> k
      | None \<Rightarrow> PkVersion version)"

text \<open>The column type of a value that can serve as a key; the width of fixed binaries is part of the type.\<close>

fun key_column_type :: "scalar_value \<Rightarrow> (string \<times> int) option" where
  "key_column_type (Int8V _) = Some (''Int8'', 0)"
| "key_column_type (Int16V _) = Some (''Int16'', 0)"
| "key_column_type (Int32V _) = Some (''Int32'', 0)"
| "key_column_type (Int64V _) = Some (''Int64'', 0)"
| "key_column_type (UInt8V _) = Some (''UInt8'', 0)"
| "key_column_type (UInt16V _) = Some (''UInt16'', 0)"
| "key_column_type (UInt32V _) = Some (''UInt32'', 0)"
| "key_column_type (UInt64V _) = Some (''UInt64'', 0)"
| "key_column_type (BooleanV _) = Some (''Boolean'', 0)"
| "key_column_type (Utf8V _) = Some (''Utf8'', 0)"
| "key_column_type (LargeUtf8V _) = Some (''LargeUtf8'', 0)"
| "key_column_type (Utf8ViewV _) = Some (''Utf8View'', 0)"
| "key_column_type (FixedSizeBinaryV n _) = Some (''FixedSizeBinary'', n)"
| "key_column_type _ = None"

section \<open>Lemmas\<close>

lemma show_int_inject [simp]: "show_int i = show_int j \<longleftrightarrow> i = j"
proof -
  have no_minus: "show_dec n \<noteq> CHR ''-'' # s" for n s
    using show_dec_digits [of "CHR ''-''" n] sign_not_digit by force
  show ?thesis
    using no_minus no_minus [symmetric] by (auto simp: show_int_def show_dec_inject)
qed

lemma byte_of_less: "byte_of c < 256"
  by (simp add: byte_of_def)

lemma byte_of_inject: "byte_of c = byte_of d \<longleftrightarrow> c = d"
  by (simp add: byte_of_def)

lemma hex_char_inject:
  assumes "a < 16" "b < 16"
  shows "hex_char a = hex_char b \<longleftrightarrow> a = b"
proof -
  have "(of_char (hex_char n) :: nat) = (if n < 10 then 48 + n else 87 + n)" if "n < 16" for n
    using that by (simp add: hex_char_def)
  then have "hex_char a = hex_char b \<Longrightarrow>
      (if a < 10 then 48 + a else 87 + a) = (if b < 10 then 48 + b else 87 + b)"
    using assms by metis
  with assms show ?thesis
    by (auto split: if_splits)
qed

lemma hex2_inject [simp]: "hex2 a = hex2 b \<longleftrightarrow> a = b"
proof -
  have "byte_of a div 16 < 16" "byte_of b div 16 < 16"
    using byte_of_less [of a] byte_of_less [of b] by auto
  then have "hex2 a = hex2 b \<longleftrightarrow>
      byte_of a div 16 = byte_of b div 16 \<and> byte_of a mod 16 = byte_of b mod 16"
    by (simp add: hex2_def hex_char_inject)
  also have "\<dots> \<longleftrightarrow> byte_of a = byte_of b"
    by (metis div_mult_mod_eq)
  finally show ?thesis
    by (simp add: byte_of_inject)
qed

lemma hex2_length [simp]: "length (hex2 b) = 2"
  by (simp add: hex2_def)

lemma list16: "length bs = 16 \<Longrightarrow>
    bs = [bs ! 0, bs ! 1, bs ! 2, bs ! 3, bs ! 4, bs ! 5, bs ! 6, bs ! 7,
      bs ! 8, bs ! 9, bs ! 10, bs ! 11, bs ! 12, bs ! 13, bs ! 14, bs ! 15]"
  using map_nth [of bs] by (simp add: upt_rec eval_nat_numeral)

lemma uuid_pk_text_inject:
  assumes "uuid_pk_text bs = Some t" "uuid_pk_text cs = Some t"
  shows "bs = cs"
proof -
  have len: "length bs = 16" "length cs = 16"
    using assms by (auto simp: uuid_pk_text_def split: if_splits)
  have "uuid_pk_text bs = uuid_pk_text cs"
    using assms by simp
  then have "bs ! 0 = cs ! 0 \<and> bs ! 1 = cs ! 1 \<and> bs ! 2 = cs ! 2 \<and> bs ! 3 = cs ! 3 \<and>
    bs ! 4 = cs ! 4 \<and> bs ! 5 = cs ! 5 \<and> bs ! 6 = cs ! 6 \<and> bs ! 7 = cs ! 7 \<and>
    bs ! 8 = cs ! 8 \<and> bs ! 9 = cs ! 9 \<and> bs ! 10 = cs ! 10 \<and> bs ! 11 = cs ! 11 \<and>
    bs ! 12 = cs ! 12 \<and> bs ! 13 = cs ! 13 \<and> bs ! 14 = cs ! 14 \<and> bs ! 15 = cs ! 15"
    using len by (simp add: uuid_pk_text_def)
  then show ?thesis
    using list16 [OF len(1)] list16 [OF len(2)] by metis
qed

fun_cases try_pk_SomeE: "try_pk_bucket_key v = Some k"

lemma read_array_eq:
  "read_pk_bucket_from_array array i =
     (if is_null (array ! i) then None else try_pk_bucket_key (array ! i))"
  by (cases "array ! i") (auto simp: read_pk_bucket_from_array_def split: option.splits)

lemma try_pk_not_null: "try_pk_bucket_key v = Some k \<Longrightarrow> \<not> is_null v"
  by (elim try_pk_SomeE) auto

section \<open>Properties\<close>



text \<open>
  The bucket read from an Arrow column and the bucket of the same cell as a scalar agree if and
  only if the cell is null or of a supported key type; for every other non-null cell the array path falls back to the row version while the scalar
  path groups by the printed value.
\<close>

theorem pk_array_bucket_agreement:
  "pk_bucket_key_from_array array i version = pk_bucket_key_from_scalar show_scalar (array ! i) version
     \<longleftrightarrow> is_null (array ! i) \<or> (\<exists>k. try_pk_bucket_key (array ! i) = Some k)"
  by (auto simp: pk_bucket_key_from_array_def pk_bucket_key_from_scalar_def read_array_eq
      split: option.splits pk_bucket_key.splits dest: try_pk_not_null)

end
