(* ===== verification/TxOverlay.thy ===== *)
theory TxOverlay
  imports Rows
begin

text \<open>
  The transaction-local overlay (\<open>kalamdb-transactions/src/overlay.rs\<close>): the rows a transaction has
  staged, indexed by table and scoped primary key, with the inserted, updated and deleted key
  sets that scans and point lookups consult. Reference counting (\<open>Arc::make_mut\<close>) is
  copy-on-write and has no counterpart: values are persistent here.
\<close>

section \<open>Entries and keys\<close>

datatype scoped_pk_key = ScopedPkKey (sk_user_id: "user_id option") (sk_primary_key: string)

record overlay_entry =
  oe_transaction_id :: transaction_id
  oe_mutation_order :: nat
  oe_table_id :: table_id
  oe_table_type :: table_type
  oe_user_id :: "user_id option"
  oe_operation_kind :: operation_kind
  oe_primary_key :: string
  oe_payload :: row
  oe_tombstone :: bool

definition for_entry :: "overlay_entry \<Rightarrow> scoped_pk_key" where
  "for_entry e =
     ScopedPkKey
       (case oe_table_type e of
          User \<Rightarrow> oe_user_id e | Stream \<Rightarrow> oe_user_id e | Shared \<Rightarrow> None | System \<Rightarrow> None)
       (oe_primary_key e)"

definition is_deleted :: "overlay_entry \<Rightarrow> bool" where
  "is_deleted e = (oe_tombstone e \<or> oe_operation_kind e = Delete)"

section \<open>The overlay\<close>

type_synonym key_sets = "table_id \<rightharpoonup> scoped_pk_key set"

record transaction_overlay =
  ov_transaction_id :: transaction_id
  entries_by_table :: "table_id \<rightharpoonup> (scoped_pk_key \<rightharpoonup> overlay_entry)"
  inserted_keys :: key_sets
  deleted_keys :: key_sets
  updated_keys :: key_sets
  updated_columns :: "table_id \<rightharpoonup> string set"

definition overlay_new :: "transaction_id \<Rightarrow> transaction_overlay" where
  "overlay_new tx = \<lparr>ov_transaction_id = tx, entries_by_table = Map.empty,
     inserted_keys = Map.empty, deleted_keys = Map.empty, updated_keys = Map.empty,
     updated_columns = Map.empty\<rparr>"

definition entry_at :: "transaction_overlay \<Rightarrow> table_id \<Rightarrow> scoped_pk_key \<Rightarrow> overlay_entry option" where
  "entry_at ov t k = (case entries_by_table ov t of None \<Rightarrow> None | Some es \<Rightarrow> es k)"

definition merge_entry :: "overlay_entry option \<Rightarrow> overlay_entry \<Rightarrow> overlay_entry" where
  "merge_entry current nxt =
     (if is_deleted nxt then nxt
      else case current of
        None \<Rightarrow> nxt
      | Some cur \<Rightarrow>
          if is_deleted cur then nxt
          else if oe_operation_kind nxt = Update then
            nxt\<lparr>oe_payload := bt_extend (oe_payload cur) (oe_payload nxt),
                oe_operation_kind :=
                  (if oe_operation_kind cur = Insert then Insert else oe_operation_kind nxt)\<rparr>
          else nxt)"

definition merge_visible_entry ::
    "transaction_overlay \<Rightarrow> table_id \<Rightarrow> scoped_pk_key \<Rightarrow> overlay_entry \<Rightarrow> overlay_entry" where
  "merge_visible_entry ov t k nxt = merge_entry (entry_at ov t k) nxt"

definition add_key :: "table_id \<Rightarrow> scoped_pk_key \<Rightarrow> key_sets \<Rightarrow> key_sets" where
  "add_key t k m = m(t \<mapsto> insert k (or_default {} m t))"

definition remove_key :: "table_id \<Rightarrow> scoped_pk_key \<Rightarrow> key_sets \<Rightarrow> key_sets" where
  "remove_key t k m =
     (case m t of
        None \<Rightarrow> m
      | Some ks \<Rightarrow> if ks - {k} = {} then m(t := None) else m(t \<mapsto> ks - {k}))"

definition clear_key_membership ::
    "table_id \<Rightarrow> scoped_pk_key \<Rightarrow> transaction_overlay \<Rightarrow> transaction_overlay" where
  "clear_key_membership t k ov =
     ov\<lparr>inserted_keys := remove_key t k (inserted_keys ov),
        deleted_keys := remove_key t k (deleted_keys ov),
        updated_keys := remove_key t k (updated_keys ov)\<rparr>"

definition record_updated_columns :: "table_id \<Rightarrow> overlay_entry \<Rightarrow> transaction_overlay \<Rightarrow> transaction_overlay" where
  "record_updated_columns t e ov =
     (if oe_operation_kind e = Update \<and> \<not> is_deleted e
      then ov\<lparr>updated_columns :=
        (updated_columns ov)(t \<mapsto> or_default {} (updated_columns ov) t \<union> set (bt_keys (oe_payload e)))\<rparr>
      else ov)"

definition mark_key :: "table_id \<Rightarrow> scoped_pk_key \<Rightarrow> overlay_entry \<Rightarrow> transaction_overlay \<Rightarrow> transaction_overlay" where
  "mark_key t k e ov =
     (if is_deleted e then ov\<lparr>deleted_keys := add_key t k (deleted_keys ov)\<rparr>
      else case oe_operation_kind e of
        Insert \<Rightarrow> ov\<lparr>inserted_keys := add_key t k (inserted_keys ov)\<rparr>
      | Update \<Rightarrow> ov\<lparr>updated_keys := add_key t k (updated_keys ov)\<rparr>
      | Delete \<Rightarrow> ov\<lparr>deleted_keys := add_key t k (deleted_keys ov)\<rparr>)"

definition apply_entry :: "overlay_entry \<Rightarrow> transaction_overlay \<Rightarrow> transaction_overlay" where
  "apply_entry entry ov =
     (let t = oe_table_id entry;
          k = for_entry entry;
          eff = merge_visible_entry ov t k entry;
          ov1 = record_updated_columns t eff ov;
          ov2 = ov1\<lparr>entries_by_table := (entries_by_table ov1)(t \<mapsto>
                    (or_default Map.empty (entries_by_table ov1) t)(k \<mapsto> eff))\<rparr>
      in mark_key t k eff (clear_key_membership t k ov2))"

text \<open>
  \<open>merge_from\<close> walks the other overlay's entries in the iteration order of its hash maps; the
  order is the list argument, and \<open>enumerates\<close> says that it lists every entry once.
\<close>

definition enumerates :: "overlay_entry list \<Rightarrow> transaction_overlay \<Rightarrow> bool" where
  "enumerates es ov \<longleftrightarrow>
     distinct (map (\<lambda>e. (oe_table_id e, for_entry e)) es) \<and>
     (\<forall>e. e \<in> set es \<longleftrightarrow> entry_at ov (oe_table_id e) (for_entry e) = Some e)"

definition merge_from :: "overlay_entry list \<Rightarrow> transaction_overlay \<Rightarrow> transaction_overlay" where
  "merge_from es ov = fold apply_entry es ov"

definition latest_visible_entry_for_scope ::
    "transaction_overlay \<Rightarrow> table_id \<Rightarrow> user_id option \<Rightarrow> string \<Rightarrow> overlay_entry option" where
  "latest_visible_entry_for_scope ov t u pk = entry_at ov t (ScopedPkKey u pk)"

definition table_overlay :: "transaction_overlay \<Rightarrow> table_id \<Rightarrow> transaction_overlay option" where
  "table_overlay ov t =
     (case entries_by_table ov t of
        None \<Rightarrow> None
      | Some es \<Rightarrow> Some \<lparr>ov_transaction_id = ov_transaction_id ov,
          entries_by_table = [t \<mapsto> es],
          inserted_keys = (inserted_keys ov) |` {t},
          deleted_keys = (deleted_keys ov) |` {t},
          updated_keys = (updated_keys ov) |` {t},
          updated_columns = (updated_columns ov) |` {t}\<rparr>)"

definition column_was_updated :: "transaction_overlay \<Rightarrow> table_id \<Rightarrow> string \<Rightarrow> bool" where
  "column_was_updated ov t c = (case updated_columns ov t of None \<Rightarrow> False | Some cs \<Rightarrow> c \<in> cs)"

section \<open>Key sets\<close>

abbreviation key_in :: "key_sets \<Rightarrow> table_id \<Rightarrow> scoped_pk_key \<Rightarrow> bool" where
  "key_in m t k \<equiv> k \<in> or_default {} m t"

lemma key_in_add [simp]: "key_in (add_key t k m) t' k' \<longleftrightarrow> (t' = t \<and> k' = k) \<or> key_in m t' k'"
  by (auto simp: add_key_def)

lemma key_in_remove [simp]: "key_in (remove_key t k m) t' k' \<longleftrightarrow> key_in m t' k' \<and> (t' \<noteq> t \<or> k' \<noteq> k)"
  by (auto simp: remove_key_def or_default_def split: option.splits if_splits)

lemma add_key_not_empty: "\<forall>t. m t \<noteq> Some {} \<Longrightarrow> add_key t k m t' \<noteq> Some {}"
  by (auto simp: add_key_def)

lemma remove_key_not_empty: "\<forall>t. m t \<noteq> Some {} \<Longrightarrow> remove_key t k m t' \<noteq> Some {}"
  by (auto simp: remove_key_def split: option.splits if_splits)

section \<open>Entry merging\<close>

lemma merge_entry_frame [simp]:
  "oe_table_id (merge_entry cur e) = oe_table_id e"
  "oe_table_type (merge_entry cur e) = oe_table_type e"
  "oe_user_id (merge_entry cur e) = oe_user_id e"
  "oe_primary_key (merge_entry cur e) = oe_primary_key e"
  "oe_mutation_order (merge_entry cur e) = oe_mutation_order e"
  "oe_tombstone (merge_entry cur e) = oe_tombstone e"
  "oe_transaction_id (merge_entry cur e) = oe_transaction_id e"
  by (auto simp: merge_entry_def split: option.splits)

lemma for_entry_merge [simp]: "for_entry (merge_entry cur e) = for_entry e"
  by (simp add: for_entry_def split: table_type.split)

lemma is_deleted_merge [simp]: "is_deleted (merge_entry cur e) = is_deleted e"
  by (auto simp: merge_entry_def is_deleted_def split: option.splits)

lemma merge_entry_None [simp]: "merge_entry None e = e"
  by (simp add: merge_entry_def)

section \<open>The effect of one entry\<close>

lemma entries_apply_entry:
  "entries_by_table (apply_entry e ov) =
     (entries_by_table ov)(oe_table_id e \<mapsto>
       (or_default Map.empty (entries_by_table ov) (oe_table_id e))
         (for_entry e \<mapsto> merge_entry (entry_at ov (oe_table_id e) (for_entry e)) e))"
  by (simp add: apply_entry_def Let_def mark_key_def clear_key_membership_def merge_visible_entry_def
      record_updated_columns_def split: operation_kind.splits)

lemma entry_at_new [simp]: "entry_at (overlay_new tx) t k = None"
  by (simp add: entry_at_def overlay_new_def)

lemma entry_at_apply [simp]:
  "entry_at (apply_entry e ov) t k =
     (if t = oe_table_id e \<and> k = for_entry e then Some (merge_entry (entry_at ov t k) e)
      else entry_at ov t k)"
  by (auto simp: entry_at_def entries_apply_entry or_default_def split: option.splits)

lemma inserted_apply:
  "key_in (inserted_keys (apply_entry e ov)) t k \<longleftrightarrow>
     (if t = oe_table_id e \<and> k = for_entry e
      then \<not> is_deleted e \<and> oe_operation_kind (merge_entry (entry_at ov t k) e) = Insert
      else key_in (inserted_keys ov) t k)"
  by (auto simp: apply_entry_def Let_def mark_key_def clear_key_membership_def
      record_updated_columns_def merge_visible_entry_def split: operation_kind.splits)

lemma updated_apply:
  "key_in (updated_keys (apply_entry e ov)) t k \<longleftrightarrow>
     (if t = oe_table_id e \<and> k = for_entry e
      then \<not> is_deleted e \<and> oe_operation_kind (merge_entry (entry_at ov t k) e) = Update
      else key_in (updated_keys ov) t k)"
  by (auto simp: apply_entry_def Let_def mark_key_def clear_key_membership_def
      record_updated_columns_def merge_visible_entry_def split: operation_kind.splits)

lemma deleted_apply:
  "key_in (deleted_keys (apply_entry e ov)) t k \<longleftrightarrow>
     (if t = oe_table_id e \<and> k = for_entry e then is_deleted e else key_in (deleted_keys ov) t k)"
  by (auto simp: apply_entry_def Let_def mark_key_def clear_key_membership_def is_deleted_merge
      record_updated_columns_def merge_visible_entry_def is_deleted_def
      split: operation_kind.splits) (simp_all add: merge_entry_def is_deleted_def split: if_splits option.splits)

lemma apply_entry_no_empty_sets:
  assumes "\<forall>t. inserted_keys ov t \<noteq> Some {}" "\<forall>t. deleted_keys ov t \<noteq> Some {}"
    "\<forall>t. updated_keys ov t \<noteq> Some {}"
  shows "inserted_keys (apply_entry e ov) t \<noteq> Some {}"
    and "deleted_keys (apply_entry e ov) t \<noteq> Some {}"
    and "updated_keys (apply_entry e ov) t \<noteq> Some {}"
  using assms
  by (auto simp: apply_entry_def Let_def mark_key_def clear_key_membership_def record_updated_columns_def
      split: operation_kind.splits intro!: add_key_not_empty remove_key_not_empty
      dest: add_key_not_empty [THEN notE, rotated] remove_key_not_empty [THEN notE, rotated])

section \<open>Invariant\<close>

text \<open>
  Every entry sits under its own table and key, the three key sets classify exactly the entries,
  and no empty set is stored.
\<close>

definition keys_classified :: "transaction_overlay \<Rightarrow> bool" where
  "keys_classified ov \<longleftrightarrow>
     (\<forall>t k. key_in (deleted_keys ov) t k \<longleftrightarrow>
        (\<exists>e. entry_at ov t k = Some e \<and> is_deleted e)) \<and>
     (\<forall>t k. key_in (inserted_keys ov) t k \<longleftrightarrow>
        (\<exists>e. entry_at ov t k = Some e \<and> \<not> is_deleted e \<and> oe_operation_kind e = Insert)) \<and>
     (\<forall>t k. key_in (updated_keys ov) t k \<longleftrightarrow>
        (\<exists>e. entry_at ov t k = Some e \<and> \<not> is_deleted e \<and> oe_operation_kind e = Update))"

definition overlay_wf :: "transaction_overlay \<Rightarrow> bool" where
  "overlay_wf ov \<longleftrightarrow>
     (\<forall>t k e. entry_at ov t k = Some e \<longrightarrow> oe_table_id e = t \<and> for_entry e = k) \<and>
     keys_classified ov \<and>
     (\<forall>t. inserted_keys ov t \<noteq> Some {} \<and> deleted_keys ov t \<noteq> Some {} \<and> updated_keys ov t \<noteq> Some {})"

lemma overlay_wf_new [simp]: "overlay_wf (overlay_new tx)"
  by (simp add: overlay_wf_def keys_classified_def overlay_new_def or_default_def entry_at_def)

lemma keys_classified_apply: "keys_classified ov \<Longrightarrow> keys_classified (apply_entry e ov)"
  by (auto simp: keys_classified_def inserted_apply updated_apply deleted_apply)

lemma overlay_wf_apply [simp]: "overlay_wf ov \<Longrightarrow> overlay_wf (apply_entry e ov)"
  unfolding overlay_wf_def
  by (auto simp: keys_classified_apply apply_entry_no_empty_sets)

lemma overlay_wf_fold [simp]: "overlay_wf ov \<Longrightarrow> overlay_wf (fold apply_entry es ov)"
  by (induction es arbitrary: ov) auto

section \<open>Refinement to one fold per key\<close>

text \<open>The abstract overlay of a single row: the visible entry after a sequence of entries for that key.\<close>

definition fold_key :: "overlay_entry list \<Rightarrow> overlay_entry option \<Rightarrow> overlay_entry option" where
  "fold_key es cur = fold (\<lambda>e c. Some (merge_entry c e)) es cur"

definition entries_for :: "table_id \<Rightarrow> scoped_pk_key \<Rightarrow> overlay_entry list \<Rightarrow> overlay_entry list" where
  "entries_for t k es = filter (\<lambda>e. oe_table_id e = t \<and> for_entry e = k) es"

lemma entry_at_fold:
  "entry_at (fold apply_entry es ov) t k = fold_key (entries_for t k es) (entry_at ov t k)"
  by (induction es arbitrary: ov) (auto simp: fold_key_def entries_for_def)

lemma entries_by_table_fold:
  "entries_by_table (fold apply_entry es ov) t = None \<longleftrightarrow>
     entries_by_table ov t = None \<and> (\<forall>e\<in>set es. oe_table_id e \<noteq> t)"
  by (induction es arbitrary: ov) (auto simp: entries_apply_entry)

lemma fold_key_snoc: "fold_key (es @ [e]) cur = Some (merge_entry (fold_key es cur) e)"
  by (simp add: fold_key_def)

lemma fold_key_eq_None [simp]: "fold_key es cur = None \<longleftrightarrow> es = [] \<and> cur = None"
  by (induction es arbitrary: cur) (auto simp: fold_key_def)

lemma entry_at_merge_from:
  assumes "enumerates es other"
    and key: "\<forall>e. entry_at other t k = Some e \<longrightarrow> oe_table_id e = t \<and> for_entry e = k"
  shows "entry_at (merge_from es ov) t k =
    (case entry_at other t k of
       None \<Rightarrow> entry_at ov t k
     | Some e \<Rightarrow> Some (merge_entry (entry_at ov t k) e))"
proof (cases "entry_at other t k")
  case None
  then have "entries_for t k es = []"
    using assms(1) by (force simp: entries_for_def enumerates_def filter_empty_conv)
  with None show ?thesis
    by (simp add: merge_from_def entry_at_fold fold_key_def)
next
  case (Some e)
  then have e: "e \<in> set es" "oe_table_id e = t" "for_entry e = k"
    using assms by (simp_all add: enumerates_def)
  then have "entries_for t k es = [e]"
    using distinct_map_filter [of "\<lambda>e. (oe_table_id e, for_entry e)" es e] assms(1)
    by (simp add: enumerates_def entries_for_def)
  with Some show ?thesis
    by (simp add: merge_from_def entry_at_fold fold_key_def)
qed

section \<open>Overlay views\<close>

text \<open>
  The \<open>TransactionOverlayView\<close> trait: a view yields a whole overlay and, for one table, an overlay
  that a scan of that table may use instead. The laws say the two agree on the table.
\<close>

definition same_table_view :: "table_id \<Rightarrow> transaction_overlay \<Rightarrow> transaction_overlay \<Rightarrow> bool" where
  "same_table_view t a b \<longleftrightarrow>
     (\<forall>k. entry_at a t k = entry_at b t k) \<and>
     (\<forall>k. key_in (inserted_keys a) t k = key_in (inserted_keys b) t k) \<and>
     (\<forall>k. key_in (deleted_keys a) t k = key_in (deleted_keys b) t k) \<and>
     (\<forall>k. key_in (updated_keys a) t k = key_in (updated_keys b) t k)"

lemma same_table_view_classified:
  "keys_classified a \<Longrightarrow> keys_classified b \<Longrightarrow> \<forall>k. entry_at a t k = entry_at b t k \<Longrightarrow> same_table_view t a b"
  by (simp add: same_table_view_def keys_classified_def)

locale overlay_view =
  fixes valid :: "'v \<Rightarrow> bool"
    and overlay :: "'v \<Rightarrow> transaction_overlay"
    and overlay_for_table :: "'v \<Rightarrow> table_id \<Rightarrow> transaction_overlay option"
  assumes table_view: "valid v \<Longrightarrow> overlay_for_table v t = Some ov \<Longrightarrow> same_table_view t ov (overlay v)"
    and no_table_view: "valid v \<Longrightarrow> overlay_for_table v t = None \<Longrightarrow> entry_at (overlay v) t k = None"
begin

definition visible :: "'v \<Rightarrow> table_id \<Rightarrow> user_id option \<Rightarrow> string \<Rightarrow> overlay_entry option" where
  "visible v t u pk =
     (case overlay_for_table v t of
        None \<Rightarrow> None | Some ov \<Rightarrow> latest_visible_entry_for_scope ov t u pk)"

lemma visible_eq: "valid v \<Longrightarrow> visible v t u pk = latest_visible_entry_for_scope (overlay v) t u pk"
  using table_view [of v t] no_table_view [of v t "ScopedPkKey u pk"]
  by (auto simp: visible_def latest_visible_entry_for_scope_def same_table_view_def split: option.splits)

end

lemma table_overlay_same_view: "table_overlay ov t = Some o' \<Longrightarrow> same_table_view t o' ov"
  by (auto simp: table_overlay_def same_table_view_def entry_at_def or_default_def split: option.splits)

interpretation tov: overlay_view "\<lambda>ov. True" "\<lambda>ov. ov" table_overlay
  by unfold_locales
    (auto intro: table_overlay_same_view simp: table_overlay_def entry_at_def split: option.splits)

lemma table_overlay_frame:
  assumes "table_overlay ov t = Some o'"
  shows "entry_at o' t' k = (if t' = t then entry_at ov t' k else None)"
    and "inserted_keys o' t' = (if t' = t then inserted_keys ov t' else None)"
    and "deleted_keys o' t' = (if t' = t then deleted_keys ov t' else None)"
    and "updated_keys o' t' = (if t' = t then updated_keys ov t' else None)"
  using assms by (auto simp: table_overlay_def entry_at_def split: option.splits)

lemma table_overlay_wf: "overlay_wf ov \<Longrightarrow> table_overlay ov t = Some o' \<Longrightarrow> overlay_wf o'"
  by (simp add: overlay_wf_def keys_classified_def table_overlay_frame or_default_def)

section \<open>Properties\<close>

text \<open>
  Staging any sequence of entries keeps the overlay well-formed: the inserted, updated and
  deleted key sets are pairwise disjoint, together they are exactly the keys with an entry, and
  each key is in the set of its effective operation.
\<close>

theorem overlay_key_sets_partition:
  "let ov = fold apply_entry es (overlay_new tx) in
    overlay_wf ov \<and>
    \<not> (key_in (inserted_keys ov) t k \<and> key_in (deleted_keys ov) t k) \<and>
    \<not> (key_in (inserted_keys ov) t k \<and> key_in (updated_keys ov) t k) \<and>
    \<not> (key_in (updated_keys ov) t k \<and> key_in (deleted_keys ov) t k) \<and>
    (key_in (inserted_keys ov) t k \<or> key_in (deleted_keys ov) t k \<or> key_in (updated_keys ov) t k
      \<longleftrightarrow> (\<exists>e\<in>set es. oe_table_id e = t \<and> for_entry e = k))"
proof -
  define ov where "ov = fold apply_entry es (overlay_new tx)"
  have wf: "overlay_wf ov"
    by (simp add: ov_def)
  then have cls: "keys_classified ov"
    by (simp add: overlay_wf_def)
  have dom: "(\<exists>e. entry_at ov t k = Some e) \<longleftrightarrow> (\<exists>e\<in>set es. oe_table_id e = t \<and> for_entry e = k)"
    by (auto simp: ov_def entry_at_fold entries_for_def filter_empty_conv simp flip: not_None_eq)
  have "key_in (inserted_keys ov) t k \<or> key_in (deleted_keys ov) t k \<or> key_in (updated_keys ov) t k
      \<longleftrightarrow> (\<exists>e. entry_at ov t k = Some e)"
    using cls by (auto simp: keys_classified_def is_deleted_def) (metis operation_kind.exhaust)
  with wf cls dom show ?thesis
    unfolding Let_def ov_def [symmetric] by (auto simp: keys_classified_def)
qed

text \<open>
  C13: What a point lookup sees after a sequence of staged entries is the fold of the entries of
  that row alone, in order; and restricting the overlay to one table changes no lookup on it.
\<close>

theorem overlay_lookup_refines_key_fold:
  "latest_visible_entry_for_scope (fold apply_entry es (overlay_new tx)) t u pk =
     fold_key (entries_for t (ScopedPkKey u pk) es) None \<and>
   (case table_overlay (fold apply_entry es (overlay_new tx)) t of
      None \<Rightarrow> fold_key (entries_for t (ScopedPkKey u pk) es) None = None
    | Some ov \<Rightarrow> latest_visible_entry_for_scope ov t u pk =
        fold_key (entries_for t (ScopedPkKey u pk) es) None)"
  using tov.visible_eq [of "fold apply_entry es (overlay_new tx)" t u pk]
  by (simp add: tov.visible_def latest_visible_entry_for_scope_def entry_at_fold eq_commute [of None]
      split: option.splits del: fold_key_eq_None)

end
