(* ===== verification/TxWriteSet.thy ===== *)
theory TxWriteSet
  imports TxOverlay
begin

text \<open>
  Staged mutations (\<open>kalamdb-transactions/src/staged_mutation.rs\<close>) and the write set of a
  transaction with its savepoints (\<open>kalamdb-transactions/src/write_set.rs\<close>). \<open>base\<close> is the size of
  one \<open>ScalarValue\<close> (see \<open>Rows\<close>).
\<close>

section \<open>Staged mutations\<close>

record staged_mutation =
  sm_transaction_id :: transaction_id
  sm_mutation_order :: nat
  sm_table_id :: table_id
  sm_table_type :: table_type
  sm_user_id :: "user_id option"
  sm_operation_kind :: operation_kind
  sm_primary_key :: string
  sm_payload :: row
  sm_tombstone :: bool

definition staged_new ::
    "transaction_id \<Rightarrow> table_id \<Rightarrow> table_type \<Rightarrow> user_id option \<Rightarrow> operation_kind \<Rightarrow> string \<Rightarrow> row \<Rightarrow> bool
      \<Rightarrow> staged_mutation" where
  "staged_new tx t ty u op pk payload tomb =
     \<lparr>sm_transaction_id = tx, sm_mutation_order = 0, sm_table_id = t, sm_table_type = ty,
      sm_user_id = u, sm_operation_kind = op, sm_primary_key = pk, sm_payload = payload,
      sm_tombstone = tomb\<rparr>"

definition approximate_size_bytes :: "nat \<Rightarrow> staged_mutation \<Rightarrow> nat" where
  "approximate_size_bytes base m =
     length (sm_primary_key m) + length (full_name (sm_table_id m)) +
     (case sm_user_id m of Some u \<Rightarrow> length u | None \<Rightarrow> 0) +
     approximate_row_size_bytes base (sm_payload m) + 8"

definition entry_of :: "staged_mutation \<Rightarrow> overlay_entry" where
  "entry_of m =
     \<lparr>oe_transaction_id = sm_transaction_id m, oe_mutation_order = sm_mutation_order m,
      oe_table_id = sm_table_id m, oe_table_type = sm_table_type m, oe_user_id = sm_user_id m,
      oe_operation_kind = sm_operation_kind m, oe_primary_key = sm_primary_key m,
      oe_payload = sm_payload m, oe_tombstone = sm_tombstone m\<rparr>"

datatype staged_insert_build_error = MissingPrimaryKey string

fun build_insert_staged_mutations ::
    "(scalar_value \<Rightarrow> string) \<Rightarrow> transaction_id \<Rightarrow> table_id \<Rightarrow> table_type \<Rightarrow> user_id option \<Rightarrow> string
      \<Rightarrow> row list \<Rightarrow> staged_insert_build_error + staged_mutation list" where
  "build_insert_staged_mutations show_scalar tx t ty u pk [] = Inr []"
| "build_insert_staged_mutations show_scalar tx t ty u pk (r # rs) =
     (case bt_get r pk of
        None \<Rightarrow> Inl (MissingPrimaryKey pk)
      | Some v \<Rightarrow>
          let key = (case try_pk_bucket_key v of Some k \<Rightarrow> pk_display k | None \<Rightarrow> show_scalar v);
              m = staged_new tx t ty u Insert key r False
          in case build_insert_staged_mutations show_scalar tx t ty u pk rs of
               Inl e \<Rightarrow> Inl e
             | Inr ms \<Rightarrow> Inr (m # ms))"

section \<open>The write set\<close>

record savepoint_entry =
  sp_name :: string
  sp_mutation_count :: nat
  sp_next_order :: nat

record write_set =
  ws_transaction_id :: transaction_id
  next_mutation_order :: nat
  ordered_mutations :: "staged_mutation list"
  latest_by_table_key :: "table_id \<rightharpoonup> (scoped_pk_key \<rightharpoonup> nat)"
  overlay_cache :: "table_id \<rightharpoonup> transaction_overlay"
  buffer_bytes :: nat
  savepoint_marks :: "nat list"
  savepoints :: "savepoint_entry list"

definition ws_new :: "transaction_id \<Rightarrow> write_set" where
  "ws_new tx =
     \<lparr>ws_transaction_id = tx, next_mutation_order = 0, ordered_mutations = [],
      latest_by_table_key = Map.empty, overlay_cache = Map.empty, buffer_bytes = 0,
      savepoint_marks = [], savepoints = []\<rparr>"

definition scoped_table_key :: "staged_mutation \<Rightarrow> scoped_pk_key" where
  "scoped_table_key m = ScopedPkKey (sm_user_id m) (sm_primary_key m)"

text \<open>The index updates that staging one mutation and rebuilding after a truncation share.\<close>

definition index_mutation :: "nat \<Rightarrow> nat \<Rightarrow> staged_mutation \<Rightarrow> write_set \<Rightarrow> write_set" where
  "index_mutation i bytes m ws =
     (let t = sm_table_id m in
      ws\<lparr>buffer_bytes := buffer_bytes ws + bytes,
         latest_by_table_key := (latest_by_table_key ws)(t \<mapsto>
           (or_default Map.empty (latest_by_table_key ws) t)(scoped_table_key m \<mapsto> i)),
         overlay_cache := (overlay_cache ws)(t \<mapsto>
           apply_entry (entry_of m)
             (or_default (overlay_new (ws_transaction_id ws)) (overlay_cache ws) t))\<rparr>)"

definition stage_with_estimated_size :: "staged_mutation \<Rightarrow> nat \<Rightarrow> write_set \<Rightarrow> nat \<times> write_set" where
  "stage_with_estimated_size mutation bytes ws =
     (let order = next_mutation_order ws;
          m = mutation\<lparr>sm_mutation_order := order\<rparr>;
          i = length (ordered_mutations ws);
          ws1 = ws\<lparr>next_mutation_order := order + 1,
                   ordered_mutations := ordered_mutations ws @ [m]\<rparr>
      in (order, index_mutation i bytes m ws1))"

definition ws_stage :: "nat \<Rightarrow> staged_mutation \<Rightarrow> write_set \<Rightarrow> nat \<times> write_set" where
  "ws_stage base m ws = stage_with_estimated_size m (approximate_size_bytes base m) ws"

definition affected_rows :: "write_set \<Rightarrow> nat" where
  "affected_rows ws = length (ordered_mutations ws)"

definition latest_mutation_for_scope ::
    "write_set \<Rightarrow> table_id \<Rightarrow> user_id option \<Rightarrow> string \<Rightarrow> staged_mutation option" where
  "latest_mutation_for_scope ws t u pk =
     (case latest_by_table_key ws t of
        None \<Rightarrow> None
      | Some ks \<Rightarrow>
          (case ks (ScopedPkKey u pk) of
             None \<Rightarrow> None
           | Some i \<Rightarrow>
               if i < length (ordered_mutations ws) then Some (ordered_mutations ws ! i) else None))"

definition overlay_for_table :: "write_set \<Rightarrow> table_id \<Rightarrow> transaction_overlay option" where
  "overlay_for_table ws t = overlay_cache ws t"

text \<open>
  \<open>merged_overlay\<close> iterates over the overlay cache and each overlay's entries; the list gives, for
  each cached table in iteration order, the entries in iteration order.
\<close>

definition merged_overlay :: "overlay_entry list list \<Rightarrow> write_set \<Rightarrow> transaction_overlay" where
  "merged_overlay ess ws = fold merge_from ess (overlay_new (ws_transaction_id ws))"

definition savepoint_name :: "string \<Rightarrow> string" where
  "savepoint_name s = to_ascii_lowercase (trim s)"

definition push_savepoint :: "string \<Rightarrow> write_set \<Rightarrow> write_set" where
  "push_savepoint name ws =
     ws\<lparr>savepoint_marks := savepoint_marks ws @ [next_mutation_order ws],
        savepoints := savepoints ws @
          [\<lparr>sp_name = savepoint_name name, sp_mutation_count = length (ordered_mutations ws),
            sp_next_order = next_mutation_order ws\<rparr>]\<rparr>"

definition find_savepoint :: "string \<Rightarrow> write_set \<Rightarrow> nat option" where
  "find_savepoint name ws = rposition (\<lambda>sp. sp_name sp = savepoint_name name) (savepoints ws)"

definition ws_release_savepoint :: "string \<Rightarrow> write_set \<Rightarrow> bool \<times> write_set" where
  "ws_release_savepoint name ws =
     (case find_savepoint name ws of
        None \<Rightarrow> (False, ws)
      | Some pos \<Rightarrow>
          (True, ws\<lparr>savepoints := take pos (savepoints ws),
                    savepoint_marks := take pos (savepoint_marks ws)\<rparr>))"

definition truncate_mutations :: "nat \<Rightarrow> nat \<Rightarrow> nat \<Rightarrow> write_set \<Rightarrow> write_set" where
  "truncate_mutations base target_len order ws =
     (let ms = take target_len (ordered_mutations ws) in
      fold (\<lambda>(i, m). index_mutation i (approximate_size_bytes base m) m) (List.enumerate 0 ms)
        (ws\<lparr>ordered_mutations := ms, next_mutation_order := order,
            latest_by_table_key := Map.empty, overlay_cache := Map.empty, buffer_bytes := 0\<rparr>))"

definition ws_rollback_to_savepoint :: "nat \<Rightarrow> string \<Rightarrow> write_set \<Rightarrow> (nat \<times> nat) option \<times> write_set" where
  "ws_rollback_to_savepoint base name ws =
     (case find_savepoint name ws of
        None \<Rightarrow> (None, ws)
      | Some pos \<Rightarrow>
          let target = savepoints ws ! pos;
              ws1 = ws\<lparr>savepoints := take (pos + 1) (savepoints ws),
                       savepoint_marks := take (pos + 1) (savepoint_marks ws)\<rparr>;
              ws2 = truncate_mutations base (sp_mutation_count target) (sp_next_order target) ws1
          in (Some (length (ordered_mutations ws2), buffer_bytes ws2), ws2))"

section \<open>The indexes as functions of the mutation list\<close>

definition touches :: "table_id \<Rightarrow> staged_mutation list \<Rightarrow> bool" where
  "touches t ms \<longleftrightarrow> (\<exists>m\<in>set ms. sm_table_id m = t)"

definition latest_of :: "staged_mutation list \<Rightarrow> table_id \<rightharpoonup> (scoped_pk_key \<rightharpoonup> nat)" where
  "latest_of ms t =
     (if touches t ms
      then Some (\<lambda>k. rposition (\<lambda>m. sm_table_id m = t \<and> scoped_table_key m = k) ms)
      else None)"

definition table_entries_of :: "table_id \<Rightarrow> staged_mutation list \<Rightarrow> overlay_entry list" where
  "table_entries_of t ms = map entry_of (filter (\<lambda>m. sm_table_id m = t) ms)"

definition cache_of :: "transaction_id \<Rightarrow> staged_mutation list \<Rightarrow> table_id \<rightharpoonup> transaction_overlay" where
  "cache_of tx ms t =
     (if touches t ms then Some (fold apply_entry (table_entries_of t ms) (overlay_new tx)) else None)"

definition bytes_of :: "nat \<Rightarrow> staged_mutation list \<Rightarrow> nat" where
  "bytes_of base ms = sum_list (map (approximate_size_bytes base) ms)"

lemma touches_simps [simp]:
  "\<not> touches t []"
  "touches t (ms @ [m]) \<longleftrightarrow> touches t ms \<or> sm_table_id m = t"
  by (auto simp: touches_def)

lemma rposition_untouched: "\<not> touches t ms \<Longrightarrow> rposition (\<lambda>m. sm_table_id m = t \<and> P m) ms = None"
  by (auto simp: rposition_None touches_def)

lemma latest_of_Nil [simp]: "latest_of [] = Map.empty"
  by (rule ext) (simp add: latest_of_def)

lemma latest_of_snoc:
  "latest_of (ms @ [m]) =
     (latest_of ms)(sm_table_id m \<mapsto>
       (or_default Map.empty (latest_of ms) (sm_table_id m))(scoped_table_key m \<mapsto> length ms))"
proof (rule ext)
  fix t
  show "latest_of (ms @ [m]) t =
    ((latest_of ms)(sm_table_id m \<mapsto>
       (or_default Map.empty (latest_of ms) (sm_table_id m))(scoped_table_key m \<mapsto> length ms))) t"
  proof (cases "sm_table_id m = t")
    case True
    then show ?thesis
      by (cases "touches t ms")
        (auto simp: latest_of_def or_default_def rposition_append rposition_untouched fun_eq_iff)
  next
    case False
    then show ?thesis
      by (simp add: latest_of_def rposition_append)
  qed
qed

lemma cache_of_Nil [simp]: "cache_of tx [] = Map.empty"
  by (rule ext) (simp add: cache_of_def)

lemma table_entries_untouched: "\<not> touches t ms \<Longrightarrow> table_entries_of t ms = []"
  by (simp add: table_entries_of_def touches_def filter_empty_conv)

lemma cache_of_snoc:
  "cache_of tx (ms @ [m]) =
     (cache_of tx ms)(sm_table_id m \<mapsto>
       apply_entry (entry_of m) (or_default (overlay_new tx) (cache_of tx ms) (sm_table_id m)))"
proof (rule ext)
  fix t
  show "cache_of tx (ms @ [m]) t =
    ((cache_of tx ms)(sm_table_id m \<mapsto>
       apply_entry (entry_of m) (or_default (overlay_new tx) (cache_of tx ms) (sm_table_id m)))) t"
  proof (cases "sm_table_id m = t")
    case True
    then show ?thesis
      by (cases "touches t ms")
        (use table_entries_untouched [of t ms] in
          \<open>auto simp: cache_of_def or_default_def table_entries_of_def\<close>)
  next
    case False
    then show ?thesis
      by (simp add: cache_of_def table_entries_of_def)
  qed
qed

lemma bytes_of_snoc [simp]: "bytes_of base (ms @ [m]) = bytes_of base ms + approximate_size_bytes base m"
  by (simp add: bytes_of_def)

lemma approximate_size_order [simp]:
  "approximate_size_bytes base (m\<lparr>sm_mutation_order := i\<rparr>) = approximate_size_bytes base m"
  by (simp add: approximate_size_bytes_def)

section \<open>Invariant\<close>

definition savepoints_wf :: "write_set \<Rightarrow> bool" where
  "savepoints_wf ws \<longleftrightarrow>
     savepoint_marks ws = map sp_next_order (savepoints ws) \<and>
     (\<forall>sp\<in>set (savepoints ws). sp_next_order sp = sp_mutation_count sp \<and>
        sp_mutation_count sp \<le> length (ordered_mutations ws)) \<and>
     sorted (map sp_mutation_count (savepoints ws))"

definition ws_wf :: "nat \<Rightarrow> write_set \<Rightarrow> bool" where
  "ws_wf base ws \<longleftrightarrow>
     next_mutation_order ws = length (ordered_mutations ws) \<and>
     map sm_mutation_order (ordered_mutations ws) = [0..<length (ordered_mutations ws)] \<and>
     latest_by_table_key ws = latest_of (ordered_mutations ws) \<and>
     overlay_cache ws = cache_of (ws_transaction_id ws) (ordered_mutations ws) \<and>
     buffer_bytes ws = bytes_of base (ordered_mutations ws) \<and>
     savepoints_wf ws"

lemma ws_new_simps [simp]:
  "ws_transaction_id (ws_new tx) = tx" "next_mutation_order (ws_new tx) = 0"
  "ordered_mutations (ws_new tx) = []" "latest_by_table_key (ws_new tx) = Map.empty"
  "overlay_cache (ws_new tx) = Map.empty" "buffer_bytes (ws_new tx) = 0"
  "savepoint_marks (ws_new tx) = []" "savepoints (ws_new tx) = []"
  by (simp_all add: ws_new_def)

lemma ws_wf_new [simp]: "ws_wf base (ws_new tx)"
  by (simp add: ws_wf_def ws_new_def savepoints_wf_def bytes_of_def)

lemma ws_wf_stage:
  assumes "ws_wf base ws"
  shows "ws_wf base (snd (ws_stage base m ws))"
  using assms
  by (auto simp: ws_wf_def ws_stage_def stage_with_estimated_size_def index_mutation_def Let_def
      latest_of_snoc cache_of_snoc savepoints_wf_def intro: le_SucI)

lemma ws_wf_push:
  assumes "ws_wf base ws"
  shows "ws_wf base (push_savepoint n ws)"
  using assms
  by (auto simp: ws_wf_def push_savepoint_def savepoints_wf_def sorted_append)

lemma savepoints_wf_take:
  assumes "savepoints_wf ws"
  shows "savepoints_wf (ws\<lparr>savepoints := take n (savepoints ws), savepoint_marks := take n (savepoint_marks ws)\<rparr>)"
  using assms by (auto simp: savepoints_wf_def take_map sorted_wrt_take dest: in_set_takeD
      simp flip: take_map)

lemma ws_wf_release:
  assumes "ws_wf base ws"
  shows "ws_wf base (snd (ws_release_savepoint n ws))"
  using assms savepoints_wf_take [of ws]
  by (auto simp: ws_wf_def ws_release_savepoint_def split: option.splits)

text \<open>Rebuilding after a truncation computes the indexes of the remaining mutations.\<close>

lemma reindex_fold:
  "fold (\<lambda>(i, m). index_mutation i (approximate_size_bytes base m) m) (List.enumerate 0 ms)
     (ws\<lparr>latest_by_table_key := Map.empty, overlay_cache := Map.empty, buffer_bytes := 0\<rparr>) =
   ws\<lparr>latest_by_table_key := latest_of ms, overlay_cache := cache_of (ws_transaction_id ws) ms,
      buffer_bytes := bytes_of base ms\<rparr>"
proof (induction ms rule: rev_induct)
  case Nil
  then show ?case
    by (simp add: bytes_of_def)
next
  case (snoc m ms)
  let ?step = "\<lambda>(i, m). index_mutation i (approximate_size_bytes base m) m"
  let ?ws0 = "ws\<lparr>latest_by_table_key := Map.empty, overlay_cache := Map.empty, buffer_bytes := 0\<rparr>"
  have "fold ?step (List.enumerate 0 (ms @ [m])) ?ws0 =
      index_mutation (length ms) (approximate_size_bytes base m) m (fold ?step (List.enumerate 0 ms) ?ws0)"
    by (simp add: enumerate_append_eq)
  also have "\<dots> = ws\<lparr>latest_by_table_key := latest_of (ms @ [m]),
      overlay_cache := cache_of (ws_transaction_id ws) (ms @ [m]),
      buffer_bytes := bytes_of base (ms @ [m])\<rparr>"
    unfolding snoc latest_of_snoc cache_of_snoc by (intro write_set.equality)
      (simp_all add: index_mutation_def Let_def)
  finally show ?case .
qed

lemma truncate_mutations_eq:
  "truncate_mutations base n order ws =
     ws\<lparr>ordered_mutations := take n (ordered_mutations ws), next_mutation_order := order,
        latest_by_table_key := latest_of (take n (ordered_mutations ws)),
        overlay_cache := cache_of (ws_transaction_id ws) (take n (ordered_mutations ws)),
        buffer_bytes := bytes_of base (take n (ordered_mutations ws))\<rparr>"
  using reindex_fold [of base "take n (ordered_mutations ws)"
      "ws\<lparr>ordered_mutations := take n (ordered_mutations ws), next_mutation_order := order\<rparr>"]
  by (simp add: truncate_mutations_def Let_def)

lemma ws_wf_truncate:
  assumes "ws_wf base ws" "n \<le> length (ordered_mutations ws)"
    and "\<forall>sp\<in>set (savepoints ws). sp_mutation_count sp \<le> n"
  shows "ws_wf base (truncate_mutations base n n ws)"
  using assms
  by (auto simp: ws_wf_def truncate_mutations_eq savepoints_wf_def min_def simp flip: take_map)

lemma find_savepoint_Some:
  assumes "find_savepoint name ws = Some pos"
  shows "pos < length (savepoints ws)" "sp_name (savepoints ws ! pos) = savepoint_name name"
  using rposition_Some [of _ "savepoints ws" pos] assms by (auto simp: find_savepoint_def)

lemma savepoint_counts_sorted:
  assumes "savepoints_wf ws" "i \<le> j" "j < length (savepoints ws)"
  shows "sp_mutation_count (savepoints ws ! i) \<le> sp_mutation_count (savepoints ws ! j)"
  using assms sorted_nth_mono [of "map sp_mutation_count (savepoints ws)" i j]
  by (simp add: savepoints_wf_def)

lemma ws_wf_rollback:
  assumes "ws_wf base ws"
  shows "ws_wf base (snd (ws_rollback_to_savepoint base name ws))"
proof (cases "find_savepoint name ws")
  case None
  with assms show ?thesis
    by (simp add: ws_rollback_to_savepoint_def)
next
  case (Some pos)
  let ?ws1 = "ws\<lparr>savepoints := take (pos + 1) (savepoints ws), savepoint_marks := take (pos + 1) (savepoint_marks ws)\<rparr>"
  let ?sp = "savepoints ws ! pos"
  have pos: "pos < length (savepoints ws)"
    using Some by (rule find_savepoint_Some)
  have sps: "savepoints_wf ws"
    using assms by (simp add: ws_wf_def)
  have "ws_wf base ?ws1"
    using assms savepoints_wf_take [OF sps, of "pos + 1"] by (simp add: ws_wf_def)
  moreover have sp: "sp_next_order ?sp = sp_mutation_count ?sp"
    "sp_mutation_count ?sp \<le> length (ordered_mutations ws)"
    using sps pos by (auto simp: savepoints_wf_def)
  moreover have "\<forall>sp\<in>set (take (pos + 1) (savepoints ws)). sp_mutation_count sp \<le> sp_mutation_count ?sp"
    using savepoint_counts_sorted [OF sps _ pos] pos by (auto simp: in_set_conv_nth)
  ultimately show ?thesis
    using Some ws_wf_truncate [of base ?ws1 "sp_mutation_count ?sp"]
    by (simp add: ws_rollback_to_savepoint_def Let_def)
qed

section \<open>Sequences of write-set operations\<close>

datatype ws_op = StageOp staged_mutation | PushOp string | ReleaseOp string | RollbackOp string

fun run_op :: "nat \<Rightarrow> ws_op \<Rightarrow> write_set \<Rightarrow> write_set" where
  "run_op base (StageOp m) ws = snd (ws_stage base m ws)"
| "run_op base (PushOp n) ws = push_savepoint n ws"
| "run_op base (ReleaseOp n) ws = snd (ws_release_savepoint n ws)"
| "run_op base (RollbackOp n) ws = snd (ws_rollback_to_savepoint base n ws)"

definition run_ops :: "nat \<Rightarrow> ws_op list \<Rightarrow> write_set \<Rightarrow> write_set" where
  "run_ops base ops ws = fold (run_op base) ops ws"

text \<open>
  The operations leave the savepoint at position \<open>p\<close>, named \<open>name\<close>, in place: a release or
  rollback only reaches savepoints above it, and no inner savepoint reuses the name.
\<close>

fun stays_above :: "nat \<Rightarrow> nat \<Rightarrow> string \<Rightarrow> ws_op list \<Rightarrow> write_set \<Rightarrow> bool" where
  "stays_above base p name [] ws = True"
| "stays_above base p name (x # xs) ws =
     ((case x of
         StageOp m \<Rightarrow> True
       | PushOp n \<Rightarrow> savepoint_name n \<noteq> savepoint_name name
       | ReleaseOp n \<Rightarrow> (case find_savepoint n ws of Some i \<Rightarrow> p < i | None \<Rightarrow> True)
       | RollbackOp n \<Rightarrow> (case find_savepoint n ws of Some i \<Rightarrow> p < i | None \<Rightarrow> True)) \<and>
      stays_above base p name xs (run_op base x ws))"

lemma run_op_wf: "ws_wf base ws \<Longrightarrow> ws_wf base (run_op base x ws)"
  by (cases x) (simp_all add: ws_wf_stage ws_wf_push ws_wf_release ws_wf_rollback)

lemma run_ops_wf: "ws_wf base ws \<Longrightarrow> ws_wf base (run_ops base ops ws)"
  by (induction ops arbitrary: ws) (simp_all add: run_ops_def run_op_wf)

text \<open>What the savepoint at position \<open>p\<close> protects in a later state \<open>ws'\<close>.\<close>

definition protects :: "nat \<Rightarrow> string \<Rightarrow> write_set \<Rightarrow> write_set \<Rightarrow> bool" where
  "protects p name ws ws' \<longleftrightarrow>
     ws_transaction_id ws' = ws_transaction_id ws \<and>
     length (savepoints ws) = Suc p \<and>
     (\<exists>ms. ordered_mutations ws' = ordered_mutations ws @ ms) \<and>
     (\<exists>sps. savepoints ws' = savepoints ws @ sps \<and>
        (\<forall>sp\<in>set sps. sp_name sp \<noteq> savepoint_name name \<and>
           length (ordered_mutations ws) \<le> sp_mutation_count sp))"

lemma protects_stage:
  "protects p name ws ws' \<Longrightarrow> protects p name ws (snd (ws_stage base m ws'))"
  by (auto simp: protects_def ws_stage_def stage_with_estimated_size_def index_mutation_def Let_def)

lemma protects_push:
  "protects p name ws ws' \<Longrightarrow> savepoint_name n \<noteq> savepoint_name name \<Longrightarrow>
    protects p name ws (push_savepoint n ws')"
  by (auto simp: protects_def push_savepoint_def)

lemma protects_release:
  assumes "protects p name ws ws'"
    and "\<forall>i. find_savepoint n ws' = Some i \<longrightarrow> p < i"
  shows "protects p name ws (snd (ws_release_savepoint n ws'))"
  using assms
  by (auto simp: protects_def ws_release_savepoint_def take_append split: option.splits)
    (meson in_set_takeD)+

lemma protects_rollback:
  assumes prot: "protects p name ws ws'"
    and above: "\<forall>i. find_savepoint n ws' = Some i \<longrightarrow> p < i"
  shows "protects p name ws (snd (ws_rollback_to_savepoint base n ws'))"
proof (cases "find_savepoint n ws'")
  case None
  with prot show ?thesis
    by (simp add: ws_rollback_to_savepoint_def)
next
  case (Some i)
  obtain ms sps where ms: "ordered_mutations ws' = ordered_mutations ws @ ms"
    and sps: "savepoints ws' = savepoints ws @ sps"
    and inner: "\<forall>sp\<in>set sps. sp_name sp \<noteq> savepoint_name name \<and>
        length (ordered_mutations ws) \<le> sp_mutation_count sp"
    and p: "length (savepoints ws) = Suc p" "ws_transaction_id ws' = ws_transaction_id ws"
    using prot by (auto simp: protects_def)
  have i: "p < i" "i < length (savepoints ws')"
    using above Some find_savepoint_Some(1) [OF Some] by auto
  then have "savepoints ws' ! i \<in> set sps"
    using sps p by (auto simp: nth_append)
  then have "length (ordered_mutations ws) \<le> sp_mutation_count (savepoints ws' ! i)"
    using inner by blast
  with Some i ms sps p inner show ?thesis
    by (auto simp: protects_def ws_rollback_to_savepoint_def Let_def truncate_mutations_eq take_append
        dest: in_set_takeD)
qed

lemma protects_run_ops:
  "protects p name ws ws' \<Longrightarrow> stays_above base p name ops ws' \<Longrightarrow> protects p name ws (run_ops base ops ws')"
proof (induction ops arbitrary: ws')
  case Nil
  then show ?case
    by (simp add: run_ops_def)
next
  case (Cons x xs)
  have "protects p name ws (run_op base x ws')"
    using Cons.prems
    by (cases x)
      (auto intro: protects_stage protects_push protects_release protects_rollback split: option.splits)
  with Cons show ?case
    by (simp add: run_ops_def)
qed

lemma find_savepoint_protected:
  assumes "protects p name (push_savepoint name ws) ws'"
  shows "find_savepoint name ws' = Some p"
proof -
  obtain sps where sps: "savepoints ws' = savepoints (push_savepoint name ws) @ sps"
    and inner: "\<forall>sp\<in>set sps. sp_name sp \<noteq> savepoint_name name"
    and p: "length (savepoints (push_savepoint name ws)) = Suc p"
    using assms by (auto simp: protects_def)
  have "rposition (\<lambda>sp. sp_name sp = savepoint_name name) sps = None"
    using inner by (simp add: rposition_None)
  with sps p show ?thesis
    by (simp add: find_savepoint_def rposition_append push_savepoint_def)
qed

text \<open>A well-formed write set is determined by its mutations, savepoints and transaction.\<close>

lemma ws_wf_determined:
  assumes "ws_wf base a" "ws_wf base b" "ordered_mutations a = ordered_mutations b"
    "savepoints a = savepoints b" "ws_transaction_id a = ws_transaction_id b"
  shows "a = b"
  using assms by (intro write_set.equality) (auto simp: ws_wf_def savepoints_wf_def)

lemma rollback_protected:
  assumes wf: "ws_wf base ws" and wf': "ws_wf base ws'"
    and prot: "protects (length (savepoints ws)) name (push_savepoint name ws) ws'"
  shows "snd (ws_rollback_to_savepoint base name ws') = push_savepoint name ws"
proof (rule ws_wf_determined [of base])
  let ?ws1 = "push_savepoint name ws" and ?r = "snd (ws_rollback_to_savepoint base name ws')"
  show "ws_wf base ?r" "ws_wf base ?ws1"
    using wf wf' by (simp_all add: ws_wf_rollback ws_wf_push)
  have found: "find_savepoint name ws' = Some (length (savepoints ws))"
    using prot by (rule find_savepoint_protected)
  show "ordered_mutations ?r = ordered_mutations ?ws1" "savepoints ?r = savepoints ?ws1"
    "ws_transaction_id ?r = ws_transaction_id ?ws1"
    using found prot
    by (auto simp: ws_rollback_to_savepoint_def Let_def truncate_mutations_eq protects_def
        push_savepoint_def nth_append)
qed

section \<open>Reading the write set\<close>

lemma rposition_find_rev:
  "(case rposition P xs of None \<Rightarrow> None | Some i \<Rightarrow> Some (xs ! i)) = find P (rev xs)"
proof (induction xs rule: rev_induct)
  case Nil
  then show ?case by simp
next
  case (snoc x xs)
  show ?case
  proof (cases "P x")
    case False
    then have "rposition P (xs @ [x]) = rposition P xs"
      by (simp add: rposition_append split: option.splits)
    with False snoc show ?thesis
      by (auto simp: nth_append split: option.splits dest: rposition_Some)
  qed (simp add: rposition_append)
qed

lemma cached_overlay_wf: "cache_of tx ms t = Some ov \<Longrightarrow> overlay_wf ov"
  by (auto simp: cache_of_def split: if_splits)

lemma cached_overlay_other_table:
  assumes "cache_of tx ms t' = Some ov" "t \<noteq> t'"
  shows "entry_at ov t k = None"
  using assms
  by (auto simp: cache_of_def entry_at_fold entries_for_def table_entries_of_def filter_empty_conv entry_of_def
      split: if_splits)

text \<open>An iteration order of the overlay cache: the tables once each, and each table's entries once each.\<close>

definition merge_order :: "overlay_entry list list \<Rightarrow> write_set \<Rightarrow> bool" where
  "merge_order ess ws \<longleftrightarrow>
     (\<exists>ts. distinct ts \<and> set ts = dom (overlay_cache ws) \<and>
        list_all2 (\<lambda>t es. enumerates es (the (overlay_cache ws t))) ts ess)"

lemma entry_at_merge_tables:
  assumes "list_all2 (\<lambda>t es. enumerates es (the (cache_of tx ms t))) ts ess"
    and "distinct ts" "set ts \<subseteq> dom (cache_of tx ms)"
  shows "entry_at (fold merge_from ess ov) t k =
    (if t \<in> set ts
     then (case entry_at (the (cache_of tx ms t)) t k of
             None \<Rightarrow> entry_at ov t k | Some e \<Rightarrow> Some (merge_entry (entry_at ov t k) e))
     else entry_at ov t k)"
  using assms
proof (induction arbitrary: ov rule: list_all2_induct)
  case Nil
  then show ?case by simp
next
  case (Cons t' ts es ess)
  obtain ov' where ov': "cache_of tx ms t' = Some ov'"
    using Cons.prems by auto
  have wf: "overlay_wf ov'"
    using ov' by (rule cached_overlay_wf)
  have "entry_at (merge_from es ov) t k =
      (case entry_at ov' t k of None \<Rightarrow> entry_at ov t k | Some e \<Rightarrow> Some (merge_entry (entry_at ov t k) e))"
    using Cons.hyps(1) ov' wf by (intro entry_at_merge_from) (auto simp: overlay_wf_def)
  moreover have "t \<noteq> t' \<Longrightarrow> entry_at ov' t k = None"
    by (rule cached_overlay_other_table [OF ov'])
  ultimately show ?case
    using Cons.IH [of "merge_from es ov"] Cons.prems ov' by (cases "t = t'") (auto split: option.splits)
qed

lemma merged_overlay_same_view:
  assumes "ws_wf base ws" "merge_order ess ws" "overlay_for_table ws t = Some ov"
  shows "same_table_view t ov (merged_overlay ess ws)"
proof (rule same_table_view_classified)
  obtain ts where ts: "distinct ts" "set ts = dom (overlay_cache ws)"
    "list_all2 (\<lambda>t es. enumerates es (the (overlay_cache ws t))) ts ess"
    using assms(2) by (auto simp: merge_order_def)
  have cache: "overlay_cache ws = cache_of (ws_transaction_id ws) (ordered_mutations ws)"
    using assms(1) by (simp add: ws_wf_def)
  show "keys_classified ov"
    using assms(3) cache cached_overlay_wf by (auto simp: overlay_for_table_def overlay_wf_def)
  have "overlay_wf (fold merge_from ess o')" if "overlay_wf o'" for o'
    using that by (induction ess arbitrary: o') (simp_all add: merge_from_def)
  then show "keys_classified (merged_overlay ess ws)"
    by (simp add: merged_overlay_def overlay_wf_def [THEN iffD1])
  show "\<forall>k. entry_at ov t k = entry_at (merged_overlay ess ws) t k"
  proof
    fix k
    have "t \<in> set ts" "the (overlay_cache ws t) = ov"
      using assms(3) ts(2) by (auto simp: overlay_for_table_def)
    then show "entry_at ov t k = entry_at (merged_overlay ess ws) t k"
      using entry_at_merge_tables [OF ts(3) [unfolded cache] ts(1)] ts(2) cache
      by (simp add: merged_overlay_def split: option.splits)
  qed
qed

lemma merged_overlay_no_table:
  assumes "ws_wf base ws" "merge_order ess ws" "overlay_for_table ws t = None"
  shows "entry_at (merged_overlay ess ws) t k = None"
proof -
  obtain ts where ts: "distinct ts" "set ts = dom (overlay_cache ws)"
    "list_all2 (\<lambda>t es. enumerates es (the (overlay_cache ws t))) ts ess"
    using assms(2) by (auto simp: merge_order_def)
  have cache: "overlay_cache ws = cache_of (ws_transaction_id ws) (ordered_mutations ws)"
    using assms(1) by (simp add: ws_wf_def)
  have "t \<notin> set ts"
    using assms(3) ts(2) by (auto simp: overlay_for_table_def)
  then show ?thesis
    using entry_at_merge_tables [OF ts(3) [unfolded cache] ts(1)] ts(2) cache
    by (simp add: merged_overlay_def)
qed

interpretation wsv: overlay_view
  "\<lambda>(ess, ws). ws_wf base ws \<and> merge_order ess ws"
  "\<lambda>(ess, ws). merged_overlay ess ws" "\<lambda>(ess, ws). overlay_for_table ws"
  for base
  by unfold_locales (auto intro: merged_overlay_same_view merged_overlay_no_table)

section \<open>Properties\<close>

text \<open>
  C9: Whatever sequence of staging, savepoint, release and rollback operations runs on a new write
  set, its indexes stay those of its mutation list: mutation orders are the positions, the
  latest-by-key index, the cached overlays and the byte count are exactly those of the staged
  mutations, and the savepoint stack is ordered and within the list.
\<close>

theorem write_set_invariant: "ws_wf base (run_ops base ops (ws_new tx))"
  by (simp add: run_ops_wf)

text \<open>
  C10: Rolling back to a savepoint restores exactly the write set that existed right after the
  savepoint was taken (mutations, indexes, overlays, byte count and savepoint stack), after any
  sequence of operations that leaves the savepoint itself in place, and reports the restored
  number of mutations and bytes.
\<close>

theorem rollback_to_savepoint_restores:
  assumes "ws_wf base ws"
    and "stays_above base (length (savepoints ws)) name ops (push_savepoint name ws)"
  shows "ws_rollback_to_savepoint base name (run_ops base ops (push_savepoint name ws)) =
    (Some (length (ordered_mutations ws), buffer_bytes ws), push_savepoint name ws)"
proof -
  let ?ws1 = "push_savepoint name ws" and ?ws2 = "run_ops base ops (push_savepoint name ws)"
  have "protects (length (savepoints ws)) name ?ws1 ?ws1"
    by (simp add: protects_def) (simp add: push_savepoint_def)
  then have prot: "protects (length (savepoints ws)) name ?ws1 ?ws2"
    using assms(2) by (rule protects_run_ops)
  have eq: "snd (ws_rollback_to_savepoint base name ?ws2) = ?ws1"
    using rollback_protected [OF assms(1) _ prot] assms(1) by (simp add: run_ops_wf ws_wf_push)
  have "find_savepoint name ?ws2 = Some (length (savepoints ws))"
    using prot by (rule find_savepoint_protected)
  with eq show ?thesis
    by (auto simp: ws_rollback_to_savepoint_def Let_def) (simp_all add: push_savepoint_def)
qed

definition example_mutation :: "string \<Rightarrow> staged_mutation" where
  "example_mutation pk =
     staged_new ''tx'' (TableId ''app'' ''notes'') User (Some ''alice'') Insert pk
       [(''id'', Utf8V (Some pk))] False"

lemma savepoint_name_example [simp]:
  "savepoint_name ''s1'' = ''s1''" "savepoint_name ''s2'' = ''s2''"
  by (simp_all add: savepoint_name_def trim_def whitespace_seqs_def to_ascii_lowercase_def
      strip_prefix_def byte_of_def)

lemma stays_above_example:
  "stays_above 64 (length (savepoints (ws_new ''tx''))) ''s1'' [StageOp (example_mutation ''a''), PushOp ''s2'',
     StageOp (example_mutation ''b''), RollbackOp ''s2''] (push_savepoint ''s1'' (ws_new ''tx''))"
  by (simp add: find_savepoint_def push_savepoint_def ws_stage_def stage_with_estimated_size_def
      index_mutation_def Let_def ws_new_def)

theorem rollback_to_savepoint_restores_witness:
  "ws_rollback_to_savepoint 64 ''s1''
     (run_ops 64 [StageOp (example_mutation ''a''), PushOp ''s2'', StageOp (example_mutation ''b''),
        RollbackOp ''s2''] (push_savepoint ''s1'' (ws_new ''tx''))) =
   (Some (0, 0), push_savepoint ''s1'' (ws_new ''tx''))"
  using rollback_to_savepoint_restores [OF ws_wf_new stays_above_example] by simp





end
