(* ===== verification/TxOwner.thy ===== *)
theory TxOwner
  imports TextNum
begin

text \<open>
  Execution owners and their session-id syntax (\<open>kalamdb-transactions/src/owner.rs\<close>), with the
  lifecycle states and origins of \<open>kalamdb-commons/src/models/transaction.rs\<close>. \<open>Uuid::parse_str\<close>
  (the uuid crate) is the argument \<open>parse_uuid\<close>.
\<close>

section \<open>Lifecycle states\<close>

datatype transaction_state =
  OpenRead | OpenWrite | Committing | Committed | RollingBack | RolledBack | TimedOut | Aborted

fun lifecycle_str :: "transaction_state \<Rightarrow> string" where
  "lifecycle_str OpenRead = ''open_read''"
| "lifecycle_str OpenWrite = ''open_write''"
| "lifecycle_str Committing = ''committing''"
| "lifecycle_str Committed = ''committed''"
| "lifecycle_str RollingBack = ''rolling_back''"
| "lifecycle_str RolledBack = ''rolled_back''"
| "lifecycle_str TimedOut = ''timed_out''"
| "lifecycle_str Aborted = ''aborted''"

definition state_as_str :: "transaction_state \<Rightarrow> string" where
  "state_as_str st = (if st = OpenRead \<or> st = OpenWrite then ''active'' else lifecycle_str st)"

fun is_open :: "transaction_state \<Rightarrow> bool" where
  "is_open OpenRead = True"
| "is_open OpenWrite = True"
| "is_open _ = False"

fun is_terminal :: "transaction_state \<Rightarrow> bool" where
  "is_terminal Committed = True"
| "is_terminal RolledBack = True"
| "is_terminal TimedOut = True"
| "is_terminal Aborted = True"
| "is_terminal _ = False"

datatype transaction_origin = PgRpc | PgWire | SqlBatch | Internal

fun origin_as_str :: "transaction_origin \<Rightarrow> string" where
  "origin_as_str PgRpc = ''PgRpc''"
| "origin_as_str PgWire = ''PgWire''"
| "origin_as_str SqlBatch = ''SqlBatch''"
| "origin_as_str Internal = ''Internal''"

section \<open>Owner keys\<close>

datatype execution_owner_key =
    PgSession (backend_pid: nat) (config_hash: nat)
  | BackendSessionUuid nat
  | SqlRequest nat
  | InternalOwner nat

datatype owner_parse_error =
    ExpectedPgOrUuid string
  | MissingBackendPid string
  | BackendPidNotNumeric string
  | ConfigHashNotHex string

fun parse_dec_loop :: "string \<Rightarrow> nat \<Rightarrow> string \<Rightarrow> owner_parse_error + nat" where
  "parse_dec_loop sid acc [] = Inr acc"
| "parse_dec_loop sid acc (c # cs) =
     (if \<not> is_digit c then Inl (BackendPidNotNumeric sid)
      else if u32_max < acc * 10 then Inl (BackendPidNotNumeric sid)
      else if u32_max < acc * 10 + (byte_of c - 48) then Inl (BackendPidNotNumeric sid)
      else parse_dec_loop sid (acc * 10 + (byte_of c - 48)) cs)"

definition parse_u32_decimal :: "string \<Rightarrow> string \<Rightarrow> owner_parse_error + nat" where
  "parse_u32_decimal v sid = (if v = [] then Inl (MissingBackendPid sid) else parse_dec_loop sid 0 v)"

definition hex_digit :: "char \<Rightarrow> nat option" where
  "hex_digit c =
     (let b = byte_of c in
      if 48 \<le> b \<and> b \<le> 57 then Some (b - 48)
      else if 97 \<le> b \<and> b \<le> 102 then Some (b - 97 + 10)
      else if 65 \<le> b \<and> b \<le> 70 then Some (b - 65 + 10)
      else None)"

fun parse_hex_loop :: "string \<Rightarrow> nat \<Rightarrow> string \<Rightarrow> owner_parse_error + nat" where
  "parse_hex_loop sid acc [] = Inr acc"
| "parse_hex_loop sid acc (c # cs) =
     (case hex_digit c of
        None \<Rightarrow> Inl (ConfigHashNotHex sid)
      | Some d \<Rightarrow>
          if u64_max < acc * 16 then Inl (ConfigHashNotHex sid)
          else if u64_max < acc * 16 + d then Inl (ConfigHashNotHex sid)
          else parse_hex_loop sid (acc * 16 + d) cs)"

definition parse_u64_hex :: "string \<Rightarrow> string \<Rightarrow> owner_parse_error + nat" where
  "parse_u64_hex v sid = (if v = [] then Inr 0 else parse_hex_loop sid 0 v)"

text \<open>\<open>position\<close> of the first separator, and the text before and after it.\<close>

fun split_dash :: "string \<Rightarrow> (string \<times> string) option" where
  "split_dash [] = None"
| "split_dash (c # cs) =
     (if c = CHR ''-'' then Some ([], cs)
      else case split_dash cs of None \<Rightarrow> None | Some (a, b) \<Rightarrow> Some (c # a, b))"

definition from_pg_session_id ::
    "(string \<Rightarrow> nat option) \<Rightarrow> string \<Rightarrow> owner_parse_error + execution_owner_key" where
  "from_pg_session_id parse_uuid sid =
     (case strip_prefix ''pg-'' sid of
        None \<Rightarrow>
          (case parse_uuid sid of
             Some u \<Rightarrow> Inr (BackendSessionUuid u) | None \<Rightarrow> Inl (ExpectedPgOrUuid sid))
      | Some rest \<Rightarrow>
          (case split_dash rest of
             None \<Rightarrow>
               (case parse_u32_decimal rest sid of
                  Inl e \<Rightarrow> Inl e | Inr pid \<Rightarrow> Inr (PgSession pid 0))
           | Some (p, h) \<Rightarrow>
               (case parse_u32_decimal p sid of
                  Inl e \<Rightarrow> Inl e
                | Inr pid \<Rightarrow>
                    (case parse_u64_hex h sid of
                       Inl e \<Rightarrow> Inl e | Inr hash \<Rightarrow> Inr (PgSession pid hash)))))"

section \<open>Lemmas\<close>

fun show_hex :: "nat \<Rightarrow> string" where
  "show_hex n =
     (if n < 16 then [char_of (if n < 10 then 48 + n else 87 + n)]
      else show_hex (n div 16) @ show_hex (n mod 16))"

declare show_hex.simps [simp del]

lemma hex_digit_char [simp]:
  "d < 16 \<Longrightarrow> hex_digit (char_of (if d < 10 then 48 + d else 87 + d)) = Some d"
  by (simp add: hex_digit_def byte_of_def Let_def)

lemma parse_hex_loop_append:
  "parse_hex_loop sid acc (xs @ ys) =
     (case parse_hex_loop sid acc xs of Inl e \<Rightarrow> Inl e | Inr a \<Rightarrow> parse_hex_loop sid a ys)"
  by (induction xs arbitrary: acc) (auto split: option.splits sum.splits)

lemma parse_hex_loop_le: "parse_hex_loop sid acc s = Inr n \<Longrightarrow> acc \<le> u64_max \<Longrightarrow> n \<le> u64_max"
  by (induction sid acc s rule: parse_hex_loop.induct) (auto split: option.splits if_splits)

lemma parse_dec_loop_le: "parse_dec_loop sid acc s = Inr n \<Longrightarrow> acc \<le> u32_max \<Longrightarrow> n \<le> u32_max"
  by (induction sid acc s rule: parse_dec_loop.induct) (auto split: if_splits)

lemma parse_dec_loop_digits:
  "parse_digits u32_max acc s = Some n \<Longrightarrow> parse_dec_loop sid acc s = Inr n"
  by (induction sid acc s rule: parse_dec_loop.induct) (auto simp: Let_def split: if_splits)

lemma parse_hex_show: "n \<le> u64_max \<Longrightarrow> parse_hex_loop sid 0 (show_hex n) = Inr n"
proof (induction n rule: less_induct)
  case (less n)
  show ?case
  proof (cases "n < 16")
    case True
    with less.prems show ?thesis
      using hex_digit_char [of n] by (simp add: show_hex.simps [of n])
  next
    case False
    then have IH: "parse_hex_loop sid 0 (show_hex (n div 16)) = Inr (n div 16)"
      using less by simp
    have last: "show_hex (n mod 16) = [char_of (if n mod 16 < 10 then 48 + n mod 16 else 87 + n mod 16)]"
      by (simp add: show_hex.simps [of "n mod 16"])
    have "n div 16 * 16 + n mod 16 = n"
      by simp
    with IH last False less.prems show ?thesis
      using hex_digit_char [of "n mod 16"]
      by (simp add: show_hex.simps [of n] parse_hex_loop_append)
  qed
qed

lemma show_hex_not_empty [simp]: "show_hex n \<noteq> []"
proof (induction n rule: show_hex.induct)
  case (1 n)
  then show ?case
    by (subst show_hex.simps) auto
qed

lemma split_dash_digits: "\<forall>c\<in>set p. is_digit c \<Longrightarrow> split_dash (p @ ''-'' @ h) = Some (p, h)"
  using sign_not_digit by (induction p) auto

section \<open>Properties\<close>

text \<open>
  C19: A session id written as \<open>pg-<pid>-<hash>\<close> parses back to exactly that owner for every 32-bit
  pid and 64-bit hash, and whatever text parses to a \<open>PgSession\<close>, its fields fit their widths.
\<close>

theorem pg_session_roundtrip:
  "(\<forall>pid hash. pid \<le> u32_max \<longrightarrow> hash \<le> u64_max \<longrightarrow>
      from_pg_session_id parse_uuid (''pg-'' @ show_dec pid @ ''-'' @ show_hex hash) =
        Inr (PgSession pid hash)) \<and>
   (\<forall>sid pid hash. from_pg_session_id parse_uuid sid = Inr (PgSession pid hash) \<longrightarrow>
      pid \<le> u32_max \<and> hash \<le> u64_max)"
proof (intro conjI allI impI)
  fix pid hash :: nat
  assume "pid \<le> u32_max" "hash \<le> u64_max"
  moreover have "split_dash (show_dec pid @ ''-'' @ show_hex hash) = Some (show_dec pid, show_hex hash)"
    using show_dec_digits by (intro split_dash_digits) blast
  ultimately show "from_pg_session_id parse_uuid (''pg-'' @ show_dec pid @ ''-'' @ show_hex hash) =
      Inr (PgSession pid hash)"
    using parse_dec_loop_digits [OF parse_digits_show_dec [of pid u32_max]] parse_hex_show [of hash]
    by (simp add: from_pg_session_id_def strip_prefix_def parse_u32_decimal_def parse_u64_hex_def)
next
  fix sid pid hash
  assume "from_pg_session_id parse_uuid sid = Inr (PgSession pid hash)"
  then show "pid \<le> u32_max" "hash \<le> u64_max"
    by (auto simp: from_pg_session_id_def parse_u32_decimal_def parse_u64_hex_def
        split: option.splits prod.splits sum.splits if_splits
        intro: parse_dec_loop_le [where acc = 0] parse_hex_loop_le [where acc = 0])
qed

theorem pg_session_roundtrip_witness:
  "from_pg_session_id (\<lambda>_. None) (''pg-'' @ show_dec 4711 @ ''-'' @ show_hex 48879) =
     Inr (PgSession 4711 48879)"
  using conjunct1 [OF pg_session_roundtrip [of "\<lambda>_. None"], rule_format, of 4711 48879]
  by (simp add: u32_max_def u64_max_def)

end
