(* ===== verification/CommitSequence.thy ===== *)
theory CommitSequence
  imports Sharding
begin

text \<open>
  Per-group commit frontiers and snapshot pinning
  (\<open>kalamdb-transactions/src/commit_sequence.rs\<close>). The \<open>RwLock\<close> and the atomics make every operation
  atomic, so each is one state transformer.
\<close>

definition snapshot_unset :: nat where
  "snapshot_unset = u64_max"

record commit_sequence_tracker =
  frontiers :: "(group_id \<times> nat) list"
  local_alloc :: nat
  durable_high_watermark :: nat

definition cst_new :: "nat \<Rightarrow> commit_sequence_tracker" where
  "cst_new hw = \<lparr>frontiers = [], local_alloc = hw, durable_high_watermark = hw\<rparr>"

definition frontier :: "commit_sequence_tracker \<Rightarrow> group_id \<Rightarrow> nat" where
  "frontier s g = (case map_of (frontiers s) g of Some i \<Rightarrow> i | None \<Rightarrow> 0)"

definition current_committed :: "commit_sequence_tracker \<Rightarrow> nat" where
  "current_committed s =
     (case map snd (frontiers s) of
        [] \<Rightarrow> durable_high_watermark s
      | i # is \<Rightarrow> fold max is i)"

text \<open>The hash map is a list of entries; an update replaces the entry of the key in place.\<close>

fun put_frontier :: "group_id \<Rightarrow> nat \<Rightarrow> (group_id \<times> nat) list \<Rightarrow> (group_id \<times> nat) list" where
  "put_frontier g i [] = [(g, i)]"
| "put_frontier g i ((h, j) # es) = (if h = g then (g, i) # es else (h, j) # put_frontier g i es)"

definition observe_committed :: "group_id \<Rightarrow> nat \<Rightarrow> commit_sequence_tracker \<Rightarrow> commit_sequence_tracker" where
  "observe_committed g i s =
     (if i = 0 then s
      else let entry = (case map_of (frontiers s) g of Some j \<Rightarrow> j | None \<Rightarrow> 0)
           in s\<lparr>frontiers := put_frontier g (if entry < i then i else entry) (frontiers s)\<rparr>)"

definition pin_snapshot :: "commit_sequence_tracker \<Rightarrow> group_id \<Rightarrow> nat \<Rightarrow> nat \<times> nat" where
  "pin_snapshot s g cell =
     (if cell = snapshot_unset then (frontier s g, frontier s g) else (cell, cell))"

definition allocate_next :: "commit_sequence_tracker \<Rightarrow> nat \<times> commit_sequence_tracker" where
  "allocate_next s =
     (local_alloc s + 1, s\<lparr>local_alloc := local_alloc s + 1\<rparr>)"

lemma map_of_put_frontier: "map_of (put_frontier g i es) h = (if h = g then Some i else map_of es h)"
  by (induction g i es rule: put_frontier.induct) auto

lemma frontier_observe:
  "frontier (observe_committed g i s) h = (if h = g then max i (frontier s g) else frontier s h)"
  by (auto simp: frontier_def observe_committed_def Let_def map_of_put_frontier max_def split: option.splits)

lemma frontier_new [simp]: "frontier (cst_new hw) g = 0"
  by (simp add: frontier_def cst_new_def)

section \<open>The frontier interface\<close>

text \<open>
  What the transaction coordinator relies on: a group's frontier after an observation. From this
  law alone the frontier is monotone, and a sequence of observations can arrive in any order.
\<close>

locale frontier_source =
  fixes group_frontier :: "'s \<Rightarrow> group_id \<Rightarrow> nat"
    and observe :: "group_id \<Rightarrow> nat \<Rightarrow> 's \<Rightarrow> 's"
  assumes observe_law: "group_frontier (observe g i s) h =
    (if h = g then max i (group_frontier s g) else group_frontier s h)"
begin

lemma observe_all:
  "group_frontier (fold (\<lambda>(g, i). observe g i) obs s) h =
     fold max (map snd (filter (\<lambda>(g, i). g = h) obs)) (group_frontier s h)"
  by (induction obs arbitrary: s) (auto simp: observe_law)

lemma observe_mono: "group_frontier s h \<le> group_frontier (fold (\<lambda>(g, i). observe g i) obs s) h"
proof (induction obs arbitrary: s)
  case (Cons x obs)
  obtain g i where x: "x = (g, i)"
    by (cases x)
  have "group_frontier s h \<le> group_frontier (observe g i s) h"
    by (simp add: observe_law)
  also have "\<dots> \<le> group_frontier (fold (\<lambda>(g, i). observe g i) obs (observe g i s)) h"
    by (rule Cons.IH)
  finally show ?case
    by (simp add: x)
qed simp

end

interpretation cst: frontier_source frontier observe_committed
  by unfold_locales (rule frontier_observe)

lemma fold_max_eq: "fold max xs (m::nat) = Max (insert m (set xs))"
  using Max.set_eq_fold [of m xs] by simp

section \<open>Properties\<close>

text \<open>
  C17: A group's frontier is the largest log index observed for that group: it never moves back, the
  order in which observations arrive does not matter, and other groups never influence it.
\<close>

theorem frontier_is_group_maximum:
  "frontier (fold (\<lambda>(g, i). observe_committed g i) obs (cst_new hw)) h =
     Max (insert 0 {i. (h, i) \<in> set obs}) \<and>
   frontier s h \<le> frontier (fold (\<lambda>(g, i). observe_committed g i) obs s) h"
proof
  have "set (map snd (filter (\<lambda>(g, i). g = h) obs)) = {i. (h, i) \<in> set obs}"
    by force
  then show "frontier (fold (\<lambda>(g, i). observe_committed g i) obs (cst_new hw)) h =
      Max (insert 0 {i. (h, i) \<in> set obs})"
    using cst.observe_all [of obs "cst_new hw" h] by (simp add: fold_max_eq)
qed (rule cst.observe_mono)

text \<open>
  Pinning is write-once: the first pin reads the group's frontier of that moment, and every
  later pin of the same cell, whatever the group and however far frontiers have moved, returns
  that first value; so a transaction's snapshot never exceeds what was committed when it started
  reading.
\<close>

theorem pin_snapshot_write_once:
  assumes "frontier s g < snapshot_unset"
  shows "pin_snapshot s g snapshot_unset = (frontier s g, frontier s g) \<and>
    pin_snapshot (fold (\<lambda>(g, i). observe_committed g i) obs s) h (snd (pin_snapshot s g snapshot_unset))
      = (frontier s g, frontier s g) \<and>
    frontier s g \<le> frontier (fold (\<lambda>(g, i). observe_committed g i) obs s) g"
  using assms cst.observe_mono [of s g obs] by (simp add: pin_snapshot_def)

theorem pin_snapshot_write_once_witness:
  "frontier (observe_committed Meta 5 (cst_new 0)) Meta = 5 \<and>
   pin_snapshot (observe_committed Meta 9 (observe_committed Meta 5 (cst_new 0))) Meta
     (snd (pin_snapshot (observe_committed Meta 5 (cst_new 0)) Meta snapshot_unset)) = (5, 5)"
proof -
  have f: "frontier (observe_committed Meta 5 (cst_new 0)) Meta = 5"
    by (simp add: frontier_observe)
  then show ?thesis
    using pin_snapshot_write_once [of "observe_committed Meta 5 (cst_new 0)" Meta "[(Meta, 9)]" Meta]
    by (auto simp: snapshot_unset_def u64_max_def)
qed

end
