(* ===== verification/PkClaims.thy ===== *)
theory PkClaims
  imports KPrelude
begin

text \<open>
  Primary-key claims (\<open>kalamdb-transactions/src/pk_claims.rs\<close>). \<open>acquire\<close> takes the mutex twice per
  loop round and waits on a \<open>Notify\<close> in between, so it is a small program: its position is
  \<open>acquire_pc\<close>, and threads interleave between the positions. A \<open>Notify\<close> is an identity; a
  \<open>Notified\<close> future receives \<open>notify_waiters\<close> calls made after it was created.
\<close>

section \<open>State\<close>

datatype claim_key = ClaimKey (ck_table_id: table_id) (ck_primary_key: string)

record claim =
  claim_owner :: transaction_id
  claim_notify :: nat

text \<open>
  Where a transaction's call of \<open>acquire\<close> stands: outside, about to lock, holding a cloned
  \<open>Notify\<close> but no future yet, holding an enabled future (with whether it has been notified), or
  awaiting it.
\<close>

datatype acquire_pc =
    Outside
  | AtLock claim_key
  | HoldsNotify claim_key nat
  | HoldsFuture claim_key nat bool
  | Awaiting claim_key nat bool

record claims_state =
  claims :: "claim_key \<rightharpoonup> claim"
  next_notify :: nat
  pcs :: "transaction_id \<Rightarrow> acquire_pc"

definition claims_init :: claims_state where
  "claims_init = \<lparr>claims = Map.empty, next_notify = 0, pcs = (\<lambda>_. Outside)\<rparr>"

section \<open>Operations\<close>

text \<open>The first critical section of a round of \<open>acquire\<close>.\<close>

definition acquire_lock :: "transaction_id \<Rightarrow> claim_key \<Rightarrow> claims_state \<Rightarrow> claims_state" where
  "acquire_lock me k s =
     (case claims s k of
        Some c \<Rightarrow>
          if claim_owner c = me then s\<lparr>pcs := (pcs s)(me := Outside)\<rparr>
          else s\<lparr>pcs := (pcs s)(me := HoldsNotify k (claim_notify c))\<rparr>
      | None \<Rightarrow>
          s\<lparr>claims := (claims s)(k \<mapsto> \<lparr>claim_owner = me, claim_notify = next_notify s\<rparr>),
            next_notify := next_notify s + 1,
            pcs := (pcs s)(me := Outside)\<rparr>)"

text \<open>\<open>pin!(wait.notified())\<close> followed by \<open>enable\<close>, outside the lock.\<close>

definition create_future :: "transaction_id \<Rightarrow> claim_key \<Rightarrow> nat \<Rightarrow> claims_state \<Rightarrow> claims_state" where
  "create_future me k n s = s\<lparr>pcs := (pcs s)(me := HoldsFuture k n False)\<rparr>"

text \<open>The second critical section: the check whether another owner still holds the key.\<close>

definition still_blocked :: "transaction_id \<Rightarrow> claim_key \<Rightarrow> claims_state \<Rightarrow> bool" where
  "still_blocked me k s = (case claims s k of None \<Rightarrow> False | Some c \<Rightarrow> claim_owner c \<noteq> me)"

definition check_blocked :: "transaction_id \<Rightarrow> claim_key \<Rightarrow> nat \<Rightarrow> bool \<Rightarrow> claims_state \<Rightarrow> claims_state" where
  "check_blocked me k n b s =
     s\<lparr>pcs := (pcs s)(me := (if still_blocked me k s then Awaiting k n b else AtLock k))\<rparr>"

fun notify_pc :: "nat set \<Rightarrow> acquire_pc \<Rightarrow> acquire_pc" where
  "notify_pc ns (HoldsFuture k n b) = HoldsFuture k n (b \<or> n \<in> ns)"
| "notify_pc ns (Awaiting k n b) = Awaiting k n (b \<or> n \<in> ns)"
| "notify_pc ns pc = pc"

definition notify_waiters :: "nat set \<Rightarrow> claims_state \<Rightarrow> claims_state" where
  "notify_waiters ns s = s\<lparr>pcs := (\<lambda>t. notify_pc ns (pcs s t))\<rparr>"

definition release_key :: "claim_key \<Rightarrow> transaction_id \<Rightarrow> claims_state \<Rightarrow> claims_state" where
  "release_key k me s =
     (case claims s k of
        None \<Rightarrow> s
      | Some c \<Rightarrow>
          if claim_owner c = me
          then notify_waiters {claim_notify c} (s\<lparr>claims := (claims s)(k := None)\<rparr>)
          else s)"

definition owned_notifies :: "transaction_id \<Rightarrow> claims_state \<Rightarrow> nat set" where
  "owned_notifies me s = {claim_notify c | k c. claims s k = Some c \<and> claim_owner c = me}"

definition release_owner :: "transaction_id \<Rightarrow> claims_state \<Rightarrow> claims_state" where
  "release_owner me s =
     notify_waiters (owned_notifies me s)
       (s\<lparr>claims := (\<lambda>k. case claims s k of
             None \<Rightarrow> None
           | Some c \<Rightarrow> if claim_owner c = me then None else Some c)\<rparr>)"

section \<open>Interleaved execution\<close>

text \<open>\<open>claims_act me\<close> is a step taken for transaction \<open>me\<close>.\<close>

inductive claims_act :: "transaction_id \<Rightarrow> claims_state \<Rightarrow> claims_state \<Rightarrow> bool" where
  call: "pcs s me = Outside \<Longrightarrow> claims_act me s (s\<lparr>pcs := (pcs s)(me := AtLock k)\<rparr>)"
| lock: "pcs s me = AtLock k \<Longrightarrow> claims_act me s (acquire_lock me k s)"
| enable: "pcs s me = HoldsNotify k n \<Longrightarrow> claims_act me s (create_future me k n s)"
| check: "pcs s me = HoldsFuture k n b \<Longrightarrow> claims_act me s (check_blocked me k n b s)"
| wake: "pcs s me = Awaiting k n True \<Longrightarrow> claims_act me s (s\<lparr>pcs := (pcs s)(me := AtLock k)\<rparr>)"
| drop_key: "pcs s me = Outside \<Longrightarrow> claims_act me s (release_key k me s)"
| drop_all: "claims_act me s (release_owner me s)"

inductive_cases claims_actE: "claims_act me s s'"

definition claims_step :: "claims_state \<Rightarrow> claims_state \<Rightarrow> bool" where
  "claims_step s s' \<longleftrightarrow> (\<exists>me. claims_act me s s')"

lemma claims_stepI: "claims_act me s s' \<Longrightarrow> claims_step s s'"
  by (auto simp: claims_step_def)

lemma claims_stepE:
  assumes "claims_step s s'"
  obtains (call) me k where "s' = s\<lparr>pcs := (pcs s)(me := AtLock k)\<rparr>" "pcs s me = Outside"
    | (lock) me k where "s' = acquire_lock me k s" "pcs s me = AtLock k"
    | (enable) me k n where "s' = create_future me k n s" "pcs s me = HoldsNotify k n"
    | (check) me k n b where "s' = check_blocked me k n b s" "pcs s me = HoldsFuture k n b"
    | (wake) me k n where "s' = s\<lparr>pcs := (pcs s)(me := AtLock k)\<rparr>" "pcs s me = Awaiting k n True"
    | (drop_key) me k where "s' = release_key k me s" "pcs s me = Outside"
    | (drop_all) me where "s' = release_owner me s"
  using assms unfolding claims_step_def by (elim exE claims_actE) blast+

abbreviation claims_steps :: "claims_state \<Rightarrow> claims_state \<Rightarrow> bool" where
  "claims_steps \<equiv> claims_step\<^sup>*\<^sup>*"

text \<open>Runs in which a transaction takes no step.\<close>

abbreviation others_steps :: "transaction_id \<Rightarrow> claims_state \<Rightarrow> claims_state \<Rightarrow> bool" where
  "others_steps owner \<equiv> (\<lambda>s s'. \<exists>me. me \<noteq> owner \<and> claims_act me s s')\<^sup>*\<^sup>*"

section \<open>Invariants\<close>

text \<open>Notify identities are fresh: those in use are below the counter, and each belongs to one claim.\<close>

definition notify_fresh :: "claims_state \<Rightarrow> bool" where
  "notify_fresh s \<longleftrightarrow>
     (\<forall>k c. claims s k = Some c \<longrightarrow> claim_notify c < next_notify s) \<and>
     (\<forall>k k' c c'. claims s k = Some c \<longrightarrow> claims s k' = Some c' \<longrightarrow>
        claim_notify c = claim_notify c' \<longrightarrow> k = k')"

lemmas claims_op_defs = acquire_lock_def create_future_def check_blocked_def release_key_def
  release_owner_def notify_waiters_def

lemma next_notify_mono: "claims_step s s' \<Longrightarrow> next_notify s \<le> next_notify s'"
  by (elim claims_stepE) (auto simp: claims_op_defs split: option.splits)

lemma claims_step_claims:
  assumes "claims_step s s'" "claims s' k = Some c"
  shows "claims s k = Some c \<or> claim_notify c = next_notify s \<and> next_notify s' = Suc (next_notify s)"
  using assms by (elim claims_stepE) (auto simp: claims_op_defs split: option.splits if_splits)

lemma notify_fresh_init: "notify_fresh claims_init"
  by (simp add: notify_fresh_def claims_init_def)

lemma notify_fresh_lock: "notify_fresh s \<Longrightarrow> notify_fresh (acquire_lock me k s)"
  unfolding notify_fresh_def acquire_lock_def
  by (auto split: option.splits simp: less_Suc_eq) (metis nat_neq_iff)+

lemma notify_fresh_sub:
  assumes "notify_fresh s" "next_notify s' = next_notify s"
    and "\<And>k c. claims s' k = Some c \<Longrightarrow> claims s k = Some c"
  shows "notify_fresh s'"
  using assms unfolding notify_fresh_def by (metis (no_types, lifting))

lemma notify_fresh_step: "claims_step s s' \<Longrightarrow> notify_fresh s \<Longrightarrow> notify_fresh s'"
  by (elim claims_stepE)
    (auto intro: notify_fresh_lock notify_fresh_sub simp: create_future_def check_blocked_def
      release_key_def release_owner_def notify_waiters_def split: option.splits if_splits)

lemma notify_fresh_steps: "claims_steps s s' \<Longrightarrow> notify_fresh s \<Longrightarrow> notify_fresh s'"
  by (induction rule: rtranclp_induct) (auto intro: notify_fresh_step)

section \<open>Stuck waiters\<close>

text \<open>A thread waiting on a \<open>Notify\<close> that no claim holds any more.\<close>

definition orphaned :: "transaction_id \<Rightarrow> claim_key \<Rightarrow> nat \<Rightarrow> claims_state \<Rightarrow> bool" where
  "orphaned t k n s \<longleftrightarrow>
     pcs s t = Awaiting k n False \<and> n < next_notify s \<and>
     (\<forall>k' c. claims s k' = Some c \<longrightarrow> claim_notify c \<noteq> n)"

lemma notify_pc_orphan: "n \<notin> ns \<Longrightarrow> notify_pc ns (Awaiting k n False) = Awaiting k n False"
  by simp

lemma claims_step_orphan_pc:
  assumes "claims_step s s'" "orphaned t k n s"
  shows "pcs s' t = Awaiting k n False"
  using assms
  by (elim claims_stepE)
    (auto simp: orphaned_def claims_op_defs owned_notifies_def split: option.splits)

lemma orphaned_step:
  assumes "claims_step s s'" "orphaned t k n s"
  shows "orphaned t k n s'"
  using claims_step_orphan_pc [OF assms] next_notify_mono [OF assms(1)] assms(2)
    claims_step_claims [OF assms(1)]
  by (fastforce simp: orphaned_def)

lemma orphaned_steps: "claims_steps s s' \<Longrightarrow> orphaned t k n s \<Longrightarrow> orphaned t k n s'"
  by (induction rule: rtranclp_induct) (auto intro: orphaned_step)

text \<open>
  While a thread waits on the future of a claim that another transaction holds, it stays
  subscribed; when the claim goes, the future is notified.
\<close>

definition subscribed :: "transaction_id \<Rightarrow> claim_key \<Rightarrow> claim \<Rightarrow> claims_state \<Rightarrow> bool" where
  "subscribed t k c s \<longleftrightarrow>
     claims s k = Some c \<and> claim_owner c \<noteq> t \<and>
     (pcs s t = HoldsFuture k (claim_notify c) False \<or> pcs s t = Awaiting k (claim_notify c) False)"

definition released :: "transaction_id \<Rightarrow> nat \<Rightarrow> claims_state \<Rightarrow> bool" where
  "released t n s \<longleftrightarrow>
     n < next_notify s \<and> (\<forall>k c. claims s k = Some c \<longrightarrow> claim_notify c \<noteq> n) \<and>
     (\<forall>k. pcs s t \<noteq> HoldsNotify k n \<and> pcs s t \<noteq> HoldsFuture k n False \<and> pcs s t \<noteq> Awaiting k n False)"

lemma notify_pc_eq [simp]:
  "notify_pc ns pc = Outside \<longleftrightarrow> pc = Outside"
  "notify_pc ns pc = AtLock k \<longleftrightarrow> pc = AtLock k"
  "notify_pc ns pc = HoldsNotify k n \<longleftrightarrow> pc = HoldsNotify k n"
  "notify_pc ns pc = HoldsFuture k n False \<longleftrightarrow> pc = HoldsFuture k n False \<and> n \<notin> ns"
  "notify_pc ns pc = Awaiting k n False \<longleftrightarrow> pc = Awaiting k n False \<and> n \<notin> ns"
  by (cases pc; auto)+

lemma released_step:
  assumes "claims_step s s'" "released t n s"
  shows "released t n s'"
proof -
  have "\<forall>k c. claims s' k = Some c \<longrightarrow> claim_notify c \<noteq> n"
    using claims_step_claims [OF assms(1)] assms(2) by (force simp: released_def)
  moreover have "\<forall>k. pcs s' t \<noteq> HoldsNotify k n \<and> pcs s' t \<noteq> HoldsFuture k n False \<and>
      pcs s' t \<noteq> Awaiting k n False"
    using assms by (elim claims_stepE) (auto simp: released_def claims_op_defs split: option.splits)
  moreover have "n < next_notify s'"
    using next_notify_mono [OF assms(1)] assms(2) by (simp add: released_def)
  ultimately show ?thesis
    by (simp add: released_def)
qed

lemma owned_notifies_iff:
  assumes "notify_fresh s" "claims s k = Some c"
  shows "claim_notify c \<in> owned_notifies me s \<longleftrightarrow> claim_owner c = me"
  using assms unfolding notify_fresh_def owned_notifies_def by (auto, metis option.inject)

lemma notify_same_iff:
  assumes "notify_fresh s" "claims s k = Some c" "claims s k' = Some c'"
  shows "claim_notify c = claim_notify c' \<longleftrightarrow> k = k'"
  using assms unfolding notify_fresh_def by (metis option.inject)

lemma subscribed_stays:
  assumes "claims_step s s'" "notify_fresh s" "subscribed t k c s" "claims s' k = Some c"
  shows "subscribed t k c s'"
  using assms(1)
proof (cases rule: claims_stepE)
  case (drop_key me k')
  then show ?thesis
    using assms notify_same_iff [OF assms(2), of k c k']
    by (auto simp: subscribed_def release_key_def notify_waiters_def split: option.splits if_splits)
next
  case (drop_all me)
  then show ?thesis
    using assms owned_notifies_iff [OF assms(2), of k c me]
    by (auto simp: subscribed_def release_owner_def notify_waiters_def split: if_splits)
qed (use assms in \<open>auto simp: subscribed_def claims_op_defs still_blocked_def split: option.splits if_splits\<close>)

lemma subscribed_released:
  assumes "claims_step s s'" "notify_fresh s" "subscribed t k c s" "claims s' k \<noteq> Some c"
  shows "released t (claim_notify c) s'"
proof -
  have held: "claims s k = Some c" and fresh: "claim_notify c < next_notify s"
    using assms(2,3) by (auto simp: subscribed_def notify_fresh_def)
  have "s' = release_key k (claim_owner c) s \<or> s' = release_owner (claim_owner c) s"
    using assms(1,4) held
    by (elim claims_stepE) (auto simp: claims_op_defs split: option.splits if_splits)
  then have "\<forall>k'. pcs s' t \<noteq> HoldsNotify k' (claim_notify c) \<and>
      pcs s' t \<noteq> HoldsFuture k' (claim_notify c) False \<and> pcs s' t \<noteq> Awaiting k' (claim_notify c) False"
    using assms(3) owned_notifies_iff [OF assms(2) held, of "claim_owner c"]
    by (elim disjE) (auto simp: subscribed_def release_key_def release_owner_def notify_waiters_def)
  moreover have "claim_notify c' \<noteq> claim_notify c" if c': "claims s' k' = Some c'" for k' c'
  proof (cases "claims s k' = Some c'")
    case True
    then have "k' \<noteq> k"
      using c' held assms(4) by auto
    then show ?thesis
      using notify_same_iff [OF assms(2) held True] by auto
  next
    case False
    then show ?thesis
      using claims_step_claims [OF assms(1) c'] fresh by simp
  qed
  ultimately show ?thesis
    using fresh next_notify_mono [OF assms(1)] by (simp add: released_def)
qed

lemma subscribed_step:
  assumes "claims_step s s'" "notify_fresh s" "subscribed t k c s"
  shows "subscribed t k c s' \<or> released t (claim_notify c) s'"
  using subscribed_stays [OF assms] subscribed_released [OF assms] by blast

lemma subscribed_steps:
  "claims_steps s s' \<Longrightarrow> notify_fresh s \<Longrightarrow> subscribed t k c s \<Longrightarrow>
     notify_fresh s' \<and> (subscribed t k c s' \<or> released t (claim_notify c) s')"
  by (induction rule: rtranclp_induct)
    (auto intro: notify_fresh_step released_step dest: subscribed_step)

section \<open>Schedules\<close>

text \<open>An executable scheduler for the step relation, to run concrete interleavings.\<close>

datatype claims_event =
    EvCall transaction_id claim_key | EvLock transaction_id | EvEnable transaction_id
  | EvCheck transaction_id | EvDropAll transaction_id

fun do_event :: "claims_event \<Rightarrow> claims_state \<Rightarrow> claims_state option" where
  "do_event (EvCall t k) s =
     (if pcs s t = Outside then Some (s\<lparr>pcs := (pcs s)(t := AtLock k)\<rparr>) else None)"
| "do_event (EvLock t) s = (case pcs s t of AtLock k \<Rightarrow> Some (acquire_lock t k s) | _ \<Rightarrow> None)"
| "do_event (EvEnable t) s = (case pcs s t of HoldsNotify k n \<Rightarrow> Some (create_future t k n s) | _ \<Rightarrow> None)"
| "do_event (EvCheck t) s = (case pcs s t of HoldsFuture k n b \<Rightarrow> Some (check_blocked t k n b s) | _ \<Rightarrow> None)"
| "do_event (EvDropAll t) s = Some (release_owner t s)"

fun run_schedule :: "claims_event list \<Rightarrow> claims_state \<Rightarrow> claims_state option" where
  "run_schedule [] s = Some s"
| "run_schedule (e # es) s = (case do_event e s of None \<Rightarrow> None | Some s' \<Rightarrow> run_schedule es s')"

lemma do_event_step: "do_event e s = Some s' \<Longrightarrow> claims_step s s'"
  by (cases e) (auto split: if_splits acquire_pc.splits intro: claims_stepI claims_act.intros)

lemma run_schedule_steps: "run_schedule es s = Some s' \<Longrightarrow> claims_steps s s'"
  by (induction es arbitrary: s)
    (auto split: option.splits dest: do_event_step intro: converse_rtranclp_into_rtranclp)

text \<open>
  \<open>B\<close> clones the \<open>Notify\<close> of \<open>A\<close>'s claim; before \<open>B\<close> creates its future, \<open>A\<close> releases and \<open>C\<close>
  claims the key; \<open>B\<close> then finds the key blocked and awaits, and \<open>C\<close> releases.
\<close>

definition lost_wakeup_schedule :: "claim_key \<Rightarrow> claims_event list" where
  "lost_wakeup_schedule k =
     [EvCall ''A'' k, EvLock ''A'', EvCall ''B'' k, EvLock ''B'', EvDropAll ''A'',
      EvCall ''C'' k, EvLock ''C'', EvEnable ''B'', EvCheck ''B'', EvDropAll ''C'']"

lemma lost_wakeup_run:
  "\<exists>s. run_schedule (lost_wakeup_schedule k) claims_init = Some s \<and>
     claims s = Map.empty \<and> orphaned ''B'' k 0 s"
  by (simp add: lost_wakeup_schedule_def claims_init_def claims_op_defs still_blocked_def
      orphaned_def owned_notifies_def fun_eq_iff)

section \<open>Properties\<close>

lemma claim_kept_act:
  assumes "claims_act me s s'" "claims s k = Some c" "me \<noteq> claim_owner c"
  shows "claims s' k = Some c"
  using assms by (elim claims_actE)
    (auto simp: claims_op_defs split: option.splits)

lemma blocked_act:
  assumes "claims_act me s s'" "claims s k = Some c" "me \<noteq> claim_owner c" "pcs s me = AtLock k"
  shows "pcs s' me \<noteq> Outside"
  using assms by (elim claims_actE)
    (auto simp: claims_op_defs split: option.splits)

text \<open>
  C14: Mutual exclusion: once a transaction holds a key, no interleaving of other transactions'
  acquires and releases takes it away, and as long as it holds the key no other transaction's
  \<open>acquire\<close> of that key returns.
\<close>

theorem claim_kept_until_owner_releases:
  assumes "claims s k = Some c" "others_steps (claim_owner c) s s'"
  shows "claims s' k = Some c \<and>
    \<not> (\<exists>t s''. t \<noteq> claim_owner c \<and> pcs s' t = AtLock k \<and> claims_act t s' s'' \<and> pcs s'' t = Outside)"
proof -
  have "claims s' k = Some c"
    using assms(2,1) by (induction rule: rtranclp_induct) (auto intro: claim_kept_act)
  then show ?thesis
    using blocked_act by blast
qed

theorem claim_kept_until_owner_releases_witness:
  "\<exists>s c. claims_steps claims_init s \<and> claims s (ClaimKey (TableId ''n'' ''t'') ''1'') = Some c \<and>
     claims (release_key (ClaimKey (TableId ''n'' ''t'') ''1'') ''B'' s) (ClaimKey (TableId ''n'' ''t'') ''1'') = Some c"
proof -
  let ?k = "ClaimKey (TableId ''n'' ''t'') ''1''"
  let ?c = "\<lparr>claim_owner = ''A'', claim_notify = 0\<rparr>"
  have "\<exists>s. run_schedule [EvCall ''A'' ?k, EvLock ''A''] claims_init = Some s \<and> claims s ?k = Some ?c \<and>
      pcs s ''B'' = Outside"
    by (simp add: claims_init_def claims_op_defs)
  then obtain s where s: "run_schedule [EvCall ''A'' ?k, EvLock ''A''] claims_init = Some s"
    "claims s ?k = Some ?c" "pcs s ''B'' = Outside" by blast
  have "\<exists>me. me \<noteq> claim_owner ?c \<and> claims_act me s (release_key ?k ''B'' s)"
    using drop_key [OF s(3)] by (intro exI [of _ "''B''"]) simp
  then have "claims (release_key ?k ''B'' s) ?k = Some ?c"
    using claim_kept_until_owner_releases [OF s(2)] by blast
  with s(2) run_schedule_steps [OF s(1)] show ?thesis by blast
qed



text \<open>
  C16: The window before the future is created does lose wakeups: there is a run from the initial
  state to a state in which no transaction holds the key, yet a waiter never leaves its wait,
  whatever happens afterwards.
\<close>

theorem acquire_can_wait_forever:
  "\<exists>s. claims_steps claims_init s \<and> claims s = Map.empty \<and>
     \<not> (\<exists>s'. claims_steps s s' \<and> pcs s' ''B'' \<noteq> Awaiting k 0 False)"
proof -
  obtain s where run: "run_schedule (lost_wakeup_schedule k) claims_init = Some s"
    and free: "claims s = Map.empty" and stuck: "orphaned ''B'' k 0 s"
    using lost_wakeup_run [of k] by auto
  have "pcs s' ''B'' = Awaiting k 0 False" if "claims_steps s s'" for s'
    using orphaned_steps [OF that stuck] by (simp add: orphaned_def)
  with run_schedule_steps [OF run] free show ?thesis
    by auto
qed

end
