(* ===== verification/TxCoordinator.thy ===== *)
theory TxCoordinator
  imports TxWriteSet TxOwner CommitSequence PkClaims
begin

text \<open>
  The explicit-transaction coordinator (\<open>kalamdb-core/src/transactions/coordinator.rs\<close>) with its
  handles and Raft bindings (\<open>kalamdb-transactions/src/handle.rs\<close>, \<open>binding.rs\<close>).

  Each method is one state transformer on \<open>coordinator\<close>. \<open>commit\<close> waits for the applier between two
  halves, \<open>commit_begin\<close> and \<open>commit_finish\<close>. The configuration is \<open>cfg\<close>; what changes over
  time is passed to each call: the clock reading \<open>now\<close> (milliseconds) and \<open>ld\<close>, the Raft
  manager's current leader per group. The transaction id (a UUID) and the applier's answer are
  arguments. Messages of errors are replaced by constructors with the values they mention.
\<close>

section \<open>Handles\<close>

datatype raft_binding =
  LocalSingleNode | UnboundCluster | BoundCluster group_id node_id

record transaction_handle =
  h_transaction_id :: transaction_id
  h_owner_key :: execution_owner_key
  h_owner_id :: string
  h_origin :: transaction_origin
  h_state :: transaction_state
  h_raft_binding :: raft_binding
  h_snapshot_log_index :: nat
  h_started_at :: nat
  h_last_activity_at :: nat
  h_write_count :: nat
  h_write_bytes :: nat
  h_touched_tables :: "table_id set"
  h_has_write_set :: bool

definition handle_new ::
    "transaction_id \<Rightarrow> execution_owner_key \<Rightarrow> string \<Rightarrow> transaction_origin \<Rightarrow> raft_binding \<Rightarrow> nat
      \<Rightarrow> transaction_handle" where
  "handle_new tx owner owner_id origin binding now =
     \<lparr>h_transaction_id = tx, h_owner_key = owner, h_owner_id = owner_id, h_origin = origin,
      h_state = OpenRead, h_raft_binding = binding, h_snapshot_log_index = snapshot_unset,
      h_started_at = now, h_last_activity_at = now, h_write_count = 0, h_write_bytes = 0,
      h_touched_tables = {}, h_has_write_set = False\<rparr>"

definition handle_snapshot_commit_seq :: "transaction_handle \<Rightarrow> nat option" where
  "handle_snapshot_commit_seq h =
     (if h_snapshot_log_index h = snapshot_unset then None else Some (h_snapshot_log_index h))"

definition touch :: "nat \<Rightarrow> transaction_handle \<Rightarrow> transaction_handle" where
  "touch now h = h\<lparr>h_last_activity_at := now\<rparr>"

definition record_staged_write ::
    "nat \<Rightarrow> table_id \<Rightarrow> nat \<Rightarrow> nat \<Rightarrow> transaction_handle \<Rightarrow> transaction_handle" where
  "record_staged_write now t count bytes h =
     h\<lparr>h_last_activity_at := now, h_state := OpenWrite, h_write_count := count,
       h_write_bytes := bytes, h_has_write_set := True,
       h_touched_tables := insert t (h_touched_tables h)\<rparr>"

definition record_staged_write_batch ::
    "nat \<Rightarrow> table_id set \<Rightarrow> nat \<Rightarrow> nat \<Rightarrow> transaction_handle \<Rightarrow> transaction_handle" where
  "record_staged_write_batch now ts count bytes h =
     h\<lparr>h_last_activity_at := now, h_state := OpenWrite, h_write_count := count,
       h_write_bytes := bytes, h_has_write_set := True,
       h_touched_tables := h_touched_tables h \<union> ts\<rparr>"

definition mark_state :: "nat \<Rightarrow> transaction_state \<Rightarrow> transaction_handle \<Rightarrow> transaction_handle" where
  "mark_state now st h = h\<lparr>h_state := st, h_last_activity_at := now\<rparr>"

section \<open>Coordinator state, configuration and errors\<close>

record coordinator =
  active_by_owner :: "execution_owner_key \<rightharpoonup> transaction_id"
  active_by_id :: "transaction_id \<rightharpoonup> transaction_handle"
  write_sets :: "transaction_id \<rightharpoonup> write_set"
  tracker :: commit_sequence_tracker
  pk_claims :: claims_state
  staged_publishes :: "transaction_id \<Rightarrow> string list"
  published :: "string list"

text \<open>
  \<open>cfg_schema\<close> is the schema registry's lookup, \<open>cfg_publish\<close> whether the topic publisher accepts a
  message, \<open>cfg_base\<close> the size of one \<open>ScalarValue\<close> and \<open>cfg_hash\<close> the router's hasher.
\<close>

record coord_config =
  cfg_cluster :: "cluster_config option"
  cfg_node_id :: node_id
  cfg_hash :: "string list \<Rightarrow> nat"
  cfg_schema :: "table_id \<rightharpoonup> table_definition"
  cfg_max_transaction_buffer_bytes :: nat
  cfg_transaction_timeout_secs :: nat
  cfg_publish :: "string \<Rightarrow> bool"
  cfg_base :: nat

type_synonym leaders = "group_id \<Rightarrow> node_id option"

datatype coord_error =
    OwnerBusy string
  | TxNotFound transaction_id
  | NotFoundDuringCommit transaction_id
  | NotFoundDuringRollback transaction_id
  | StreamUnsupported
  | SystemUnsupported
  | MutationMismatch transaction_id transaction_id
  | StateError transaction_id transaction_state string
  | BufferLimit transaction_id nat
  | CrossGroup transaction_id group_id table_id group_id
  | NotLeader
  | LeaderChanged transaction_id group_id node_id "node_id option"
  | UserIdRequired table_id
  | UnknownSharedTable table_id
  | SharedGroupInvalid shared_group_error
  | CommitFailed transaction_id string
  | MissingCommitSeq transaction_id
  | SavepointMissing string
  | PublishFailed string
  | DdlRejected transaction_id

definition coordinator_new :: "commit_sequence_tracker \<Rightarrow> coordinator" where
  "coordinator_new tr =
     \<lparr>active_by_owner = Map.empty, active_by_id = Map.empty, write_sets = Map.empty, tracker = tr,
      pk_claims = claims_init, staged_publishes = (\<lambda>_. []), published = []\<rparr>"

section \<open>Helpers\<close>

definition upd_handle :: "transaction_id \<Rightarrow> transaction_handle \<Rightarrow> coordinator \<Rightarrow> coordinator" where
  "upd_handle tx h s = s\<lparr>active_by_id := (active_by_id s)(tx \<mapsto> h)\<rparr>"

definition drop_handle :: "transaction_id \<Rightarrow> coordinator \<Rightarrow> coordinator" where
  "drop_handle tx s = s\<lparr>active_by_id := (active_by_id s)(tx := None)\<rparr>"

definition drop_owner :: "execution_owner_key \<Rightarrow> coordinator \<Rightarrow> coordinator" where
  "drop_owner k s = s\<lparr>active_by_owner := (active_by_owner s)(k := None)\<rparr>"

definition upd_write_set :: "transaction_id \<Rightarrow> write_set \<Rightarrow> coordinator \<Rightarrow> coordinator" where
  "upd_write_set tx ws s = s\<lparr>write_sets := (write_sets s)(tx \<mapsto> ws)\<rparr>"

definition drop_write_set :: "transaction_id \<Rightarrow> coordinator \<Rightarrow> coordinator" where
  "drop_write_set tx s = s\<lparr>write_sets := (write_sets s)(tx := None)\<rparr>"

definition release_primary_key_claims :: "transaction_id \<Rightarrow> coordinator \<Rightarrow> coordinator" where
  "release_primary_key_claims tx s = s\<lparr>pk_claims := release_owner tx (pk_claims s)\<rparr>"

definition drop_staged_publishes :: "transaction_id \<Rightarrow> coordinator \<Rightarrow> coordinator" where
  "drop_staged_publishes tx s = s\<lparr>staged_publishes := (staged_publishes s)(tx := [])\<rparr>"

fun publish_all :: "(string \<Rightarrow> bool) \<Rightarrow> string list \<Rightarrow> string list \<Rightarrow> coord_error option \<times> string list" where
  "publish_all ok [] log = (None, log)"
| "publish_all ok (p # ps) log =
     (if ok p then publish_all ok ps (log @ [p]) else (Some (PublishFailed p), log))"

definition flush_staged_publishes ::
    "coord_config \<Rightarrow> transaction_id \<Rightarrow> coordinator \<Rightarrow> coord_error option \<times> coordinator" where
  "flush_staged_publishes cfg tx s =
     (let (e, log) = publish_all (cfg_publish cfg) (staged_publishes s tx) (published s)
      in (e, s\<lparr>staged_publishes := (staged_publishes s)(tx := []), published := log\<rparr>))"

definition initial_raft_binding :: "coord_config \<Rightarrow> raft_binding" where
  "initial_raft_binding cfg = (if cfg_cluster cfg \<noteq> None then UnboundCluster else LocalSingleNode)"

definition app_shared_group_id :: "coord_config \<Rightarrow> table_id \<Rightarrow> coord_error + group_id" where
  "app_shared_group_id cfg t =
     (case cfg_schema cfg t of
        None \<Rightarrow> Inl (UnknownSharedTable t)
      | Some d \<Rightarrow>
          (case shared_group_id (from_optional_cluster_config (cfg_cluster cfg)) d of
             Inl e \<Rightarrow> Inl (SharedGroupInvalid e) | Inr g \<Rightarrow> Inr g))"

definition resolve_group_id ::
    "coord_config \<Rightarrow> table_id \<Rightarrow> table_type \<Rightarrow> user_id option \<Rightarrow> coord_error + group_id option" where
  "resolve_group_id cfg t ty u =
     (case ty of
        User \<Rightarrow>
          (case u of
             None \<Rightarrow> Inl (UserIdRequired t)
           | Some uid \<Rightarrow>
               Inr (Some (user_group_id (cfg_hash cfg) (from_optional_cluster_config (cfg_cluster cfg)) uid)))
      | Shared \<Rightarrow> (case app_shared_group_id cfg t of Inl e \<Rightarrow> Inl e | Inr g \<Rightarrow> Inr (Some g))
      | Stream \<Rightarrow> Inl StreamUnsupported
      | System \<Rightarrow> Inr None)"

definition current_leader_for_group :: "coord_config \<Rightarrow> leaders \<Rightarrow> group_id \<Rightarrow> node_id option" where
  "current_leader_for_group cfg ld g =
     (if cfg_cluster cfg = None then Some (cfg_node_id cfg) else ld g)"

definition ensure_bound_leadership_is_current ::
    "coord_config \<Rightarrow> leaders \<Rightarrow> nat \<Rightarrow> transaction_id \<Rightarrow> transaction_handle
      \<Rightarrow> coord_error option \<times> transaction_handle" where
  "ensure_bound_leadership_is_current cfg ld now tx h =
     (case h_raft_binding h of
        BoundCluster g node \<Rightarrow>
          if current_leader_for_group cfg ld g = Some node then (None, h)
          else (Some (LeaderChanged tx g node (current_leader_for_group cfg ld g)),
                mark_state now Aborted h)
      | _ \<Rightarrow> (None, h))"

definition mark_transaction_aborted :: "nat \<Rightarrow> transaction_id \<Rightarrow> coordinator \<Rightarrow> coordinator" where
  "mark_transaction_aborted now tx s =
     (case active_by_id s tx of
        None \<Rightarrow> s
      | Some h \<Rightarrow> upd_handle tx (mark_state now Aborted h) s)"

section \<open>Begin, table access and staging\<close>

definition begin_tx ::
    "coord_config \<Rightarrow> nat \<Rightarrow> transaction_id \<Rightarrow> execution_owner_key \<Rightarrow> string \<Rightarrow> transaction_origin \<Rightarrow> coordinator
      \<Rightarrow> (coord_error + transaction_id) \<times> coordinator" where
  "begin_tx cfg now tx owner owner_id origin s =
     (let h = handle_new tx owner owner_id origin (initial_raft_binding cfg) now in
      case active_by_owner s owner of
        Some old \<Rightarrow>
          (let old_open = (case active_by_id s old of Some oh \<Rightarrow> is_open (h_state oh) | None \<Rightarrow> False) in
           if old_open then (Inl (OwnerBusy owner_id), s)
           else
             (let s1 = release_primary_key_claims old s;
                  s2 = drop_handle old s1;
                  s3 = drop_write_set old s2;
                  s4 = upd_handle tx h s3
              in (Inr tx, s4\<lparr>active_by_owner := (active_by_owner s4)(owner \<mapsto> tx)\<rparr>)))
      | None \<Rightarrow>
          (let s1 = upd_handle tx h s
           in (Inr tx, s1\<lparr>active_by_owner := (active_by_owner s1)(owner \<mapsto> tx)\<rparr>)))"

text \<open>The binding decision of \<open>validate_table_access\<close> for a resolved group.\<close>

definition bind_group ::
    "coord_config \<Rightarrow> leaders \<Rightarrow> transaction_id \<Rightarrow> table_id \<Rightarrow> group_id \<Rightarrow> transaction_handle
      \<Rightarrow> coord_error + transaction_handle" where
  "bind_group cfg ld tx t g h =
     (case h_raft_binding h of
        LocalSingleNode \<Rightarrow> Inr h
      | UnboundCluster \<Rightarrow>
          (case current_leader_for_group cfg ld g of
             Some node \<Rightarrow> Inr (h\<lparr>h_raft_binding := BoundCluster g node\<rparr>)
           | None \<Rightarrow> Inl NotLeader)
      | BoundCluster bg _ \<Rightarrow> if bg \<noteq> g then Inl (CrossGroup tx bg t g) else Inr h)"

definition validate_table_access ::
    "coord_config \<Rightarrow> leaders \<Rightarrow> nat \<Rightarrow> transaction_id \<Rightarrow> table_id \<Rightarrow> table_type \<Rightarrow> user_id option \<Rightarrow> coordinator
      \<Rightarrow> (coord_error + unit) \<times> coordinator" where
  "validate_table_access cfg ld now tx t ty u s =
     (case active_by_id s tx of
        None \<Rightarrow> (Inl (TxNotFound tx), s)
      | Some h \<Rightarrow>
          if \<not> is_open (h_state h) then (Inl (StateError tx (h_state h) ''access''), s)
          else case resolve_group_id cfg t ty u of
            Inl e \<Rightarrow> (Inl e, s)
          | Inr None \<Rightarrow> (Inr (), upd_handle tx (touch now h) s)
          | Inr (Some g) \<Rightarrow>
              (case bind_group cfg ld tx t g h of
                 Inl e \<Rightarrow> (Inl e, s)
               | Inr h1 \<Rightarrow>
                   (let cell = snd (pin_snapshot (tracker s) g (h_snapshot_log_index h1))
                    in (Inr (), upd_handle tx (touch now (h1\<lparr>h_snapshot_log_index := cell\<rparr>)) s))))"

text \<open>The rejection of stream and system tables and of mutations of another transaction.\<close>

definition check_mutation :: "transaction_id \<Rightarrow> staged_mutation \<Rightarrow> coord_error option" where
  "check_mutation tx m =
     (if sm_table_type m = Stream then Some StreamUnsupported
      else if sm_table_type m = System then Some SystemUnsupported
      else if sm_transaction_id m \<noteq> tx then Some (MutationMismatch tx (sm_transaction_id m))
      else None)"

definition abort_over_limit ::
    "coord_config \<Rightarrow> nat \<Rightarrow> transaction_id \<Rightarrow> transaction_handle \<Rightarrow> coordinator \<Rightarrow> (coord_error + unit) \<times> coordinator" where
  "abort_over_limit cfg now tx h s =
     (let s1 = upd_handle tx (mark_state now Aborted h) s;
          s2 = drop_write_set tx s1;
          s3 = release_primary_key_claims tx s2
      in (Inl (BufferLimit tx (cfg_max_transaction_buffer_bytes cfg)), s3))"

definition write_set_or_new :: "transaction_id \<Rightarrow> coordinator \<Rightarrow> write_set" where
  "write_set_or_new tx s = (case write_sets s tx of Some ws \<Rightarrow> ws | None \<Rightarrow> ws_new tx)"

definition coord_stage ::
    "coord_config \<Rightarrow> leaders \<Rightarrow> nat \<Rightarrow> transaction_id \<Rightarrow> staged_mutation \<Rightarrow> coordinator
      \<Rightarrow> (coord_error + unit) \<times> coordinator" where
  "coord_stage cfg ld now tx m s =
     (case check_mutation tx m of
        Some e \<Rightarrow> (Inl e, s)
      | None \<Rightarrow>
          (let bytes = approximate_size_bytes (cfg_base cfg) m in
           case validate_table_access cfg ld now tx (sm_table_id m) (sm_table_type m) (sm_user_id m) s of
             (Inl e, s1) \<Rightarrow> (Inl e, s1)
           | (Inr _, s1) \<Rightarrow>
               (case active_by_id s1 tx of
                  None \<Rightarrow> (Inl (TxNotFound tx), s1)
                | Some h \<Rightarrow>
                    if \<not> is_open (h_state h) then (Inl (StateError tx (h_state h) ''stage writes in''), s1)
                    else case ensure_bound_leadership_is_current cfg ld now tx h of
                      (Some e, h1) \<Rightarrow> (Inl e, mark_transaction_aborted now tx (upd_handle tx h1 s1))
                    | (None, h1) \<Rightarrow>
                        if cfg_max_transaction_buffer_bytes cfg < sat_add (h_write_bytes h1) bytes
                        then abort_over_limit cfg now tx h1 s1
                        else
                          (let ws = snd (stage_with_estimated_size m bytes (write_set_or_new tx s1))
                           in (Inr (), upd_handle tx
                                 (record_staged_write now (sm_table_id m) (affected_rows ws) (buffer_bytes ws) h1)
                                 (upd_write_set tx ws s1))))))"

text \<open>
  The validation loop of \<open>stage_batch\<close>: every mutation is checked, sizes accumulate with
  saturation, and each distinct target is validated once.
\<close>

fun stage_batch_scan ::
    "coord_config \<Rightarrow> leaders \<Rightarrow> nat \<Rightarrow> transaction_id \<Rightarrow> staged_mutation list
      \<Rightarrow> (table_id \<times> table_type \<times> user_id option) list \<Rightarrow> nat \<Rightarrow> coordinator
      \<Rightarrow> (coord_error + nat) \<times> coordinator" where
  "stage_batch_scan cfg ld now tx [] seen acc s = (Inr acc, s)"
| "stage_batch_scan cfg ld now tx (m # ms) seen acc s =
     (case check_mutation tx m of
        Some e \<Rightarrow> (Inl e, s)
      | None \<Rightarrow>
          (let acc1 = sat_add acc (approximate_size_bytes (cfg_base cfg) m);
               target = (sm_table_id m, sm_table_type m, sm_user_id m)
           in if target \<in> set seen then stage_batch_scan cfg ld now tx ms seen acc1 s
              else case validate_table_access cfg ld now tx (sm_table_id m) (sm_table_type m) (sm_user_id m) s of
                (Inl e, s1) \<Rightarrow> (Inl e, s1)
              | (Inr _, s1) \<Rightarrow> stage_batch_scan cfg ld now tx ms (target # seen) acc1 s1))"

definition stage_all :: "nat \<Rightarrow> staged_mutation list \<Rightarrow> write_set \<Rightarrow> write_set" where
  "stage_all base ms ws =
     fold (\<lambda>m w. snd (stage_with_estimated_size m (approximate_size_bytes base m) w)) ms ws"

definition coord_stage_batch ::
    "coord_config \<Rightarrow> leaders \<Rightarrow> nat \<Rightarrow> transaction_id \<Rightarrow> staged_mutation list \<Rightarrow> coordinator
      \<Rightarrow> (coord_error + unit) \<times> coordinator" where
  "coord_stage_batch cfg ld now tx ms s =
     (if ms = [] then (Inr (), s)
      else case stage_batch_scan cfg ld now tx ms [] 0 s of
        (Inl e, s1) \<Rightarrow> (Inl e, s1)
      | (Inr acc, s1) \<Rightarrow>
          (case active_by_id s1 tx of
             None \<Rightarrow> (Inl (TxNotFound tx), s1)
           | Some h \<Rightarrow>
               if \<not> is_open (h_state h) then (Inl (StateError tx (h_state h) ''stage writes in''), s1)
               else case ensure_bound_leadership_is_current cfg ld now tx h of
                 (Some e, h1) \<Rightarrow> (Inl e, mark_transaction_aborted now tx (upd_handle tx h1 s1))
               | (None, h1) \<Rightarrow>
                   if cfg_max_transaction_buffer_bytes cfg < sat_add (h_write_bytes h1) acc
                   then abort_over_limit cfg now tx h1 s1
                   else
                     (let ws = stage_all (cfg_base cfg) ms (write_set_or_new tx s1)
                      in (Inr (), upd_handle tx
                            (record_staged_write_batch now (set (map sm_table_id ms)) (affected_rows ws)
                               (buffer_bytes ws) h1)
                            (upd_write_set tx ws s1)))))"

section \<open>Commit\<close>

record side_effect_counts =
  notifications_sent :: nat
  manifest_updates :: nat
  publisher_events :: nat

record commit_result =
  cr_transaction_id :: transaction_id
  cr_affected_rows :: nat
  cr_committed_commit_seq :: "nat option"
  cr_side_effects :: side_effect_counts

datatype commit_progress =
    CommitDone commit_result
  | CommitPending execution_owner_key nat "staged_mutation list"

text \<open>The applier's answer: the commit sequence and side-effect counts of the response, or an error.\<close>

datatype applier_outcome = Applied "nat option" side_effect_counts | ApplyFailed string

definition no_side_effects :: side_effect_counts where
  "no_side_effects = \<lparr>notifications_sent = 0, manifest_updates = 0, publisher_events = 0\<rparr>"

definition commit_without_writes ::
    "coord_config \<Rightarrow> nat \<Rightarrow> transaction_id \<Rightarrow> execution_owner_key \<Rightarrow> coordinator
      \<Rightarrow> (coord_error + commit_progress) \<times> coordinator" where
  "commit_without_writes cfg now tx owner s =
     (let s1 = drop_owner owner s in
      case active_by_id s1 tx of
        None \<Rightarrow> (Inl (NotFoundDuringCommit tx), drop_staged_publishes tx s1)
      | Some _ \<Rightarrow>
          (case flush_staged_publishes cfg tx (release_primary_key_claims tx (drop_handle tx s1)) of
             (Some e, s2) \<Rightarrow> (Inl e, s2)
           | (None, s2) \<Rightarrow>
               (Inr (CommitDone \<lparr>cr_transaction_id = tx, cr_affected_rows = 0,
                  cr_committed_commit_seq = None, cr_side_effects = no_side_effects\<rparr>), s2)))"

definition commit_begin ::
    "coord_config \<Rightarrow> leaders \<Rightarrow> nat \<Rightarrow> transaction_id \<Rightarrow> coordinator
      \<Rightarrow> (coord_error + commit_progress) \<times> coordinator" where
  "commit_begin cfg ld now tx s =
     (case active_by_id s tx of
        None \<Rightarrow> (Inl (TxNotFound tx), s)
      | Some h \<Rightarrow>
          if \<not> is_open (h_state h) then (Inl (StateError tx (h_state h) ''commit''), s)
          else case ensure_bound_leadership_is_current cfg ld now tx h of
            (Some e, h1) \<Rightarrow> (Inl e, mark_transaction_aborted now tx (upd_handle tx h1 s))
          | (None, h1) \<Rightarrow>
              (let s1 = drop_write_set tx (upd_handle tx (mark_state now Committing h1) s) in
               case write_sets s tx of
                 None \<Rightarrow> commit_without_writes cfg now tx (h_owner_key h1) s1
               | Some ws \<Rightarrow>
                   if ordered_mutations ws = [] then commit_without_writes cfg now tx (h_owner_key h1) s1
                   else (Inr (CommitPending (h_owner_key h1) (affected_rows ws) (ordered_mutations ws)), s1)))"

definition commit_finish ::
    "coord_config \<Rightarrow> nat \<Rightarrow> transaction_id \<Rightarrow> execution_owner_key \<Rightarrow> nat \<Rightarrow> applier_outcome \<Rightarrow> coordinator
      \<Rightarrow> (coord_error + commit_result) \<times> coordinator" where
  "commit_finish cfg now tx owner rows outcome s =
     (case outcome of
        ApplyFailed msg \<Rightarrow>
          (let s1 = drop_handle tx (drop_owner owner s);
               s2 = drop_staged_publishes tx (release_primary_key_claims tx s1)
           in (Inl (CommitFailed tx msg), s2))
      | Applied seq_opt effects \<Rightarrow>
          (let s0 = release_primary_key_claims tx s in
           case seq_opt of
             None \<Rightarrow> (Inl (MissingCommitSeq tx), s0)
           | Some cseq \<Rightarrow>
               (let s1 = drop_owner owner s0 in
                case active_by_id s1 tx of
                  None \<Rightarrow> (Inl (NotFoundDuringCommit tx), s1)
                | Some h \<Rightarrow>
                    (let s2 = drop_handle tx s1;
                         s3 = (case h_raft_binding h of
                                 BoundCluster g _ \<Rightarrow> s2\<lparr>tracker := observe_committed g cseq (tracker s2)\<rparr>
                               | _ \<Rightarrow> s2)
                     in case flush_staged_publishes cfg tx s3 of
                          (Some e, s4) \<Rightarrow> (Inl e, s4)
                        | (None, s4) \<Rightarrow>
                            (Inr \<lparr>cr_transaction_id = tx, cr_affected_rows = rows,
                               cr_committed_commit_seq = Some cseq, cr_side_effects = effects\<rparr>, s4)))))"

text \<open>A commit whose two halves are not interleaved with other calls; \<open>apply_mutations\<close> is the applier.\<close>

definition coord_commit ::
    "coord_config \<Rightarrow> leaders \<Rightarrow> nat \<Rightarrow> (transaction_id \<Rightarrow> staged_mutation list \<Rightarrow> applier_outcome)
      \<Rightarrow> transaction_id \<Rightarrow> coordinator \<Rightarrow> (coord_error + commit_result) \<times> coordinator" where
  "coord_commit cfg ld now apply_mutations tx s =
     (case commit_begin cfg ld now tx s of
        (Inl e, s1) \<Rightarrow> (Inl e, s1)
      | (Inr (CommitDone r), s1) \<Rightarrow> (Inr r, s1)
      | (Inr (CommitPending owner rows ms), s1) \<Rightarrow>
          commit_finish cfg now tx owner rows (apply_mutations tx ms) s1)"

section \<open>Rollback\<close>

definition coord_rollback ::
    "nat \<Rightarrow> transaction_id \<Rightarrow> coordinator \<Rightarrow> (coord_error + unit) \<times> coordinator" where
  "coord_rollback now tx s =
     (case active_by_id s tx of
        None \<Rightarrow> (Inl (TxNotFound tx), s)
      | Some h \<Rightarrow>
          (let clean = (\<lambda>s'. drop_owner (h_owner_key h)
                 (drop_staged_publishes tx (release_primary_key_claims tx (drop_write_set tx s'))))
           in if h_state h \<in> {TimedOut, Aborted, RolledBack} then (Inr (), drop_handle tx (clean s))
              else if is_terminal (h_state h) then (Inl (StateError tx (h_state h) ''rollback''), s)
              else
                (let s1 = clean (upd_handle tx (mark_state now RollingBack h) s) in
                 case active_by_id s1 tx of
                   None \<Rightarrow> (Inl (NotFoundDuringRollback tx), s1)
                 | Some _ \<Rightarrow> (Inr (), drop_handle tx s1))))"

section \<open>Overlay access\<close>

definition get_overlay ::
    "overlay_entry list list \<Rightarrow> transaction_id \<Rightarrow> coordinator \<Rightarrow> transaction_overlay option" where
  "get_overlay ess tx s = map_option (merged_overlay ess) (write_sets s tx)"

definition get_table_overlay ::
    "transaction_id \<Rightarrow> table_id \<Rightarrow> coordinator \<Rightarrow> transaction_overlay option" where
  "get_table_overlay tx t s =
     (case write_sets s tx of None \<Rightarrow> None | Some ws \<Rightarrow> overlay_for_table ws t)"

definition shared_snapshot_is_frontier ::
    "coord_config \<Rightarrow> leaders \<Rightarrow> nat \<Rightarrow> transaction_id \<Rightarrow> table_id \<Rightarrow> coordinator
      \<Rightarrow> (coord_error + bool) \<times> coordinator" where
  "shared_snapshot_is_frontier cfg ld now tx t s =
     (case validate_table_access cfg ld now tx t Shared None s of
        (Inl e, s1) \<Rightarrow> (Inl e, s1)
      | (Inr _, s1) \<Rightarrow>
          (case (case active_by_id s1 tx of None \<Rightarrow> None | Some h \<Rightarrow> handle_snapshot_commit_seq h) of
             None \<Rightarrow> (Inr False, s1)
           | Some pinned \<Rightarrow>
               (case app_shared_group_id cfg t of
                  Inl e \<Rightarrow> (Inl e, s1)
                | Inr g \<Rightarrow> (Inr (frontier (tracker s1) g = pinned), s1))))"

definition active_for_owner :: "coordinator \<Rightarrow> execution_owner_key \<Rightarrow> transaction_id option" where
  "active_for_owner s k = active_by_owner s k"

record active_metric =
  am_transaction_id :: transaction_id
  am_owner_id :: string
  am_state :: transaction_state
  am_age_ms :: nat
  am_idle_ms :: nat
  am_write_count :: nat
  am_write_bytes :: nat
  am_touched_tables_count :: nat
  am_snapshot_commit_seq :: nat
  am_origin :: transaction_origin

definition metric_of :: "nat \<Rightarrow> transaction_handle \<Rightarrow> active_metric" where
  "metric_of now h =
     \<lparr>am_transaction_id = h_transaction_id h, am_owner_id = h_owner_id h, am_state = h_state h,
      am_age_ms = now - h_started_at h, am_idle_ms = now - h_last_activity_at h,
      am_write_count = h_write_count h, am_write_bytes = h_write_bytes h,
      am_touched_tables_count = card (h_touched_tables h),
      am_snapshot_commit_seq = (case handle_snapshot_commit_seq h of Some i \<Rightarrow> i | None \<Rightarrow> 0),
      am_origin = h_origin h\<rparr>"

text \<open>\<open>hs\<close> are the handles in the map's iteration order; the sort is stable, as \<open>sort_by\<close> is.\<close>

definition active_metrics :: "nat \<Rightarrow> transaction_handle list \<Rightarrow> active_metric list" where
  "active_metrics now hs =
     sort_key (\<lambda>m. (origin_as_str (am_origin m), am_transaction_id m))
       (map (metric_of now) (filter (\<lambda>h. \<not> is_terminal (h_state h)) hs))"

definition reject_ddl_in_transaction :: "transaction_id \<Rightarrow> coordinator \<Rightarrow> coord_error + unit" where
  "reject_ddl_in_transaction tx s =
     (case active_by_id s tx of
        Some h \<Rightarrow> if h_state h \<noteq> Committed \<and> h_state h \<noteq> RolledBack then Inl (DdlRejected tx) else Inr ()
      | None \<Rightarrow> Inr ())"

section \<open>Savepoints\<close>

definition coord_savepoint ::
    "nat \<Rightarrow> transaction_id \<Rightarrow> string \<Rightarrow> coordinator \<Rightarrow> (coord_error + unit) \<times> coordinator" where
  "coord_savepoint now tx name s =
     (case active_by_id s tx of
        None \<Rightarrow> (Inl (TxNotFound tx), s)
      | Some h \<Rightarrow>
          if \<not> is_open (h_state h) then (Inl (StateError tx (h_state h) ''savepoint''), s)
          else (Inr (), upd_write_set tx (push_savepoint name (write_set_or_new tx s))
                  (upd_handle tx (touch now h) s)))"

definition coord_release_savepoint ::
    "nat \<Rightarrow> transaction_id \<Rightarrow> string \<Rightarrow> coordinator \<Rightarrow> (coord_error + unit) \<times> coordinator" where
  "coord_release_savepoint now tx name s =
     (case active_by_id s tx of
        None \<Rightarrow> (Inl (TxNotFound tx), s)
      | Some h \<Rightarrow>
          if \<not> is_open (h_state h) then (Inl (StateError tx (h_state h) ''release savepoint''), s)
          else
            (let s1 = upd_handle tx (touch now h) s in
             case write_sets s1 tx of
               None \<Rightarrow> (Inl (SavepointMissing (trim name)), s1)
             | Some ws \<Rightarrow>
                 (case ws_release_savepoint name ws of
                    (True, ws1) \<Rightarrow> (Inr (), upd_write_set tx ws1 s1)
                  | (False, ws1) \<Rightarrow> (Inl (SavepointMissing (trim name)), upd_write_set tx ws1 s1))))"

definition coord_rollback_to_savepoint ::
    "coord_config \<Rightarrow> nat \<Rightarrow> transaction_id \<Rightarrow> string \<Rightarrow> coordinator \<Rightarrow> (coord_error + unit) \<times> coordinator" where
  "coord_rollback_to_savepoint cfg now tx name s =
     (case active_by_id s tx of
        None \<Rightarrow> (Inl (TxNotFound tx), s)
      | Some h \<Rightarrow>
          if h_state h \<notin> {OpenRead, OpenWrite, Aborted}
          then (Inl (StateError tx (h_state h) ''rollback to savepoint''), s)
          else case write_sets s tx of
            None \<Rightarrow> (Inl (SavepointMissing (trim name)), s)
          | Some ws \<Rightarrow>
              (case ws_rollback_to_savepoint (cfg_base cfg) name ws of
                 (None, ws1) \<Rightarrow> (Inl (SavepointMissing (trim name)), upd_write_set tx ws1 s)
               | (Some (count, bytes), ws1) \<Rightarrow>
                   (let h1 = h\<lparr>h_write_count := count, h_write_bytes := bytes,
                               h_has_write_set := (count > 0)\<rparr>;
                        h2 = mark_state now (if count > 0 then OpenWrite else OpenRead) h1
                    in (Inr (), upd_handle tx h2 (upd_write_set tx ws1 s)))))"

section \<open>Timeouts\<close>

definition timeout_duration_secs :: "coord_config \<Rightarrow> nat" where
  "timeout_duration_secs cfg = max (cfg_transaction_timeout_secs cfg) 1"

definition timeout_sweep_interval_secs :: "nat \<Rightarrow> nat" where
  "timeout_sweep_interval_secs timeout = min (max (max timeout 1 div 2) 1) 5"

definition timeout_transaction :: "nat \<Rightarrow> transaction_id \<Rightarrow> coordinator \<Rightarrow> coordinator" where
  "timeout_transaction now tx s =
     (case active_by_id s tx of
        None \<Rightarrow> s
      | Some h \<Rightarrow>
          if \<not> is_open (h_state h) then s
          else release_primary_key_claims tx (drop_write_set tx
                 (upd_handle tx (mark_state now TimedOut h) s)))"

text \<open>\<open>ids\<close> lists the keys of \<open>active_by_id\<close> in the map's iteration order.\<close>

definition expired :: "coord_config \<Rightarrow> nat \<Rightarrow> coordinator \<Rightarrow> transaction_id \<Rightarrow> bool" where
  "expired cfg now s tx =
     (case active_by_id s tx of
        None \<Rightarrow> False
      | Some h \<Rightarrow> is_open (h_state h) \<and> timeout_duration_secs cfg * 1000 \<le> now - h_last_activity_at h)"

definition sweep_timed_out_transactions ::
    "coord_config \<Rightarrow> nat \<Rightarrow> transaction_id list \<Rightarrow> coordinator \<Rightarrow> coordinator" where
  "sweep_timed_out_transactions cfg now ids s =
     fold (timeout_transaction now) (filter (expired cfg now s) ids) s"

end
