(* ===== verification/TxCoordinatorInv.thy ===== *)
theory TxCoordinatorInv
  imports TxCoordinator
begin

text \<open>
  The invariant of the transaction coordinator and one preservation lemma per operation: owner
  and handle maps agree, every handle matches its write set and the buffer limit, in a cluster
  every staged mutation is in the one Raft group the transaction is bound to, and snapshots stay
  within the bound group's frontier.
\<close>

section \<open>Invariant\<close>

text \<open>The write set of a handle: counters match the staged data, and the data fits the buffer limit.\<close>

definition writes_ok :: "coord_config \<Rightarrow> transaction_id \<Rightarrow> transaction_handle \<Rightarrow> write_set option \<Rightarrow> bool" where
  "writes_ok cfg tx h wso \<longleftrightarrow>
     (case wso of
        None \<Rightarrow> is_open (h_state h) \<longrightarrow> h_write_count h = 0 \<and> h_write_bytes h = 0
      | Some ws \<Rightarrow>
          (is_open (h_state h) \<or> h_state h = Aborted) \<and>
          ws_wf (cfg_base cfg) ws \<and> ws_transaction_id ws = tx \<and>
          h_write_count h = length (ordered_mutations ws) \<and> h_write_bytes h = buffer_bytes ws \<and>
          (cfg_max_transaction_buffer_bytes cfg < u64_max \<longrightarrow>
             buffer_bytes ws \<le> cfg_max_transaction_buffer_bytes cfg))"

text \<open>In a cluster every staged mutation belongs to the one Raft group the handle is bound to.\<close>

definition in_bound_group :: "coord_config \<Rightarrow> raft_binding \<Rightarrow> staged_mutation \<Rightarrow> bool" where
  "in_bound_group cfg binding m \<longleftrightarrow>
     cfg_cluster cfg = None \<or>
     (\<exists>g n. binding = BoundCluster g n \<and>
        resolve_group_id cfg (sm_table_id m) (sm_table_type m) (sm_user_id m) = Inr (Some g))"

definition binding_ok :: "coord_config \<Rightarrow> transaction_handle \<Rightarrow> write_set option \<Rightarrow> bool" where
  "binding_ok cfg h wso \<longleftrightarrow>
     (h_raft_binding h = LocalSingleNode \<longleftrightarrow> cfg_cluster cfg = None) \<and>
     (\<forall>ws. wso = Some ws \<longrightarrow> (\<forall>m\<in>set (ordered_mutations ws). in_bound_group cfg (h_raft_binding h) m))"

text \<open>In a cluster the snapshot is unset before binding and afterwards within the bound group's frontier.\<close>

definition snapshot_ok :: "commit_sequence_tracker \<Rightarrow> transaction_handle \<Rightarrow> bool" where
  "snapshot_ok tr h \<longleftrightarrow>
     (case h_raft_binding h of
        LocalSingleNode \<Rightarrow> True
      | UnboundCluster \<Rightarrow> h_snapshot_log_index h = snapshot_unset
      | BoundCluster g _ \<Rightarrow>
          h_snapshot_log_index h = snapshot_unset \<or> h_snapshot_log_index h \<le> frontier tr g)"

definition handle_ok ::
    "coord_config \<Rightarrow> commit_sequence_tracker \<Rightarrow> transaction_id \<Rightarrow> transaction_handle \<Rightarrow> write_set option \<Rightarrow> bool" where
  "handle_ok cfg tr tx h wso \<longleftrightarrow>
     h_transaction_id h = tx \<and> h_state h \<notin> {Committed, RollingBack, RolledBack} \<and>
     writes_ok cfg tx h wso \<and> binding_ok cfg h wso \<and> snapshot_ok tr h"

definition owners_wf :: "coordinator \<Rightarrow> bool" where
  "owners_wf s \<longleftrightarrow>
     (\<forall>k tx. active_by_owner s k = Some tx \<longleftrightarrow>
        (\<exists>h. active_by_id s tx = Some h \<and> h_owner_key h = k))"

definition coord_wf :: "coord_config \<Rightarrow> coordinator \<Rightarrow> bool" where
  "coord_wf cfg s \<longleftrightarrow>
     owners_wf s \<and>
     (\<forall>tx. active_by_id s tx = None \<longrightarrow> write_sets s tx = None) \<and>
     (\<forall>tx h. active_by_id s tx = Some h \<longrightarrow> handle_ok cfg (tracker s) tx h (write_sets s tx))"

lemmas coord_upd_defs = upd_handle_def drop_handle_def drop_owner_def upd_write_set_def drop_write_set_def
  release_primary_key_claims_def drop_staged_publishes_def

lemma coord_wf_handle:
  "coord_wf cfg s \<Longrightarrow> active_by_id s tx = Some h \<Longrightarrow> handle_ok cfg (tracker s) tx h (write_sets s tx)"
  by (simp add: coord_wf_def)

lemma coord_wf_cong:
  assumes "active_by_owner s' = active_by_owner s" "active_by_id s' = active_by_id s"
    "write_sets s' = write_sets s" "tracker s' = tracker s"
  shows "coord_wf cfg s' = coord_wf cfg s"
  using assms by (simp add: coord_wf_def owners_wf_def)

lemma coord_wf_new: "coord_wf cfg (coordinator_new tr)"
  by (simp add: coord_wf_def owners_wf_def coordinator_new_def)

text \<open>Replacing one handle and its write set, keeping the owner.\<close>

lemma coord_wf_update:
  assumes wf: "coord_wf cfg s" and h: "active_by_id s tx = Some h"
    and ok: "handle_ok cfg (tracker s) tx h' wso" and key: "h_owner_key h' = h_owner_key h"
  shows "coord_wf cfg (s\<lparr>active_by_id := (active_by_id s)(tx \<mapsto> h'), write_sets := (write_sets s)(tx := wso)\<rparr>)"
proof -
  have "active_by_owner s k = Some t \<longleftrightarrow>
      (\<exists>x. ((active_by_id s)(tx \<mapsto> h')) t = Some x \<and> h_owner_key x = k)" for k t
    using wf h key by (auto simp: coord_wf_def owners_wf_def)
  with wf ok show ?thesis
    by (auto simp: coord_wf_def owners_wf_def)
qed

lemma coord_wf_remove:
  assumes wf: "coord_wf cfg s" and h: "active_by_id s tx = Some h"
  shows "coord_wf cfg (s\<lparr>active_by_owner := (active_by_owner s)(h_owner_key h := None),
    active_by_id := (active_by_id s)(tx := None), write_sets := (write_sets s)(tx := None)\<rparr>)"
proof -
  have own: "active_by_owner s (h_owner_key h) = Some tx"
    using wf h by (auto simp: coord_wf_def owners_wf_def)
  have "((active_by_owner s)(h_owner_key h := None)) k = Some t \<longleftrightarrow>
      (\<exists>x. ((active_by_id s)(tx := None)) t = Some x \<and> h_owner_key x = k)" for k t
  proof -
    have "active_by_owner s k = Some t \<longleftrightarrow> (\<exists>x. active_by_id s t = Some x \<and> h_owner_key x = k)"
      using wf by (simp add: coord_wf_def owners_wf_def)
    with own h show ?thesis
      by (cases "k = h_owner_key h"; cases "t = tx") auto
  qed
  with wf show ?thesis
    by (auto simp: coord_wf_def owners_wf_def)
qed

text \<open>The same two facts for a state given by its components.\<close>

lemma coord_wf_update_state:
  assumes "coord_wf cfg s" "active_by_id s tx = Some h" "handle_ok cfg (tracker s) tx h' wso"
    "h_owner_key h' = h_owner_key h"
    and "active_by_owner s' = active_by_owner s" "active_by_id s' = (active_by_id s)(tx \<mapsto> h')"
    "write_sets s' = (write_sets s)(tx := wso)" "tracker s' = tracker s"
  shows "coord_wf cfg s'"
  using coord_wf_update [OF assms(1-4)] assms(5-8)
  by (subst coord_wf_cong [where s = "s\<lparr>active_by_id := (active_by_id s)(tx \<mapsto> h'), write_sets := (write_sets s)(tx := wso)\<rparr>"])
    simp_all

lemma coord_wf_remove_state:
  assumes "coord_wf cfg s" "active_by_id s tx = Some h"
    and "active_by_owner s' = (active_by_owner s)(h_owner_key h := None)"
    "active_by_id s' = (active_by_id s)(tx := None)" "write_sets s' = (write_sets s)(tx := None)"
    "tracker s' = tracker s"
  shows "coord_wf cfg s'"
  using coord_wf_remove [OF assms(1,2)] assms(3-6)
  by (subst coord_wf_cong [where s = "s\<lparr>active_by_owner := (active_by_owner s)(h_owner_key h := None),
    active_by_id := (active_by_id s)(tx := None), write_sets := (write_sets s)(tx := None)\<rparr>"])
    simp_all

lemma snapshot_ok_mono: "(\<And>g. frontier tr g \<le> frontier tr' g) \<Longrightarrow> snapshot_ok tr h \<Longrightarrow> snapshot_ok tr' h"
  by (auto simp: snapshot_ok_def split: raft_binding.splits intro: order_trans)

lemma coord_wf_tracker:
  assumes "coord_wf cfg s" "\<And>g. frontier (tracker s) g \<le> frontier tr g"
  shows "coord_wf cfg (s\<lparr>tracker := tr\<rparr>)"
  using assms snapshot_ok_mono [of "tracker s" tr]
  by (simp add: coord_wf_def owners_wf_def handle_ok_def)

section \<open>Preservation: table access\<close>

text \<open>
  What a successful table access may change: only the handle of the transaction, and there only
  the binding (from unbound to bound), the snapshot cell and the activity time.
\<close>

definition access_frame :: "transaction_id \<Rightarrow> transaction_handle \<Rightarrow> transaction_handle \<Rightarrow> bool" where
  "access_frame tx h h' \<longleftrightarrow>
     h_transaction_id h' = h_transaction_id h \<and> h_owner_key h' = h_owner_key h \<and>
     h_state h' = h_state h \<and> h_write_count h' = h_write_count h \<and> h_write_bytes h' = h_write_bytes h \<and>
     (h_raft_binding h' = h_raft_binding h \<or> h_raft_binding h = UnboundCluster) \<and>
     (h_snapshot_log_index h = snapshot_unset \<or> h_snapshot_log_index h' = h_snapshot_log_index h)"

lemma access_frame_refl [simp]: "access_frame tx h h"
  by (simp add: access_frame_def)

lemma access_frame_trans: "access_frame tx a b \<Longrightarrow> access_frame tx b c \<Longrightarrow> access_frame tx a c"
  by (auto simp: access_frame_def)

lemma bind_group_Inr:
  assumes "bind_group cfg ld tx t g h = Inr h'"
  shows "h' = h \<and> h_raft_binding h = LocalSingleNode \<or>
    (\<exists>n. h' = h\<lparr>h_raft_binding := BoundCluster g n\<rparr> \<and>
       (h_raft_binding h = UnboundCluster \<or> h_raft_binding h = BoundCluster g n))"
proof (cases "h_raft_binding h")
  case (BoundCluster bg n)
  then show ?thesis
    using assms by (cases h) (auto simp: bind_group_def split: if_splits)
qed (use assms in \<open>auto simp: bind_group_def split: option.splits\<close>)

lemma validate_table_access_Inl:
  "validate_table_access cfg ld now tx t ty u s = (Inl e, s') \<Longrightarrow> s' = s"
  by (auto simp: validate_table_access_def Let_def split: option.splits sum.splits if_splits)

lemma binding_ok_access:
  assumes "binding_ok cfg h wso" "h_raft_binding h' = h_raft_binding h \<or>
      (\<exists>g n. h_raft_binding h = UnboundCluster \<and> h_raft_binding h' = BoundCluster g n)"
  shows "binding_ok cfg h' wso"
  using assms by (fastforce simp: binding_ok_def in_bound_group_def)

lemma writes_ok_access: "writes_ok cfg tx h wso \<Longrightarrow> access_frame tx h h' \<Longrightarrow> writes_ok cfg tx h' wso"
  by (auto simp: writes_ok_def access_frame_def split: option.splits)

lemma handle_ok_cong:
  assumes "h_transaction_id h' = h_transaction_id h" "h_state h' = h_state h"
    "h_write_count h' = h_write_count h" "h_write_bytes h' = h_write_bytes h"
    "h_raft_binding h' = h_raft_binding h" "h_snapshot_log_index h' = h_snapshot_log_index h"
  shows "handle_ok cfg tr tx h' wso = handle_ok cfg tr tx h wso"
  using assms
  by (cases wso; cases "h_raft_binding h")
    (simp_all add: handle_ok_def writes_ok_def binding_ok_def snapshot_ok_def)

text \<open>The handle after binding to a group and pinning the snapshot.\<close>

definition accessed :: "nat \<Rightarrow> commit_sequence_tracker \<Rightarrow> group_id \<Rightarrow> transaction_handle \<Rightarrow> transaction_handle" where
  "accessed now tr g h =
     touch now (h\<lparr>h_snapshot_log_index := snd (pin_snapshot tr g (h_snapshot_log_index h))\<rparr>)"

lemma accessed_frame:
  assumes "bind_group cfg ld tx t g h = Inr h1"
  shows "access_frame tx h (accessed now tr g h1)"
  using bind_group_Inr [OF assms] by (auto simp: access_frame_def accessed_def touch_def pin_snapshot_def)

lemma accessed_ok:
  assumes "bind_group cfg ld tx t g h = Inr h1" "handle_ok cfg tr tx h wso"
  shows "handle_ok cfg tr tx (accessed now tr g h1) wso"
proof -
  have "h_raft_binding (accessed now tr g h1) = h_raft_binding h \<or>
      (\<exists>g' n. h_raft_binding h = UnboundCluster \<and> h_raft_binding (accessed now tr g h1) = BoundCluster g' n)"
    using bind_group_Inr [OF assms(1)] by (auto simp: accessed_def touch_def)
  then have "binding_ok cfg (accessed now tr g h1) wso"
    using assms(2) by (auto simp: handle_ok_def intro: binding_ok_access)
  moreover have "snapshot_ok tr (accessed now tr g h1)"
    using bind_group_Inr [OF assms(1)] assms(2)
    by (auto simp: handle_ok_def snapshot_ok_def accessed_def touch_def pin_snapshot_def)
  moreover have "writes_ok cfg tx (accessed now tr g h1) wso"
    using assms accessed_frame [OF assms(1)] by (auto simp: handle_ok_def intro: writes_ok_access)
  ultimately show ?thesis
    using assms(2) accessed_frame [OF assms(1), of now tr] by (simp add: handle_ok_def access_frame_def)
qed

lemma accessed_bound:
  assumes "bind_group cfg ld tx t g h = Inr h1" "handle_ok cfg tr tx h wso" "cfg_cluster cfg \<noteq> None"
  shows "\<exists>n. h_raft_binding (accessed now tr g h1) = BoundCluster g n"
  using bind_group_Inr [OF assms(1)] assms(2,3)
  by (auto simp: handle_ok_def binding_ok_def accessed_def touch_def)

lemma coord_wf_upd_handle:
  assumes "coord_wf cfg s" "active_by_id s tx = Some h"
    "handle_ok cfg (tracker s) tx h' (write_sets s tx)" "h_owner_key h' = h_owner_key h"
  shows "coord_wf cfg (upd_handle tx h' s)"
  using coord_wf_update [OF assms] by (simp add: upd_handle_def)

text \<open>A successful access binds the transaction to the table's group and keeps the invariant.\<close>

lemma validate_table_access_Inr:
  assumes ok: "validate_table_access cfg ld now tx t ty u s = (Inr v, s')"
    and wf: "coord_wf cfg s"
  obtains h h' where "active_by_id s tx = Some h" "is_open (h_state h)" "s' = upd_handle tx h' s"
    "access_frame tx h h'" "coord_wf cfg s'"
    "cfg_cluster cfg = None \<or> (\<forall>g. resolve_group_id cfg t ty u = Inr (Some g) \<longrightarrow>
       (\<exists>n. h_raft_binding h' = BoundCluster g n))"
proof -
  obtain h go where h: "active_by_id s tx = Some h" "is_open (h_state h)"
    and go: "resolve_group_id cfg t ty u = Inr go"
    using ok by (auto simp: validate_table_access_def split: option.splits if_splits sum.splits)
  have hok: "handle_ok cfg (tracker s) tx h (write_sets s tx)"
    using wf h(1) by (rule coord_wf_handle)
  show thesis
  proof (cases go)
    case None
    have "handle_ok cfg (tracker s) tx (touch now h) (write_sets s tx)"
      using hok by (subst handle_ok_cong [of _ h]) (simp_all add: touch_def)
    then have "coord_wf cfg (upd_handle tx (touch now h) s)"
      using wf h(1) by (intro coord_wf_upd_handle) (simp_all add: touch_def)
    with ok h go None show thesis
      by (intro that [of h "touch now h"])
        (simp_all add: validate_table_access_def access_frame_def touch_def)
  next
    case (Some g)
    then obtain h1 where h1: "bind_group cfg ld tx t g h = Inr h1"
      using ok h go by (auto simp: validate_table_access_def split: sum.splits)
    let ?h' = "accessed now (tracker s) g h1"
    have s': "s' = upd_handle tx ?h' s"
      using ok h go Some h1 by (simp add: validate_table_access_def Let_def accessed_def)
    have "coord_wf cfg (upd_handle tx ?h' s)"
      using wf h(1) accessed_ok [OF h1 hok] accessed_frame [OF h1]
      by (intro coord_wf_upd_handle) (simp_all add: access_frame_def)
    with h go Some s' accessed_frame [OF h1] accessed_bound [OF h1 hok, of now] show thesis
      by (intro that [of h ?h']) (auto simp del: not_None_eq)
  qed
qed

section \<open>Preservation: staging\<close>

lemma mark_state_simps [simp]:
  "h_owner_key (mark_state now st h) = h_owner_key h"
  "h_transaction_id (mark_state now st h) = h_transaction_id h"
  "h_state (mark_state now st h) = st"
  "h_raft_binding (mark_state now st h) = h_raft_binding h"
  by (simp_all add: mark_state_def)

lemma ensure_leadership_cases:
  assumes "ensure_bound_leadership_is_current cfg ld now tx h = (eo, h1)"
  shows "eo = None \<and> h1 = h \<or> (\<exists>e. eo = Some e \<and> h1 = mark_state now Aborted h)"
  using assms by (auto simp: ensure_bound_leadership_is_current_def split: raft_binding.splits if_splits)

lemma handle_ok_aborted:
  "is_open (h_state h) \<Longrightarrow> handle_ok cfg tr tx h wso \<Longrightarrow> handle_ok cfg tr tx (mark_state now Aborted h) wso"
  by (cases wso; cases "h_raft_binding h")
    (auto simp: handle_ok_def writes_ok_def binding_ok_def snapshot_ok_def mark_state_def)

lemma handle_ok_closed:
  "st \<in> {Committing, Aborted, TimedOut} \<Longrightarrow> handle_ok cfg tr tx h wso \<Longrightarrow>
     handle_ok cfg tr tx (mark_state now st h) None"
  by (cases "h_raft_binding h")
    (auto simp: handle_ok_def writes_ok_def binding_ok_def snapshot_ok_def mark_state_def)

lemma mark_aborted_twice:
  "mark_transaction_aborted now tx (upd_handle tx (mark_state now Aborted h) s) =
     upd_handle tx (mark_state now Aborted h) s"
  by (simp add: mark_transaction_aborted_def upd_handle_def mark_state_def)

lemma coord_wf_leader_abort:
  assumes "coord_wf cfg s" "active_by_id s tx = Some h" "is_open (h_state h)"
  shows "coord_wf cfg (mark_transaction_aborted now tx (upd_handle tx (mark_state now Aborted h) s))"
  unfolding mark_aborted_twice
  using assms coord_wf_handle [OF assms(1,2)]
  by (intro coord_wf_upd_handle) (auto intro: handle_ok_aborted)

lemma coord_wf_abort_over_limit:
  assumes "coord_wf cfg s" "active_by_id s tx = Some h"
  shows "coord_wf cfg (snd (abort_over_limit cfg now tx h s))"
proof -
  have "handle_ok cfg (tracker s) tx (mark_state now Aborted h) None"
    using coord_wf_handle [OF assms] by (auto intro: handle_ok_closed)
  then show ?thesis
    by (rule coord_wf_update_state [OF assms]) (simp_all add: abort_over_limit_def Let_def coord_upd_defs)
qed

lemma stage_all_snoc:
  "stage_all base (ms @ [m]) ws = snd (ws_stage base m (stage_all base ms ws))"
  by (simp add: stage_all_def ws_stage_def)

lemma stage_all_facts:
  assumes "ws_wf base ws"
  shows "ws_wf base (stage_all base ms ws)"
    and "ws_transaction_id (stage_all base ms ws) = ws_transaction_id ws"
    and "buffer_bytes (stage_all base ms ws) = buffer_bytes ws + bytes_of base ms"
    and "\<forall>m'\<in>set (ordered_mutations (stage_all base ms ws)). m' \<in> set (ordered_mutations ws) \<or>
      (\<exists>m\<in>set ms. \<exists>i. m' = m\<lparr>sm_mutation_order := i\<rparr>)"
proof (induction ms rule: rev_induct)
  case Nil
  {
    case 1
    then show ?case using assms by (simp add: stage_all_def)
  next
    case 2
    then show ?case by (simp add: stage_all_def)
  next
    case 3
    then show ?case by (simp add: stage_all_def bytes_of_def)
  next
    case 4
    then show ?case by (simp add: stage_all_def)
  }
next
  case (snoc m ms)
  {
    case 1
    then show ?case using snoc(1) by (simp add: stage_all_snoc ws_wf_stage)
  next
    case 2
    then show ?case
      using snoc(2) by (simp add: stage_all_snoc ws_stage_def stage_with_estimated_size_def index_mutation_def Let_def)
  next
    case 3
    then show ?case
      using snoc(3) by (simp add: stage_all_snoc ws_stage_def stage_with_estimated_size_def index_mutation_def Let_def)
  next
    case 4
    then show ?case
      using snoc(4)
      by (fastforce simp: stage_all_snoc ws_stage_def stage_with_estimated_size_def index_mutation_def Let_def)
  }
qed

lemma in_bound_group_order [simp]:
  "in_bound_group cfg b (m\<lparr>sm_mutation_order := i\<rparr>) = in_bound_group cfg b m"
  by (simp add: in_bound_group_def)

lemma sat_add_bound:
  "mx < u64_max \<Longrightarrow> sat_add a (min b u64_max) \<le> mx \<Longrightarrow> a + b \<le> mx"
  by (auto simp: sat_add_def min_def split: if_splits)

text \<open>Staging a list of mutations of the bound group within the limit keeps the handle's invariant.\<close>

lemma handle_ok_stage:
  assumes ok: "handle_ok cfg tr tx h wso" and op: "is_open (h_state h)"
    and ws: "ws = (case wso of Some w \<Rightarrow> w | None \<Rightarrow> ws_new tx)"
    and grp: "\<forall>m\<in>set ms. in_bound_group cfg (h_raft_binding h) m"
    and lim: "sat_add (h_write_bytes h) (min (bytes_of (cfg_base cfg) ms) u64_max)
      \<le> cfg_max_transaction_buffer_bytes cfg"
  defines "ws' \<equiv> stage_all (cfg_base cfg) ms ws"
  shows "handle_ok cfg tr tx
    (record_staged_write_batch now ts (affected_rows ws') (buffer_bytes ws') h) (Some ws')"
proof -
  have wf: "ws_wf (cfg_base cfg) ws" and wtx: "ws_transaction_id ws = tx"
    and bytes: "h_write_bytes h = buffer_bytes ws"
    and old: "\<forall>m\<in>set (ordered_mutations ws). in_bound_group cfg (h_raft_binding h) m"
    using ok op ws by (auto simp: handle_ok_def writes_ok_def binding_ok_def split: option.splits)
  note facts = stage_all_facts [OF wf, of ms]
  have "cfg_max_transaction_buffer_bytes cfg < u64_max \<Longrightarrow>
      buffer_bytes ws' \<le> cfg_max_transaction_buffer_bytes cfg"
    using sat_add_bound [OF _ lim] facts(3) bytes by (simp add: ws'_def)
  moreover have "\<forall>m\<in>set (ordered_mutations ws'). in_bound_group cfg (h_raft_binding h) m"
    using facts(4) old grp by (force simp: ws'_def)
  ultimately show ?thesis
    using ok facts(1,2) wtx
    by (cases "h_raft_binding h")
      (auto simp: handle_ok_def writes_ok_def binding_ok_def snapshot_ok_def record_staged_write_batch_def
        affected_rows_def ws'_def)
qed

lemma resolve_writable:
  assumes "check_mutation tx m = None"
    and "validate_table_access cfg ld now tx (sm_table_id m) (sm_table_type m) (sm_user_id m) s = (Inr v, s')"
  shows "\<exists>g. resolve_group_id cfg (sm_table_id m) (sm_table_type m) (sm_user_id m) = Inr (Some g)"
proof -
  have "sm_table_type m = User \<or> sm_table_type m = Shared"
    using assms(1) by (cases "sm_table_type m") (auto simp: check_mutation_def split: if_splits)
  then show ?thesis
    using assms(2)
    by (auto simp: validate_table_access_def resolve_group_id_def split: option.splits sum.splits if_splits)
qed

lemma upd_handle_simps [simp]:
  "active_by_id (upd_handle tx h s) = (active_by_id s)(tx \<mapsto> h)"
  "write_sets (upd_handle tx h s) = write_sets s"
  "tracker (upd_handle tx h s) = tracker s"
  "active_by_owner (upd_handle tx h s) = active_by_owner s"
  by (simp_all add: upd_handle_def)

lemma cleanup_simps [simp]:
  "active_by_id (drop_owner k s) = active_by_id s"
  "active_by_id (release_primary_key_claims tx s) = active_by_id s"
  "active_by_id (drop_write_set tx s) = active_by_id s"
  "active_by_id (drop_staged_publishes tx s) = active_by_id s"
  "active_by_id (drop_handle tx s) = (active_by_id s)(tx := None)"
  "active_by_id (upd_write_set tx ws s) = active_by_id s"
  "write_sets (drop_owner k s) = write_sets s"
  "write_sets (release_primary_key_claims tx s) = write_sets s"
  "write_sets (drop_write_set tx s) = (write_sets s)(tx := None)"
  "write_sets (drop_staged_publishes tx s) = write_sets s"
  "write_sets (drop_handle tx s) = write_sets s"
  "write_sets (upd_write_set tx ws s) = (write_sets s)(tx \<mapsto> ws)"
  "active_by_owner (drop_owner k s) = (active_by_owner s)(k := None)"
  "active_by_owner (release_primary_key_claims tx s) = active_by_owner s"
  "active_by_owner (drop_write_set tx s) = active_by_owner s"
  "active_by_owner (drop_staged_publishes tx s) = active_by_owner s"
  "active_by_owner (drop_handle tx s) = active_by_owner s"
  "active_by_owner (upd_write_set tx ws s) = active_by_owner s"
  "tracker (drop_owner k s) = tracker s" "tracker (release_primary_key_claims tx s) = tracker s"
  "tracker (drop_write_set tx s) = tracker s" "tracker (drop_staged_publishes tx s) = tracker s"
  "tracker (drop_handle tx s) = tracker s" "tracker (upd_write_set tx ws s) = tracker s"
  by (simp_all add: coord_upd_defs)

text \<open>A validated mutation is in the group its transaction is then bound to.\<close>

lemma validated_mutation:
  assumes chk: "check_mutation tx m = None"
    and v: "validate_table_access cfg ld now tx (sm_table_id m) (sm_table_type m) (sm_user_id m) s = (Inr u, s1)"
    and wf: "coord_wf cfg s"
  obtains h h1 where "active_by_id s tx = Some h" "is_open (h_state h1)" "active_by_id s1 tx = Some h1"
    "access_frame tx h h1" "coord_wf cfg s1" "in_bound_group cfg (h_raft_binding h1) m"
proof -
  obtain h h1 where h: "active_by_id s tx = Some h" "is_open (h_state h)" "s1 = upd_handle tx h1 s"
      "access_frame tx h h1" "coord_wf cfg s1"
    and bound: "cfg_cluster cfg = None \<or>
        (\<forall>g. resolve_group_id cfg (sm_table_id m) (sm_table_type m) (sm_user_id m) = Inr (Some g) \<longrightarrow>
           (\<exists>n. h_raft_binding h1 = BoundCluster g n))"
    using validate_table_access_Inr [OF v wf] by metis
  have "in_bound_group cfg (h_raft_binding h1) m"
    using resolve_writable [OF chk v] bound by (auto simp: in_bound_group_def)
  with h show thesis
    by (intro that [of h h1]) (auto simp: access_frame_def)
qed

text \<open>The common tail of \<open>stage\<close> and \<open>stage_batch\<close>, once validation has succeeded.\<close>

lemma coord_wf_stage_tail:
  assumes wf: "coord_wf cfg s" and h: "active_by_id s tx = Some h" "is_open (h_state h)"
    and grp: "\<forall>m\<in>set ms. in_bound_group cfg (h_raft_binding h) m"
    and lim: "sat_add (h_write_bytes h) (min (bytes_of (cfg_base cfg) ms) u64_max)
      \<le> cfg_max_transaction_buffer_bytes cfg"
    and ws: "ws = stage_all (cfg_base cfg) ms (write_set_or_new tx s)"
  shows "coord_wf cfg (upd_handle tx (record_staged_write_batch now ts (affected_rows ws) (buffer_bytes ws) h)
    (upd_write_set tx ws s))"
proof -
  have "handle_ok cfg (tracker s) tx
      (record_staged_write_batch now ts (affected_rows ws) (buffer_bytes ws) h) (Some ws)"
    unfolding ws
    by (rule handle_ok_stage [OF coord_wf_handle [OF wf h(1)] h(2) _ grp lim])
      (simp add: write_set_or_new_def)
  then show ?thesis
    by (rule coord_wf_update_state [OF wf h(1)])
      (simp_all add: record_staged_write_batch_def upd_write_set_def)
qed

lemma record_staged_write_batch_single:
  "record_staged_write now t c b h = record_staged_write_batch now {t} c b h"
  by (simp add: record_staged_write_def record_staged_write_batch_def)

lemma stage_all_single: "snd (stage_with_estimated_size m (approximate_size_bytes base m) ws) = stage_all base [m] ws"
  by (simp add: stage_all_def)

lemma coord_wf_stage:
  assumes wf: "coord_wf cfg s"
  shows "coord_wf cfg (snd (coord_stage cfg ld now tx m s))"
proof (cases "check_mutation tx m")
  case (Some e)
  with wf show ?thesis
    by (simp add: coord_stage_def)
next
  case chk: None
  obtain r s1 where v: "validate_table_access cfg ld now tx (sm_table_id m) (sm_table_type m) (sm_user_id m) s = (r, s1)"
    by fastforce
  show ?thesis
  proof (cases r)
    case (Inl e)
    with v chk wf validate_table_access_Inl show ?thesis
      by (fastforce simp: coord_stage_def Let_def)
  next
    case (Inr u)
    note v' = v [unfolded Inr]
    obtain h h' where act: "active_by_id s1 tx = Some h'" "is_open (h_state h')" and wf1: "coord_wf cfg s1"
      and m: "in_bound_group cfg (h_raft_binding h') m"
      using validated_mutation [OF chk v' wf] by metis
    have grp: "\<forall>x\<in>set [m]. in_bound_group cfg (h_raft_binding h') x"
      using m by simp
    obtain eo h1 where en: "ensure_bound_leadership_is_current cfg ld now tx h' = (eo, h1)"
      by fastforce
    have lim: "min (bytes_of (cfg_base cfg) [m]) u64_max = min (approximate_size_bytes (cfg_base cfg) m) u64_max"
      by (simp add: bytes_of_def)
    have sat: "sat_add a (min b u64_max) = sat_add a b" for a b
      by (auto simp: sat_add_def min_def)
    show ?thesis
      using ensure_leadership_cases [OF en] chk v' act en wf1
        coord_wf_leader_abort [OF wf1 act] coord_wf_abort_over_limit [OF wf1 act(1)]
        coord_wf_stage_tail [OF wf1 act grp, unfolded lim sat]
      by (auto simp: coord_stage_def Let_def record_staged_write_batch_single stage_all_single not_less)
  qed
qed

lemma in_bound_group_frame:
  "in_bound_group cfg (h_raft_binding h) m \<Longrightarrow> access_frame tx h h' \<Longrightarrow> in_bound_group cfg (h_raft_binding h') m"
  by (auto simp: in_bound_group_def access_frame_def)

text \<open>The validation loop: sizes add up with saturation, and every mutation is in the bound group.\<close>

lemma stage_batch_scan_Inr:
  assumes "stage_batch_scan cfg ld now tx ms seen acc s = (Inr n, s')"
    and "coord_wf cfg s" "active_by_id s tx = Some h" "is_open (h_state h)" "acc \<le> u64_max"
    and "\<forall>m. (sm_table_id m, sm_table_type m, sm_user_id m) \<in> set seen \<longrightarrow>
      in_bound_group cfg (h_raft_binding h) m"
  shows "\<exists>h'. coord_wf cfg s' \<and> active_by_id s' tx = Some h' \<and> access_frame tx h h' \<and>
    (\<forall>m\<in>set ms. in_bound_group cfg (h_raft_binding h') m) \<and>
    n = min (acc + bytes_of (cfg_base cfg) ms) u64_max"
  using assms
proof (induction cfg ld now tx ms seen acc s arbitrary: h rule: stage_batch_scan.induct)
  case (1 cfg ld now tx seen acc s)
  then show ?case
    by (auto simp: bytes_of_def)
next
  case (2 cfg ld now tx m ms seen acc s)
  let ?acc = "sat_add acc (approximate_size_bytes (cfg_base cfg) m)"
  let ?target = "(sm_table_id m, sm_table_type m, sm_user_id m)"
  have chk: "check_mutation tx m = None"
    using "2.prems"(1) by (auto split: option.splits)
  have acc: "?acc \<le> u64_max" "min (?acc + bytes_of (cfg_base cfg) ms) u64_max =
      min (acc + bytes_of (cfg_base cfg) (m # ms)) u64_max"
    by (auto simp: sat_add_def bytes_of_def min_def)
  show ?case
  proof (cases "?target \<in> set seen")
    case True
    then obtain h' where h': "coord_wf cfg s'" "active_by_id s' tx = Some h'" "access_frame tx h h'"
      "\<forall>m\<in>set ms. in_bound_group cfg (h_raft_binding h') m" "n = min (?acc + bytes_of (cfg_base cfg) ms) u64_max"
      using "2.IH"(1) [OF chk refl refl True] "2.prems" acc chk by (auto simp: Let_def)
    moreover have "in_bound_group cfg (h_raft_binding h') m"
      using "2.prems"(6) True in_bound_group_frame [OF _ h'(3)] by simp
    ultimately show ?thesis
      using acc by auto
  next
    case False
    then obtain u s1 where v: "validate_table_access cfg ld now tx (sm_table_id m) (sm_table_type m) (sm_user_id m) s = (Inr u, s1)"
      using "2.prems"(1) chk by (auto simp: Let_def split: prod.splits sum.splits)
    obtain h0 h1 where h0: "active_by_id s tx = Some h0"
      and act: "active_by_id s1 tx = Some h1" "is_open (h_state h1)"
      and fr0: "access_frame tx h0 h1" and wf1: "coord_wf cfg s1"
      and m_in: "in_bound_group cfg (h_raft_binding h1) m"
      using validated_mutation [OF chk v "2.prems"(2)] by metis
    have fr: "access_frame tx h h1"
      using fr0 h0 "2.prems"(3) by simp
    have seen: "\<forall>x. (sm_table_id x, sm_table_type x, sm_user_id x) \<in> set (?target # seen) \<longrightarrow>
        in_bound_group cfg (h_raft_binding h1) x"
      using m_in "2.prems"(6) in_bound_group_frame [OF _ fr] by (auto simp: in_bound_group_def)
    have run: "stage_batch_scan cfg ld now tx ms (?target # seen) ?acc s1 = (Inr n, s')"
      using "2.prems"(1) chk False v by (simp add: Let_def)
    obtain h' where h': "coord_wf cfg s'" "active_by_id s' tx = Some h'" "access_frame tx h1 h'"
      "\<forall>m\<in>set ms. in_bound_group cfg (h_raft_binding h') m" "n = min (?acc + bytes_of (cfg_base cfg) ms) u64_max"
      using "2.IH"(2) [OF chk refl refl False v [symmetric] refl run wf1 act acc(1) seen] by blast
    then have "in_bound_group cfg (h_raft_binding h') m"
      using m_in in_bound_group_frame [OF _ h'(3)] by simp
    with h' access_frame_trans [OF fr h'(3)] acc(2) show ?thesis
      by auto
  qed
qed

text \<open>A failed validation loop has only run successful table accesses.\<close>

lemma stage_batch_scan_wf:
  "coord_wf cfg s \<Longrightarrow> coord_wf cfg (snd (stage_batch_scan cfg ld now tx ms seen acc s))"
proof (induction cfg ld now tx ms seen acc s rule: stage_batch_scan.induct)
  case (2 cfg ld now tx m ms seen acc s)
  let ?v = "validate_table_access cfg ld now tx (sm_table_id m) (sm_table_type m) (sm_user_id m) s"
  have "coord_wf cfg s1" if v: "?v = (r, s1)" for r s1
  proof (cases r)
    case (Inl e)
    then show ?thesis
      using v validate_table_access_Inl "2.prems" by fastforce
  next
    case (Inr u)
    then show ?thesis
      using v by (auto elim: validate_table_access_Inr [OF _ "2.prems"])
  qed
  with 2 show ?case
    by (auto simp: Let_def split: option.splits prod.splits sum.splits)
qed simp

lemma coord_wf_stage_batch:
  assumes wf: "coord_wf cfg s"
  shows "coord_wf cfg (snd (coord_stage_batch cfg ld now tx ms s))"
proof (cases ms)
  case Nil
  with wf show ?thesis
    by (simp add: coord_stage_batch_def)
next
  case (Cons m0 ms0)
  obtain r s1 where sc: "stage_batch_scan cfg ld now tx ms [] 0 s = (r, s1)"
    by fastforce
  have wf1: "coord_wf cfg s1"
    using stage_batch_scan_wf [OF wf, of ld now tx ms "[]" 0] sc by simp
  show ?thesis
  proof (cases r)
    case (Inl e)
    with sc wf1 Cons show ?thesis
      by (simp add: coord_stage_batch_def)
  next
    case (Inr n)
    obtain h where h: "active_by_id s tx = Some h" "is_open (h_state h)"
      using sc Inr Cons
      by (auto simp: Let_def validate_table_access_def split: option.splits prod.splits sum.splits if_splits)
    obtain h' where act: "active_by_id s1 tx = Some h'" and fr: "access_frame tx h h'"
      and grp: "\<forall>m\<in>set ms. in_bound_group cfg (h_raft_binding h') m"
      and n: "n = min (bytes_of (cfg_base cfg) ms) u64_max"
      using stage_batch_scan_Inr [OF sc [unfolded Inr] wf h] by auto
    have op: "is_open (h_state h')"
      using h(2) fr by (simp add: access_frame_def)
    obtain eo h1 where en: "ensure_bound_leadership_is_current cfg ld now tx h' = (eo, h1)"
      by fastforce
    show ?thesis
      using ensure_leadership_cases [OF en] sc Inr act op en Cons n
        coord_wf_leader_abort [OF wf1 act op] coord_wf_abort_over_limit [OF wf1 act]
        coord_wf_stage_tail [OF wf1 act op grp]
      by (auto simp: coord_stage_batch_def Let_def not_less)
  qed
qed

section \<open>Preservation: commit, rollback, savepoints, timeouts and begin\<close>

lemma flush_frame:
  assumes "flush_staged_publishes cfg tx s = (eo, s')"
  shows "active_by_owner s' = active_by_owner s" "active_by_id s' = active_by_id s"
    "write_sets s' = write_sets s" "tracker s' = tracker s"
  using assms by (auto simp: flush_staged_publishes_def Let_def split: prod.splits)

lemma coord_wf_flush: "coord_wf cfg s \<Longrightarrow> coord_wf cfg (snd (flush_staged_publishes cfg' tx s))"
  using flush_frame [of cfg' tx s] coord_wf_cong [of "snd (flush_staged_publishes cfg' tx s)" s cfg]
  by (metis prod.collapse)

lemma coord_wf_sealing:
  assumes "coord_wf cfg s" "active_by_id s tx = Some h"
  shows "coord_wf cfg (drop_write_set tx (upd_handle tx (mark_state now Committing h) s))"
proof -
  have "handle_ok cfg (tracker s) tx (mark_state now Committing h) None"
    using coord_wf_handle [OF assms] by (auto intro: handle_ok_closed)
  then show ?thesis
    by (rule coord_wf_update_state [OF assms]) (simp_all add: coord_upd_defs)
qed

lemma coord_wf_commit_without_writes:
  assumes "coord_wf cfg s" "active_by_id s tx = Some h" "write_sets s tx = None"
  shows "coord_wf cfg (snd (commit_without_writes cfg' now tx (h_owner_key h) s))"
proof -
  have "coord_wf cfg (release_primary_key_claims tx (drop_handle tx (drop_owner (h_owner_key h) s)))"
    using assms by (intro coord_wf_remove_state [OF assms(1,2)]) (auto simp: coord_upd_defs)
  from coord_wf_flush [OF this, of cfg' tx] show ?thesis
    using assms(2)
    by (auto simp: commit_without_writes_def Let_def drop_owner_def split: prod.splits option.splits)
qed

lemma coord_wf_commit_begin:
  assumes wf: "coord_wf cfg s"
  shows "coord_wf cfg (snd (commit_begin cfg ld now tx s))"
proof (cases "active_by_id s tx")
  case None
  with wf show ?thesis
    by (simp add: commit_begin_def)
next
  case (Some h)
  obtain eo h1 where en: "ensure_bound_leadership_is_current cfg ld now tx h = (eo, h1)"
    by fastforce
  let ?s1 = "drop_write_set tx (upd_handle tx (mark_state now Committing h) s)"
  have act1: "active_by_id ?s1 tx = Some (mark_state now Committing h)" "write_sets ?s1 tx = None"
    by (simp_all add: drop_write_set_def)
  show ?thesis
    using ensure_leadership_cases [OF en] en Some wf coord_wf_leader_abort [OF wf Some]
      coord_wf_sealing [OF wf Some]
      coord_wf_commit_without_writes [OF coord_wf_sealing [OF wf Some] act1]
    by (auto simp: commit_begin_def Let_def split: option.splits)
qed

lemma coord_wf_claims [simp]: "coord_wf cfg (release_primary_key_claims tx s) = coord_wf cfg s"
  by (rule coord_wf_cong) (simp_all add: release_primary_key_claims_def)

lemma coord_wf_observe:
  "coord_wf cfg s \<Longrightarrow> tr = tracker s \<Longrightarrow> coord_wf cfg (s\<lparr>tracker := observe_committed g i tr\<rparr>)"
  by (rule coord_wf_tracker) (auto simp: frontier_observe)

lemma coord_wf_commit_finish:
  assumes wf: "coord_wf cfg s" and h: "active_by_id s tx = Some h" and ws: "write_sets s tx = None"
  shows "coord_wf cfg (snd (commit_finish cfg' now tx (h_owner_key h) rows outcome s))"
proof (cases outcome)
  case (ApplyFailed msg)
  have "coord_wf cfg (drop_staged_publishes tx (release_primary_key_claims tx
      (drop_handle tx (drop_owner (h_owner_key h) s))))"
    using ws by (intro coord_wf_remove_state [OF wf h]) (auto simp: coord_upd_defs)
  with ApplyFailed show ?thesis
    by (simp add: commit_finish_def Let_def)
next
  case (Applied seq_opt effects)
  show ?thesis
  proof (cases seq_opt)
    case None
    with Applied wf show ?thesis
      by (simp add: commit_finish_def Let_def)
  next
    case (Some cseq)
    let ?s2 = "drop_handle tx (drop_owner (h_owner_key h) (release_primary_key_claims tx s))"
    let ?s3 = "case h_raft_binding h of
        BoundCluster g _ \<Rightarrow> ?s2\<lparr>tracker := observe_committed g cseq (tracker ?s2)\<rparr> | _ \<Rightarrow> ?s2"
    have "coord_wf cfg ?s2"
      using ws by (intro coord_wf_remove_state [OF wf h]) (auto simp: coord_upd_defs)
    then have "coord_wf cfg ?s3"
      by (auto split: raft_binding.split intro: coord_wf_observe)
    from coord_wf_flush [OF this, of cfg' tx] show ?thesis
      using Applied Some h
      by (auto simp: commit_finish_def Let_def split: prod.splits option.splits)
  qed
qed

lemma commit_begin_pending:
  assumes "commit_begin cfg ld now tx s = (Inr (CommitPending owner rows ms), s1)"
  obtains h ws where "active_by_id s tx = Some h" "is_open (h_state h)" "h_owner_key h = owner"
    "write_sets s tx = Some ws" "ordered_mutations ws = ms" "ms \<noteq> []" "rows = length ms"
    "s1 = drop_write_set tx (upd_handle tx (mark_state now Committing h) s)"
proof -
  obtain h where h: "active_by_id s tx = Some h"
    using assms by (auto simp: commit_begin_def split: option.splits)
  obtain eo h1 where en: "ensure_bound_leadership_is_current cfg ld now tx h = (eo, h1)"
    by fastforce
  show thesis
    using assms h en ensure_leadership_cases [OF en]
    by (auto simp: commit_begin_def Let_def commit_without_writes_def affected_rows_def
        split: option.splits if_splits prod.splits intro!: that)
qed

lemma coord_wf_commit:
  assumes wf: "coord_wf cfg s"
  shows "coord_wf cfg (snd (coord_commit cfg ld now apply_mutations tx s))"
proof -
  obtain r s1 where cb: "commit_begin cfg ld now tx s = (r, s1)"
    by fastforce
  have wf1: "coord_wf cfg s1"
    using coord_wf_commit_begin [OF wf, of ld now tx] cb by simp
  show ?thesis
  proof (cases r)
    case (Inr p)
    show ?thesis
    proof (cases p)
      case (CommitPending owner rows ms)
      obtain h where "active_by_id s tx = Some h" "h_owner_key h = owner"
        and s1: "s1 = drop_write_set tx (upd_handle tx (mark_state now Committing h) s)"
        using commit_begin_pending [OF cb [unfolded Inr CommitPending]] by metis
      then have "active_by_id s1 tx = Some (mark_state now Committing h)" "write_sets s1 tx = None"
        by (simp_all add: drop_write_set_def)
      from coord_wf_commit_finish [OF wf1 this, of cfg now rows "apply_mutations tx ms"] show ?thesis
        using cb Inr CommitPending \<open>h_owner_key h = owner\<close> by (simp add: coord_commit_def)
    qed (use cb Inr wf1 in \<open>simp add: coord_commit_def\<close>)
  qed (use cb wf1 in \<open>simp add: coord_commit_def\<close>)
qed

lemma coord_wf_rollback:
  assumes wf: "coord_wf cfg s"
  shows "coord_wf cfg (snd (coord_rollback now tx s))"
proof (cases "active_by_id s tx")
  case (Some h)
  have gone: "coord_wf cfg (drop_handle tx (drop_owner (h_owner_key h) (drop_staged_publishes tx
      (release_primary_key_claims tx (drop_write_set tx s')))))"
    if "s' = s \<or> s' = upd_handle tx (mark_state now RollingBack h) s" for s'
    using that by (intro coord_wf_remove_state [OF wf Some]) (auto simp: coord_upd_defs)
  show ?thesis
    using Some wf gone
    by (auto simp: coord_rollback_def Let_def)
qed (use wf in \<open>simp add: coord_rollback_def\<close>)

lemma push_savepoint_frame [simp]:
  "ordered_mutations (push_savepoint n ws) = ordered_mutations ws"
  "buffer_bytes (push_savepoint n ws) = buffer_bytes ws"
  "ws_transaction_id (push_savepoint n ws) = ws_transaction_id ws"
  by (simp_all add: push_savepoint_def)

lemma coord_wf_savepoint:
  assumes wf: "coord_wf cfg s"
  shows "coord_wf cfg (snd (coord_savepoint now tx name s))"
proof (cases "active_by_id s tx")
  case (Some h)
  have ok: "handle_ok cfg (tracker s) tx h (write_sets s tx)"
    using wf Some by (rule coord_wf_handle)
  show ?thesis
  proof (cases "is_open (h_state h)")
    case True
    let ?ws = "push_savepoint name (write_set_or_new tx s)"
    have "handle_ok cfg (tracker s) tx (touch now h) (Some ?ws)"
      using ok True
      by (cases "write_sets s tx"; cases "h_raft_binding h")
        (auto simp: handle_ok_def writes_ok_def binding_ok_def snapshot_ok_def touch_def write_set_or_new_def
          ws_wf_push)
    then have "coord_wf cfg (upd_write_set tx ?ws (upd_handle tx (touch now h) s))"
      by (rule coord_wf_update_state [OF wf Some]) (simp_all add: touch_def)
    with Some True show ?thesis
      by (simp add: coord_savepoint_def)
  qed (use Some wf in \<open>simp add: coord_savepoint_def\<close>)
qed (use wf in \<open>simp add: coord_savepoint_def\<close>)

lemma ws_release_frame:
  assumes "ws_release_savepoint name ws = (b, ws')"
  shows "ordered_mutations ws' = ordered_mutations ws" "buffer_bytes ws' = buffer_bytes ws"
    "ws_transaction_id ws' = ws_transaction_id ws"
  using assms by (auto simp: ws_release_savepoint_def split: option.splits)

lemma coord_wf_release_savepoint:
  assumes wf: "coord_wf cfg s"
  shows "coord_wf cfg (snd (coord_release_savepoint now tx name s))"
proof (cases "active_by_id s tx")
  case (Some h)
  have ok: "handle_ok cfg (tracker s) tx h (write_sets s tx)"
    using wf Some by (rule coord_wf_handle)
  have ok': "handle_ok cfg (tracker s) tx (touch now h) (write_sets s tx)"
    using ok by (subst handle_ok_cong [of _ h]) (simp_all add: touch_def)
  have wf1: "coord_wf cfg (upd_handle tx (touch now h) s)"
    using wf Some ok' by (intro coord_wf_upd_handle) (auto simp: touch_def)
  show ?thesis
  proof (cases "write_sets s tx")
    case None
    with Some wf wf1 show ?thesis
      by (simp add: coord_release_savepoint_def Let_def)
  next
    case ws: (Some ws)
    obtain b ws' where rel: "ws_release_savepoint name ws = (b, ws')"
      by fastforce
    have "handle_ok cfg (tracker s) tx (touch now h) (Some ws')"
      using ok' ws ws_release_frame [OF rel] ws_wf_release [of "cfg_base cfg" ws name] rel
      by (auto simp: handle_ok_def writes_ok_def binding_ok_def)
    then have "coord_wf cfg (upd_write_set tx ws' (upd_handle tx (touch now h) s))"
      by (rule coord_wf_update_state [OF wf Some]) (simp_all add: touch_def)
    with Some ws rel wf show ?thesis
      by (cases b) (simp_all add: coord_release_savepoint_def Let_def)
  qed
qed (use wf in \<open>simp add: coord_release_savepoint_def\<close>)

lemma bytes_of_take_le: "bytes_of base (take n ms) \<le> bytes_of base ms"
proof -
  have "bytes_of base ms = bytes_of base (take n ms) + bytes_of base (drop n ms)"
    by (simp add: bytes_of_def flip: sum_list_append map_append)
  then show ?thesis
    by simp
qed

lemma ws_rollback_frame:
  assumes "ws_wf base ws" "ws_rollback_to_savepoint base name ws = (r, ws')"
  shows "ws_transaction_id ws' = ws_transaction_id ws" "buffer_bytes ws' \<le> buffer_bytes ws"
    "set (ordered_mutations ws') \<subseteq> set (ordered_mutations ws)"
    "r = None \<and> ws' = ws \<or> r = Some (length (ordered_mutations ws'), buffer_bytes ws')"
  using assms bytes_of_take_le
  by (auto simp: ws_rollback_to_savepoint_def Let_def truncate_mutations_eq ws_wf_def
      split: option.splits dest: in_set_takeD)

lemma coord_wf_rollback_to_savepoint:
  assumes wf: "coord_wf cfg s"
  shows "coord_wf cfg (snd (coord_rollback_to_savepoint cfg now tx name s))"
proof (cases "active_by_id s tx")
  case (Some h)
  show ?thesis
  proof (cases "write_sets s tx")
    case None
    with Some wf show ?thesis
      by (simp add: coord_rollback_to_savepoint_def)
  next
    case ws: (Some ws)
    have ok: "handle_ok cfg (tracker s) tx h (Some ws)"
      using coord_wf_handle [OF wf Some] ws by simp
    obtain r ws' where rb: "ws_rollback_to_savepoint (cfg_base cfg) name ws = (r, ws')"
      by fastforce
    note fr = ws_rollback_frame [OF _ rb]
    have wf': "ws_wf (cfg_base cfg) ws" "ws_wf (cfg_base cfg) ws'"
      using ok ws_wf_rollback [of "cfg_base cfg" ws name] rb by (auto simp: handle_ok_def writes_ok_def)
    let ?n = "length (ordered_mutations ws')"
    let ?h = "mark_state now (if ?n > 0 then OpenWrite else OpenRead)
      (h\<lparr>h_write_count := ?n, h_write_bytes := buffer_bytes ws', h_has_write_set := (?n > 0)\<rparr>)"
    have "handle_ok cfg (tracker s) tx ?h (Some ws')"
      using ok wf' fr(1-3) [OF wf'(1)]
      by (cases "h_raft_binding h")
        (auto simp: handle_ok_def writes_ok_def binding_ok_def snapshot_ok_def mark_state_def)
    then have new: "coord_wf cfg (upd_handle tx ?h (upd_write_set tx ws' s))"
      by (rule coord_wf_update_state [OF wf Some]) simp_all
    have same: "coord_wf cfg (upd_write_set tx ws s)"
      using coord_wf_cong [of "upd_write_set tx ws s" s cfg] wf ws by (simp add: map_upd_triv)
    show ?thesis
      using Some ws rb fr(4) [OF wf'(1)] new same wf
      by (auto simp: coord_rollback_to_savepoint_def Let_def)
  qed
qed (use wf in \<open>simp add: coord_rollback_to_savepoint_def\<close>)

lemma coord_wf_timeout:
  assumes wf: "coord_wf cfg s"
  shows "coord_wf cfg (timeout_transaction now tx s)"
proof (cases "active_by_id s tx")
  case (Some h)
  have "handle_ok cfg (tracker s) tx (mark_state now TimedOut h) None"
    using coord_wf_handle [OF wf Some] by (auto intro: handle_ok_closed)
  then have "coord_wf cfg (release_primary_key_claims tx (drop_write_set tx
      (upd_handle tx (mark_state now TimedOut h) s)))"
    by (rule coord_wf_update_state [OF wf Some]) simp_all
  with Some wf show ?thesis
    by (simp add: timeout_transaction_def)
qed (use wf in \<open>simp add: timeout_transaction_def\<close>)

lemma coord_wf_sweep:
  assumes "coord_wf cfg s"
  shows "coord_wf cfg (sweep_timed_out_transactions cfg' now ids s)"
proof -
  have "coord_wf cfg (fold (timeout_transaction now) txs s')" if "coord_wf cfg s'" for txs s'
    using that by (induction txs arbitrary: s') (simp_all add: coord_wf_timeout)
  with assms show ?thesis
    by (simp add: sweep_timed_out_transactions_def)
qed

lemma coord_wf_validate:
  assumes wf: "coord_wf cfg s"
  shows "coord_wf cfg (snd (validate_table_access cfg ld now tx t ty u s))"
proof -
  obtain r s1 where v: "validate_table_access cfg ld now tx t ty u s = (r, s1)"
    by fastforce
  show ?thesis
  proof (cases r)
    case (Inl e)
    with v wf validate_table_access_Inl show ?thesis
      by fastforce
  next
    case (Inr x)
    with v show ?thesis
      by (auto elim: validate_table_access_Inr [OF _ wf])
  qed
qed

lemma handle_ok_new:
  "handle_ok cfg tr tx (handle_new tx owner owner_id origin (initial_raft_binding cfg) now) None"
  by (simp add: handle_ok_def writes_ok_def binding_ok_def snapshot_ok_def handle_new_def
      initial_raft_binding_def)

text \<open>Adding a handle under a fresh id for an owner without one.\<close>

lemma coord_wf_add:
  assumes wf: "coord_wf cfg s" and fresh: "active_by_id s tx = None"
    and free: "active_by_owner s (h_owner_key h) = None" and ok: "handle_ok cfg (tracker s) tx h None"
    and s': "active_by_owner s' = (active_by_owner s)(h_owner_key h \<mapsto> tx)"
    "active_by_id s' = (active_by_id s)(tx \<mapsto> h)" "write_sets s' = write_sets s" "tracker s' = tracker s"
  shows "coord_wf cfg s'"
proof -
  have "((active_by_owner s)(h_owner_key h \<mapsto> tx)) k = Some t \<longleftrightarrow>
      (\<exists>x. ((active_by_id s)(tx \<mapsto> h)) t = Some x \<and> h_owner_key x = k)" for k t
  proof -
    have "active_by_owner s k = Some t \<longleftrightarrow> (\<exists>x. active_by_id s t = Some x \<and> h_owner_key x = k)"
      using wf by (simp add: coord_wf_def owners_wf_def)
    with fresh free show ?thesis
      by (cases "k = h_owner_key h"; cases "t = tx") auto
  qed
  with wf fresh ok s' show ?thesis
    by (auto simp: coord_wf_def owners_wf_def)
qed

lemma coord_wf_begin:
  assumes wf: "coord_wf cfg s" and fresh: "active_by_id s tx = None"
  shows "coord_wf cfg (snd (begin_tx cfg now tx owner owner_id origin s))"
proof (cases "active_by_owner s owner")
  case None
  have "coord_wf cfg ((upd_handle tx (handle_new tx owner owner_id origin (initial_raft_binding cfg) now) s)
      \<lparr>active_by_owner := (active_by_owner s)(owner \<mapsto> tx)\<rparr>)"
    by (rule coord_wf_add [OF wf fresh _ handle_ok_new]) (simp_all add: None handle_new_def)
  with None show ?thesis
    by (simp add: begin_tx_def Let_def)
next
  case (Some old)
  then obtain oh where oh: "active_by_id s old = Some oh" "h_owner_key oh = owner"
    using wf by (auto simp: coord_wf_def owners_wf_def)
  let ?s1 = "drop_owner owner (drop_write_set old (drop_handle old (release_primary_key_claims old s)))"
  have wf1: "coord_wf cfg ?s1"
    using oh by (intro coord_wf_remove_state [OF wf oh(1)]) auto
  have fresh1: "active_by_id ?s1 tx = None"
    using fresh by simp
  have "coord_wf cfg ((upd_handle tx (handle_new tx owner owner_id origin (initial_raft_binding cfg) now)
      (drop_write_set old (drop_handle old (release_primary_key_claims old s))))
      \<lparr>active_by_owner := (active_by_owner s)(owner \<mapsto> tx)\<rparr>)"
    by (rule coord_wf_add [OF wf1 fresh1 _ handle_ok_new]) (simp_all add: handle_new_def)
  with Some oh wf show ?thesis
    by (simp add: begin_tx_def Let_def)
qed

end
