(* ===== verification/TxLifecycle.thy ===== *)
theory TxLifecycle
  imports TxCoordinatorInv
begin

text \<open>
  The coordinator as a state machine: a step relation with one rule per operation, reachability,
  and the properties of the transaction lifecycle. A commit is one step here; what happens when
  another call runs between its two halves is the subject of its own theorem.
\<close>

section \<open>Steps\<close>

text \<open>
  Besides the coordinator's methods, the state is changed by its surroundings: the applier
  reports commits of other transactions, statements acquire claims, and functions stage topic
  messages for publication at commit.
\<close>

inductive coord_step :: "coord_config \<Rightarrow> coordinator \<Rightarrow> coordinator \<Rightarrow> bool" for cfg where
  begin_step: "active_by_id s tx = None \<Longrightarrow>
    coord_step cfg s (snd (begin_tx cfg now tx owner owner_id origin s))"
| access_step: "coord_step cfg s (snd (validate_table_access cfg ld now tx t ty u s))"
| stage_step: "coord_step cfg s (snd (coord_stage cfg ld now tx m s))"
| batch_step: "coord_step cfg s (snd (coord_stage_batch cfg ld now tx ms s))"
| commit_step: "coord_step cfg s (snd (coord_commit cfg ld now apply_mutations tx s))"
| rollback_step: "coord_step cfg s (snd (coord_rollback now tx s))"
| savepoint_step: "coord_step cfg s (snd (coord_savepoint now tx name s))"
| release_step: "coord_step cfg s (snd (coord_release_savepoint now tx name s))"
| rollback_to_step: "coord_step cfg s (snd (coord_rollback_to_savepoint cfg now tx name s))"
| sweep_step: "coord_step cfg s (sweep_timed_out_transactions cfg now ids s)"
| observe_step: "coord_step cfg s (s\<lparr>tracker := observe_committed g i (tracker s)\<rparr>)"
| claims_step: "claims_step (pk_claims s) c \<Longrightarrow> coord_step cfg s (s\<lparr>pk_claims := c\<rparr>)"
| publish_step: "coord_step cfg s (s\<lparr>staged_publishes := (staged_publishes s)(tx := ps)\<rparr>)"

inductive_cases coord_stepE: "coord_step cfg s s'"

definition coord_reachable :: "coord_config \<Rightarrow> commit_sequence_tracker \<Rightarrow> coordinator \<Rightarrow> bool" where
  "coord_reachable cfg tr s \<longleftrightarrow> (coord_step cfg)\<^sup>*\<^sup>* (coordinator_new tr) s"

lemma coord_wf_step: "coord_step cfg s s' \<Longrightarrow> coord_wf cfg s \<Longrightarrow> coord_wf cfg s'"
proof (induction rule: coord_step.induct)
  case (claims_step s c)
  then show ?case
    by (subst coord_wf_cong [of _ s]) simp_all
next
  case (publish_step s tx ps)
  then show ?case
    by (subst coord_wf_cong [of _ s]) simp_all
qed (simp_all add: coord_wf_begin coord_wf_validate coord_wf_stage coord_wf_stage_batch coord_wf_commit
    coord_wf_rollback coord_wf_savepoint coord_wf_release_savepoint coord_wf_rollback_to_savepoint
    coord_wf_sweep coord_wf_observe)

lemma coord_wf_reachable: "coord_reachable cfg tr s \<Longrightarrow> coord_wf cfg s"
  unfolding coord_reachable_def
  by (induction rule: rtranclp_induct) (auto intro: coord_wf_step coord_wf_new)

lemma coord_reachable_step: "coord_reachable cfg tr s \<Longrightarrow> coord_step cfg s s' \<Longrightarrow> coord_reachable cfg tr s'"
  unfolding coord_reachable_def by (rule rtranclp.rtrancl_into_rtrancl)

section \<open>Handles across steps\<close>

text \<open>What no operation changes in a handle that survives it.\<close>

definition handle_stable :: "transaction_handle \<Rightarrow> transaction_handle \<Rightarrow> bool" where
  "handle_stable h h' \<longleftrightarrow>
     h_transaction_id h' = h_transaction_id h \<and> h_owner_key h' = h_owner_key h \<and>
     (h_raft_binding h = UnboundCluster \<or> h_raft_binding h' = h_raft_binding h) \<and>
     (h_snapshot_log_index h = snapshot_unset \<or> h_snapshot_log_index h' = h_snapshot_log_index h)"

definition handles_stable :: "coordinator \<Rightarrow> coordinator \<Rightarrow> bool" where
  "handles_stable s s' \<longleftrightarrow>
     (\<forall>tx h h'. active_by_id s tx = Some h \<longrightarrow> active_by_id s' tx = Some h' \<longrightarrow> handle_stable h h')"

lemma handle_stable_refl [simp]: "handle_stable h h"
  by (simp add: handle_stable_def)

lemma handle_stable_trans: "handle_stable a b \<Longrightarrow> handle_stable b c \<Longrightarrow> handle_stable a c"
  by (auto simp: handle_stable_def)

lemma handle_stable_mark [simp]:
  "handle_stable h (mark_state now st h') = handle_stable h h'"
  "handle_stable h (touch now h') = handle_stable h h'"
  "handle_stable h (record_staged_write now t c b h') = handle_stable h h'"
  "handle_stable h (record_staged_write_batch now ts c b h') = handle_stable h h'"
  by (simp_all add: handle_stable_def mark_state_def touch_def record_staged_write_def
      record_staged_write_batch_def)

lemma access_frame_stable: "access_frame tx h h' \<Longrightarrow> handle_stable h h'"
  by (auto simp: access_frame_def handle_stable_def)

lemma handles_stable_refl [simp]: "handles_stable s s"
  by (simp add: handles_stable_def)

lemma handles_stable_upd:
  "active_by_id s tx = Some h \<Longrightarrow> handle_stable h h' \<Longrightarrow> active_by_id s' = (active_by_id s)(tx \<mapsto> h') \<Longrightarrow>
     handles_stable s s'"
  by (auto simp: handles_stable_def)

lemma handles_stable_drop: "active_by_id s' = (active_by_id s)(tx := None) \<Longrightarrow> handles_stable s s'"
  by (auto simp: handles_stable_def)

lemma handles_stable_same: "active_by_id s' = active_by_id s \<Longrightarrow> handles_stable s s'"
  by (auto simp: handles_stable_def)

text \<open>Staging and access never drop a handle, so stability composes along them.\<close>

lemma handles_stable_trans:
  assumes "handles_stable a b" "handles_stable b c" "dom (active_by_id a) \<subseteq> dom (active_by_id b)"
  shows "handles_stable a c"
  unfolding handles_stable_def
proof (intro allI impI)
  fix tx h h'
  assume h: "active_by_id a tx = Some h" and h': "active_by_id c tx = Some h'"
  then obtain hb where "active_by_id b tx = Some hb"
    using assms(3) by blast
  with h h' assms(1,2) show "handle_stable h h'"
    unfolding handles_stable_def by (blast intro: handle_stable_trans)
qed

lemma stable_validate:
  assumes "coord_wf cfg s" "validate_table_access cfg ld now tx t ty u s = (r, s1)"
  shows "handles_stable s s1" "dom (active_by_id s1) = dom (active_by_id s)"
proof -
  have "handles_stable s s1 \<and> dom (active_by_id s1) = dom (active_by_id s)"
  proof (cases r)
    case (Inl e)
    with assms validate_table_access_Inl show ?thesis
      by fastforce
  next
    case (Inr x)
    obtain h h' where h: "active_by_id s tx = Some h" "s1 = upd_handle tx h' s" "access_frame tx h h'"
      using validate_table_access_Inr [OF assms(2) [unfolded Inr] assms(1)] by metis
    then have "handles_stable s s1"
      by (intro handles_stable_upd [of s tx h h']) (simp_all add: access_frame_stable)
    with h show ?thesis
      by auto
  qed
  then show "handles_stable s s1" "dom (active_by_id s1) = dom (active_by_id s)"
    by simp_all
qed

lemma stable_scan:
  assumes "coord_wf cfg s"
  shows "handles_stable s (snd (stage_batch_scan cfg ld now tx ms seen acc s)) \<and>
    dom (active_by_id (snd (stage_batch_scan cfg ld now tx ms seen acc s))) = dom (active_by_id s)"
  using assms
proof (induction cfg ld now tx ms seen acc s rule: stage_batch_scan.induct)
  case (2 cfg ld now tx m ms seen acc s)
  obtain r s1 where v: "validate_table_access cfg ld now tx (sm_table_id m) (sm_table_type m) (sm_user_id m) s = (r, s1)"
    by fastforce
  have wf1: "coord_wf cfg s1"
    using coord_wf_validate [OF "2.prems", of ld now tx "sm_table_id m" "sm_table_type m" "sm_user_id m"] v by simp
  note st = stable_validate [OF "2.prems" v]
  let ?acc = "sat_add acc (approximate_size_bytes (cfg_base cfg) m)"
  let ?target = "(sm_table_id m, sm_table_type m, sm_user_id m)"
  show ?case
  proof (cases "check_mutation tx m = None \<and> ?target \<notin> set seen \<and> (\<exists>x. r = Inr x)")
    case True
    then obtain x where r: "r = Inr x"
      by blast
    let ?last = "snd (stage_batch_scan cfg ld now tx ms (?target # seen) ?acc s1)"
    have "handles_stable s1 ?last \<and> dom (active_by_id ?last) = dom (active_by_id s1)"
      using True r v wf1 "2.IH"(2) [OF _ refl refl _ v [symmetric]] by simp
    then have "handles_stable s ?last" "dom (active_by_id ?last) = dom (active_by_id s)"
      using handles_stable_trans [OF st(1)] st(2) by auto
    with True r v show ?thesis
      by (simp add: Let_def)
  next
    case False
    with 2 v st show ?thesis
      by (cases r) (auto simp: Let_def split: option.splits)
  qed
qed simp

text \<open>The ends of \<open>stage\<close> and \<open>stage_batch\<close> after validation, and of a commit.\<close>

lemma stable_leader_abort:
  "active_by_id s tx = Some h \<Longrightarrow>
     handles_stable s (mark_transaction_aborted now tx (upd_handle tx (mark_state now Aborted h) s))"
  unfolding mark_aborted_twice by (rule handles_stable_upd [of s tx h]) simp_all

lemma stable_abort_over_limit:
  "active_by_id s tx = Some h \<Longrightarrow> handles_stable s (snd (abort_over_limit cfg now tx h s))"
  by (rule handles_stable_upd [of s tx h "mark_state now Aborted h"]) (simp_all add: abort_over_limit_def Let_def)

lemma stable_stage:
  assumes wf: "coord_wf cfg s"
  shows "handles_stable s (snd (coord_stage cfg ld now tx m s))"
proof (cases "check_mutation tx m")
  case None
  obtain r s1 where v: "validate_table_access cfg ld now tx (sm_table_id m) (sm_table_type m) (sm_user_id m) s = (r, s1)"
    by fastforce
  note st = stable_validate [OF wf v]
  have "handles_stable s1 (snd (coord_stage cfg ld now tx m s))"
  proof (cases "active_by_id s1 tx")
    case None
    with \<open>check_mutation tx m = None\<close> v show ?thesis
      by (cases r) (simp_all add: coord_stage_def Let_def)
  next
    case (Some h)
    obtain eo h1 where en: "ensure_bound_leadership_is_current cfg ld now tx h = (eo, h1)"
      by fastforce
    have upd: "handles_stable s1 (upd_handle tx (record_staged_write now t c b h) (upd_write_set tx ws s1))" for t c b ws
      by (rule handles_stable_upd [OF Some]) simp_all
    show ?thesis
      using \<open>check_mutation tx m = None\<close> v Some en ensure_leadership_cases [OF en] upd
        stable_leader_abort [OF Some] stable_abort_over_limit [OF Some]
      by (cases r) (auto simp: coord_stage_def Let_def)
  qed
  with st show ?thesis
    by (intro handles_stable_trans [OF st(1)]) simp_all
qed (simp add: coord_stage_def)

lemma stable_stage_batch:
  assumes wf: "coord_wf cfg s"
  shows "handles_stable s (snd (coord_stage_batch cfg ld now tx ms s))"
proof (cases "ms = []")
  case False
  obtain r s1 where sc: "stage_batch_scan cfg ld now tx ms [] 0 s = (r, s1)"
    by fastforce
  have st: "handles_stable s s1" "dom (active_by_id s1) = dom (active_by_id s)"
    using stable_scan [OF wf, of ld now tx ms "[]" 0] sc by simp_all
  have "handles_stable s1 (snd (coord_stage_batch cfg ld now tx ms s))"
  proof (cases "active_by_id s1 tx")
    case None
    with False sc show ?thesis
      by (cases r) (simp_all add: coord_stage_batch_def)
  next
    case (Some h)
    obtain eo h1 where en: "ensure_bound_leadership_is_current cfg ld now tx h = (eo, h1)"
      by fastforce
    have upd: "handles_stable s1 (upd_handle tx (record_staged_write_batch now ts c b h) (upd_write_set tx ws s1))" for ts c b ws
      by (rule handles_stable_upd [OF Some]) simp_all
    show ?thesis
      using False sc Some en ensure_leadership_cases [OF en] upd
        stable_leader_abort [OF Some] stable_abort_over_limit [OF Some]
      by (cases r) (auto simp: coord_stage_batch_def Let_def)
  qed
  with st show ?thesis
    by (intro handles_stable_trans [OF st(1)]) simp_all
qed (simp add: coord_stage_batch_def)

text \<open>Commit either keeps the handle (aborted or sealing) or removes it; no other handle changes.\<close>

lemma flush_active: "active_by_id (snd (flush_staged_publishes cfg tx s)) = active_by_id s"
  using flush_frame(2) [of cfg tx s] by (metis prod.collapse)

lemma commit_without_writes_active:
  "active_by_id s tx \<noteq> None \<Longrightarrow>
     active_by_id (snd (commit_without_writes cfg now tx owner s)) = (active_by_id s)(tx := None)"
  using flush_active [of cfg tx "release_primary_key_claims tx (drop_handle tx (drop_owner owner s))"]
  by (auto simp: commit_without_writes_def Let_def split: prod.splits option.splits)

lemma commit_finish_active:
  "active_by_id (snd (commit_finish cfg now tx owner rows outcome s)) = active_by_id s \<or>
   active_by_id (snd (commit_finish cfg now tx owner rows outcome s)) = (active_by_id s)(tx := None)"
proof (cases outcome)
  case (Applied so effects)
  show ?thesis
  proof (cases "so = None \<or> active_by_id s tx = None")
    case True
    with Applied show ?thesis
      by (auto simp: commit_finish_def Let_def split: option.splits)
  next
    case False
    then obtain cseq h where ch: "so = Some cseq" "active_by_id s tx = Some h"
      by auto
    let ?s2 = "drop_handle tx (drop_owner owner (release_primary_key_claims tx s))"
    have "active_by_id (snd (flush_staged_publishes cfg tx (case h_raft_binding h of
        BoundCluster g _ \<Rightarrow> ?s2\<lparr>tracker := observe_committed g cseq (tracker ?s2)\<rparr> | _ \<Rightarrow> ?s2))) =
        (active_by_id s)(tx := None)"
      by (cases "h_raft_binding h") (simp_all add: flush_active)
    with Applied ch show ?thesis
      by (auto simp: commit_finish_def Let_def split: prod.splits option.splits)
  qed
qed (simp add: commit_finish_def Let_def)

lemma commit_begin_active:
  assumes "active_by_id s tx = Some h"
  shows "active_by_id (snd (commit_begin cfg ld now tx s)) = active_by_id s \<or>
    (\<exists>st. active_by_id (snd (commit_begin cfg ld now tx s)) = (active_by_id s)(tx \<mapsto> mark_state now st h)) \<or>
    active_by_id (snd (commit_begin cfg ld now tx s)) = (active_by_id s)(tx := None)"
proof -
  obtain eo h1 where en: "ensure_bound_leadership_is_current cfg ld now tx h = (eo, h1)"
    by fastforce
  have nw: "active_by_id (snd (commit_without_writes cfg now tx owner
      (drop_write_set tx (upd_handle tx (mark_state now Committing h) s)))) = (active_by_id s)(tx := None)" for owner
    by (subst commit_without_writes_active) simp_all
  show ?thesis
    using assms en ensure_leadership_cases [OF en] nw
    by (auto simp: commit_begin_def Let_def mark_aborted_twice split: option.splits)
qed

lemma commit_active:
  assumes "active_by_id s tx = Some h"
  shows "active_by_id (snd (coord_commit cfg ld now ap tx s)) = active_by_id s \<or>
    (\<exists>st. active_by_id (snd (coord_commit cfg ld now ap tx s)) = (active_by_id s)(tx \<mapsto> mark_state now st h)) \<or>
    active_by_id (snd (coord_commit cfg ld now ap tx s)) = (active_by_id s)(tx := None)"
proof -
  obtain r s1 where cb: "commit_begin cfg ld now tx s = (r, s1)"
    by fastforce
  note start = commit_begin_active [OF assms, of cfg ld now]
  show ?thesis
  proof (cases "\<exists>owner rows ms. r = Inr (CommitPending owner rows ms)")
    case True
    then obtain owner rows ms where r: "r = Inr (CommitPending owner rows ms)"
      by blast
    then have "snd (coord_commit cfg ld now ap tx s) = snd (commit_finish cfg now tx owner rows (ap tx ms) s1)"
      using cb by (simp add: coord_commit_def)
    then show ?thesis
      using start cb commit_finish_active [of cfg now tx owner rows "ap tx ms" s1] by force
  next
    case False
    then have "snd (coord_commit cfg ld now ap tx s) = s1"
      using cb by (auto simp: coord_commit_def split: sum.splits commit_progress.splits)
    with start cb show ?thesis
      by simp
  qed
qed

lemma stable_commit: "handles_stable s (snd (coord_commit cfg ld now ap tx s))"
proof (cases "active_by_id s tx")
  case None
  then show ?thesis
    by (simp add: coord_commit_def commit_begin_def)
next
  case (Some h)
  from commit_active [OF Some, of cfg ld now ap] show ?thesis
    using Some by (auto simp: handles_stable_def split: if_splits)
qed

lemma stable_timeout: "handles_stable s (timeout_transaction now tx s)"
  by (cases "active_by_id s tx")
    (auto simp: timeout_transaction_def handles_stable_def)

lemma dom_timeout: "dom (active_by_id (timeout_transaction now tx s)) = dom (active_by_id s)"
  by (auto simp: timeout_transaction_def split: option.splits)

lemma stable_sweep: "handles_stable s (sweep_timed_out_transactions cfg now ids s)"
proof -
  have "handles_stable s' (fold (timeout_transaction now) txs s') \<and>
      dom (active_by_id (fold (timeout_transaction now) txs s')) = dom (active_by_id s')" for txs s'
  proof (induction txs arbitrary: s')
    case (Cons tx txs)
    then show ?case
      using handles_stable_trans [OF stable_timeout [of s' now tx]] dom_timeout [of now tx s'] by auto
  qed simp
  then show ?thesis
    by (simp add: sweep_timed_out_transactions_def)
qed

lemma stable_begin:
  assumes "active_by_id s tx = None"
  shows "handles_stable s (snd (begin_tx cfg now tx owner owner_id origin s))"
  using assms by (auto simp: begin_tx_def Let_def handles_stable_def split: option.splits)

lemma stable_rollback: "handles_stable s (snd (coord_rollback now tx s))"
  by (cases "active_by_id s tx") (auto simp: coord_rollback_def Let_def intro: handles_stable_drop)

lemma stable_savepoints:
  "handles_stable s (snd (coord_savepoint now tx name s))"
  "handles_stable s (snd (coord_release_savepoint now tx name s))"
  by (cases "active_by_id s tx";
      auto simp: coord_savepoint_def coord_release_savepoint_def Let_def handles_stable_def
        split: option.splits prod.splits bool.splits)+

lemma stable_rollback_to: "handles_stable s (snd (coord_rollback_to_savepoint cfg now tx name s))"
proof (cases "active_by_id s tx")
  case (Some h)
  have "handle_stable h (h\<lparr>h_write_count := c, h_write_bytes := b, h_has_write_set := w\<rparr>)" for c b w
    by (simp add: handle_stable_def)
  then show ?thesis
    using Some by (auto simp: coord_rollback_to_savepoint_def Let_def
        handles_stable_def split: option.splits prod.splits)
qed (simp add: coord_rollback_to_savepoint_def)

lemma handles_stable_step: "coord_step cfg s s' \<Longrightarrow> coord_wf cfg s \<Longrightarrow> handles_stable s s'"
proof (induction rule: coord_step.induct)
  case (access_step s ld now tx t ty u)
  then show ?case
    using stable_validate(1) [OF access_step] by (metis prod.collapse)
qed (simp_all add: stable_begin stable_stage stable_stage_batch stable_commit stable_rollback
    stable_savepoints stable_rollback_to stable_sweep handles_stable_same)

section \<open>Effects on claims and publications\<close>

definition holds_claim :: "coordinator \<Rightarrow> transaction_id \<Rightarrow> bool" where
  "holds_claim s tx \<longleftrightarrow> (\<exists>k c. claims (pk_claims s) k = Some c \<and> claim_owner c = tx)"

lemma release_owner_claims:
  "claims (release_owner tx c) k =
     (case claims c k of None \<Rightarrow> None | Some cl \<Rightarrow> if claim_owner cl = tx then None else Some cl)"
  by (simp add: release_owner_def notify_waiters_def)

lemma released_no_claim: "pk_claims s = release_owner tx c \<Longrightarrow> \<not> holds_claim s tx"
  by (auto simp: holds_claim_def release_owner_claims split: option.splits if_splits)

lemma pk_claims_simps [simp]:
  "pk_claims (drop_owner k s) = pk_claims s" "pk_claims (drop_write_set tx s) = pk_claims s"
  "pk_claims (drop_staged_publishes tx s) = pk_claims s" "pk_claims (drop_handle tx s) = pk_claims s"
  "pk_claims (upd_handle tx h s) = pk_claims s" "pk_claims (upd_write_set tx ws s) = pk_claims s"
  by (simp_all add: coord_upd_defs)

lemma publications_simps [simp]:
  "staged_publishes (drop_owner k s) = staged_publishes s" "published (drop_owner k s) = published s"
  "staged_publishes (drop_write_set tx s) = staged_publishes s" "published (drop_write_set tx s) = published s"
  "staged_publishes (drop_handle tx s) = staged_publishes s" "published (drop_handle tx s) = published s"
  "staged_publishes (upd_handle tx h s) = staged_publishes s" "published (upd_handle tx h s) = published s"
  "staged_publishes (release_primary_key_claims tx s) = staged_publishes s"
  "published (release_primary_key_claims tx s) = published s"
  "staged_publishes (drop_staged_publishes tx s) = (staged_publishes s)(tx := [])"
  "published (drop_staged_publishes tx s) = published s"
  by (simp_all add: coord_upd_defs)

lemma publish_all_ok: "list_all ok ps \<Longrightarrow> publish_all ok ps log = (None, log @ ps)"
  by (induction ps arbitrary: log) auto

lemma flush_ok:
  "list_all (cfg_publish cfg) (staged_publishes s tx) \<Longrightarrow>
     flush_staged_publishes cfg tx s =
       (None, s\<lparr>staged_publishes := (staged_publishes s)(tx := []),
                published := published s @ staged_publishes s tx\<rparr>)"
  by (simp add: flush_staged_publishes_def publish_all_ok)

text \<open>Timing out one transaction.\<close>

lemma sweep_one:
  "active_by_id (timeout_transaction now tx s) t =
     (if t = tx then
        (case active_by_id s tx of
           Some h \<Rightarrow> Some (if is_open (h_state h) then mark_state now TimedOut h else h)
         | None \<Rightarrow> None)
      else active_by_id s t)"
  "write_sets (timeout_transaction now tx s) t =
     (if t = tx \<and> (\<exists>h. active_by_id s tx = Some h \<and> is_open (h_state h)) then None else write_sets s t)"
  by (auto simp: timeout_transaction_def split: option.splits)

lemma timeout_claims:
  "holds_claim (timeout_transaction now tx s) t \<Longrightarrow> holds_claim s t"
  by (auto simp: holds_claim_def timeout_transaction_def release_primary_key_claims_def release_owner_claims
      split: option.splits if_splits)

lemma sweep_fold:
  "active_by_id (fold (timeout_transaction now) txs s) t =
     (case active_by_id s t of
        None \<Rightarrow> None
      | Some h \<Rightarrow> Some (if t \<in> set txs \<and> is_open (h_state h) then mark_state now TimedOut h else h))"
  "write_sets (fold (timeout_transaction now) txs s) t =
     (if t \<in> set txs \<and> (\<exists>h. active_by_id s t = Some h \<and> is_open (h_state h)) then None else write_sets s t)"
proof (induction txs arbitrary: s)
  case Nil
  {
    case 1
    then show ?case by (simp split: option.splits)
  next
    case 2
    then show ?case by simp
  }
next
  case (Cons tx txs)
  {
    case 1
    then show ?case
      by (auto simp: Cons sweep_one split: option.splits)
  next
    case 2
    then show ?case
      by (auto simp: Cons sweep_one split: option.splits)
  }
qed

lemma sweep_claims: "holds_claim (fold (timeout_transaction now) txs s) t \<Longrightarrow> holds_claim s t"
  by (induction txs arbitrary: s) (auto dest: timeout_claims)

lemma sweep_own_claims:
  assumes "t \<in> set txs" "\<exists>h. active_by_id s t = Some h \<and> is_open (h_state h)"
  shows "\<not> holds_claim (fold (timeout_transaction now) txs s) t"
  using assms
proof (induction txs arbitrary: s)
  case (Cons tx txs)
  show ?case
  proof (cases "tx = t")
    case True
    obtain h where "active_by_id s t = Some h" "is_open (h_state h)"
      using Cons.prems(2) by blast
    then have "\<not> holds_claim (timeout_transaction now t s) t"
      by (intro released_no_claim) (simp add: timeout_transaction_def release_primary_key_claims_def)
    with True sweep_claims [of now txs "timeout_transaction now t s" t] show ?thesis
      by auto
  next
    case False
    with Cons show ?thesis
      by (simp add: sweep_one)
  qed
qed simp

section \<open>Properties\<close>


definition example_cfg :: "nat option \<Rightarrow> coord_config" where
  "example_cfg shards =
     \<lparr>cfg_cluster = map_option (\<lambda>n. \<lparr>user_shards = n, shared_shards = 1\<rparr>) shards, cfg_node_id = 1,
      cfg_hash = (\<lambda>ss. length (concat ss)), cfg_schema = Map.empty,
      cfg_max_transaction_buffer_bytes = 1000, cfg_transaction_timeout_secs = 30,
      cfg_publish = (\<lambda>_. True), cfg_base = 64\<rparr>"

definition example_begun :: "nat option \<Rightarrow> coordinator" where
  "example_begun shards =
     snd (begin_tx (example_cfg shards) 0 ''tx'' (SqlRequest 1) ''sql-req-1'' SqlBatch
       (coordinator_new (cst_new 0)))"

lemma example_begun_reachable: "coord_reachable (example_cfg shards) (cst_new 0) (example_begun shards)"
  unfolding coord_reachable_def example_begun_def
  by (rule r_into_rtranclp, rule begin_step) (simp add: coordinator_new_def)



definition example_staged :: "nat option \<Rightarrow> coordinator" where
  "example_staged shards =
     snd (coord_stage (example_cfg shards) (\<lambda>_. Some 1) 5 ''tx'' (example_mutation ''a'')
       (example_begun shards))"

lemma example_staged_reachable: "coord_reachable (example_cfg shards) (cst_new 0) (example_staged shards)"
  unfolding example_staged_def by (rule coord_reachable_step [OF example_begun_reachable stage_step])

text \<open>The definitions that evaluate the example states.\<close>

lemmas example_defs = example_staged_def example_begun_def begin_tx_def coordinator_new_def Let_def
  example_cfg_def handle_new_def initial_raft_binding_def coord_stage_def check_mutation_def
  example_mutation_def staged_new_def approximate_size_bytes_def approximate_row_size_bytes_def
  full_name_def validate_table_access_def resolve_group_id_def bind_group_def
  current_leader_for_group_def pin_snapshot_def touch_def ensure_bound_leadership_is_current_def
  sat_add_def u64_max_def stage_with_estimated_size_def write_set_or_new_def index_mutation_def
  record_staged_write_def

lemma example_staged_commit:
  "commit_begin (example_cfg (Some 4)) (\<lambda>_. Some 1) 9 ''tx'' (example_staged (Some 4)) =
     (Inr (CommitPending (SqlRequest 1) 1 [example_mutation ''a'']),
      snd (commit_begin (example_cfg (Some 4)) (\<lambda>_. Some 1) 9 ''tx'' (example_staged (Some 4))))"
  by (simp add: example_defs affected_rows_def commit_begin_def user_group_id_def)


text \<open>
  C6: Along every step of the coordinator, a transaction that stays registered keeps its owner,
  its Raft binding once bound, and its snapshot once pinned; only an unbound transaction can
  become bound and only an unset snapshot can be set.
\<close>

theorem binding_and_snapshot_stable:
  assumes "coord_reachable cfg tr s" "coord_step cfg s s'"
    and "active_by_id s tx = Some h" "active_by_id s' tx = Some h'"
  shows "h_owner_key h' = h_owner_key h \<and>
    (h_raft_binding h \<noteq> UnboundCluster \<longrightarrow> h_raft_binding h' = h_raft_binding h) \<and>
    (h_snapshot_log_index h \<noteq> snapshot_unset \<longrightarrow> h_snapshot_log_index h' = h_snapshot_log_index h)"
proof -
  have "handles_stable s s'"
    using assms(2) coord_wf_reachable [OF assms(1)] by (rule handles_stable_step)
  then have "handle_stable h h'"
    using assms(3,4) unfolding handles_stable_def by blast
  then show ?thesis
    by (auto simp: handle_stable_def)
qed

theorem binding_and_snapshot_stable_witness:
  "h_owner_key (the (active_by_id (snd (coord_savepoint 9 ''tx'' ''s1'' (example_begun None))) ''tx'')) =
     SqlRequest 1"
proof -
  let ?s = "example_begun None" and ?s' = "snd (coord_savepoint 9 ''tx'' ''s1'' (example_begun None))"
  have h: "active_by_id ?s ''tx'' = Some (handle_new ''tx'' (SqlRequest 1) ''sql-req-1'' SqlBatch LocalSingleNode 0)"
    by (simp add: example_begun_def begin_tx_def coordinator_new_def Let_def initial_raft_binding_def example_cfg_def)
  moreover have "active_by_id ?s' ''tx'' = Some (touch 9 (handle_new ''tx'' (SqlRequest 1) ''sql-req-1'' SqlBatch LocalSingleNode 0))"
    using h by (simp add: coord_savepoint_def handle_new_def)
  ultimately show ?thesis
    using binding_and_snapshot_stable [OF example_begun_reachable savepoint_step]
    by (simp add: handle_new_def)
qed


lemma example_staged_local:
  "\<exists>h ws. active_by_id (example_staged None) ''tx'' = Some h \<and> h_state h = OpenWrite \<and>
     h_raft_binding h = LocalSingleNode \<and> h_owner_key h = SqlRequest 1 \<and>
     write_sets (example_staged None) ''tx'' = Some ws \<and> ordered_mutations ws = [example_mutation ''a'']"
  by (simp add: example_defs)

lemma example_no_publishes: "staged_publishes (example_staged None) = (\<lambda>_. [])"
  by (simp add: example_defs upd_write_set_def)






lemma example_leader_moved:
  "coord_stage (example_cfg (Some 4)) (\<lambda>_. Some 2) 9 ''tx'' (example_mutation ''b'') (example_staged (Some 4)) =
     (Inl (LeaderChanged ''tx'' (DataUserShard 1) 1 (Some 2)),
      snd (coord_stage (example_cfg (Some 4)) (\<lambda>_. Some 2) 9 ''tx'' (example_mutation ''b'') (example_staged (Some 4))))"
  by (simp add: example_defs user_group_id_def route_user_def hash_to_shard_def
      from_optional_cluster_config_def from_cluster_config_def)


section \<open>Commit is not isolated from calls between its halves\<close>

text \<open>
  While a commit waits for the applier, a rollback of the same transaction is accepted and
  reports success; when the applier then confirms the commit, the committing caller gets a
  not-found error although its mutations are durable, and the staged topic messages are lost.
\<close>

theorem rollback_during_commit:
  assumes "commit_begin cfg ld now tx s = (Inr (CommitPending owner rows ms), s1)"
  shows "fst (coord_rollback later tx s1) = Inr () \<and>
    fst (commit_finish cfg later tx owner rows (Applied (Some cseq) effects) (snd (coord_rollback later tx s1)))
      = Inl (NotFoundDuringCommit tx) \<and>
    published (snd (commit_finish cfg later tx owner rows (Applied (Some cseq) effects)
      (snd (coord_rollback later tx s1)))) = published s"
proof -
  obtain h where "active_by_id s tx = Some h"
    and s1: "s1 = drop_write_set tx (upd_handle tx (mark_state now Committing h) s)"
    using commit_begin_pending [OF assms] by metis
  then show ?thesis
    by (simp add: coord_rollback_def Let_def commit_finish_def)
qed

theorem rollback_during_commit_witness:
  "fst (coord_rollback 10 ''tx'' (snd (commit_begin (example_cfg (Some 4)) (\<lambda>_. Some 1) 9 ''tx''
     (example_staged (Some 4))))) = Inr ()"
  using rollback_during_commit [OF example_staged_commit] by blast

text \<open>
  While a commit waits for the applier, its owner can begin another transaction, because the
  committing one does not count as open; when the first commit finishes it removes the owner
  entry of the second, which stays open but unregistered, so the owner can open a third.
\<close>

theorem begin_during_commit:
  assumes "coord_wf cfg s" "commit_begin cfg ld now tx s = (Inr (CommitPending owner rows ms), s1)"
    and "tx2 \<noteq> tx" "active_by_id s tx2 = None"
    and "begin_tx cfg later tx2 owner oid origin s1 = (r, s2)"
    and "commit_finish cfg later tx owner rows (Applied (Some cseq) effects) s2 = (r', s3)"
  shows "r = Inr tx2 \<and> active_by_owner s3 owner = None \<and>
    (\<exists>h. active_by_id s3 tx2 = Some h \<and> is_open (h_state h) \<and> h_owner_key h = owner)"
proof -
  obtain h where h: "active_by_id s tx = Some h" "h_owner_key h = owner"
    and s1: "s1 = drop_write_set tx (upd_handle tx (mark_state now Committing h) s)"
    using commit_begin_pending [OF assms(2)] by metis
  have own: "active_by_owner s1 owner = Some tx"
    using assms(1) h s1 by (auto simp: coord_wf_def owners_wf_def)
  have s2: "r = Inr tx2" "active_by_id s2 tx = None"
    "active_by_id s2 tx2 = Some (handle_new tx2 owner oid origin (initial_raft_binding cfg) later)"
    using assms(3,5) own s1 by (auto simp: begin_tx_def Let_def)
  then have "active_by_owner s3 owner = None" "active_by_id s3 = active_by_id s2"
    using assms(6) by (auto simp: commit_finish_def Let_def)
  with s2 show ?thesis
    by (simp add: handle_new_def)
qed

theorem begin_during_commit_witness:
  "active_by_owner (snd (commit_finish (example_cfg (Some 4)) 10 ''tx'' (SqlRequest 1) 1
     (Applied (Some 7) no_side_effects)
     (snd (begin_tx (example_cfg (Some 4)) 10 ''tx2'' (SqlRequest 1) ''sql-req-1'' SqlBatch
       (snd (commit_begin (example_cfg (Some 4)) (\<lambda>_. Some 1) 9 ''tx'' (example_staged (Some 4))))))))
     (SqlRequest 1) = None"
proof -
  have "active_by_id (example_staged (Some 4)) ''tx2'' = None"
    by (simp add: example_defs)
  then show ?thesis
    using begin_during_commit [OF coord_wf_reachable [OF example_staged_reachable] example_staged_commit
        _ _ surjective_pairing surjective_pairing, of "''tx2''"] by simp
qed

end
