(* ===== verification/RowFilter.thy ===== *)
theory RowFilter
  imports Rows
begin

text \<open>
  Row-local WHERE filters, from the crate \<open>kalamdb-row-filter\<close>: compilation of a parsed SQL expression
  into a predicate and its evaluation on one row, with the numeric comparison through \<open>f64\<close>
  (\<open>kalamdb-commons/src/conversions/scalar/numeric.rs\<close>). The SQL parser and the regular expression
  engine are external crates: the parsed expression is the input, and the engine, Unicode case
  mapping and the parsing of decimal float literals are fields of \<open>filter_env\<close>.
\<close>

section \<open>Doubles\<close>

text \<open>
  A finite double is an integer multiple of \<open>2 ^ -1074\<close>, the smallest subnormal, so its value is
  that integer. \<open>decode64\<close> and \<open>decode32\<close> read bit patterns.
\<close>

datatype f64 = Finite int | PosInf | NegInf | NaN

definition signed :: "bool \<Rightarrow> int \<Rightarrow> int" where
  "signed neg v = (if neg then - v else v)"

definition decode_bits :: "nat \<Rightarrow> nat \<Rightarrow> nat \<Rightarrow> nat \<Rightarrow> f64" where
  "decode_bits mant expo scale b =
     (let neg = odd (b div 2 ^ (mant + expo));
          e = (b div 2 ^ mant) mod 2 ^ expo;
          m = b mod 2 ^ mant
      in if e = 2 ^ expo - 1 then (if m \<noteq> 0 then NaN else if neg then NegInf else PosInf)
         else Finite (signed neg (int ((if e = 0 then m else (2 ^ mant + m) * 2 ^ (e - 1)) * 2 ^ scale))))"

definition decode64 :: "nat \<Rightarrow> f64" where
  "decode64 b = decode_bits 52 11 0 b"

definition decode32 :: "nat \<Rightarrow> f64" where
  "decode32 b = decode_bits 23 8 925 b"

text \<open>Rounding an integer to 53 significant bits, ties to even: the \<open>as f64\<close> casts.\<close>

fun bit_length :: "nat \<Rightarrow> nat" where
  "bit_length n = (if n = 0 then 0 else Suc (bit_length (n div 2)))"

declare bit_length.simps [simp del]

definition round53 :: "nat \<Rightarrow> nat" where
  "round53 n =
     (if n < 2 ^ 53 then n
      else
        (let s = bit_length n - 53;
             q = n div 2 ^ s;
             r = n mod 2 ^ s;
             h = 2 ^ (s - 1)
         in (if h < r \<or> (r = h \<and> odd q) then q + 1 else q) * 2 ^ s))"

definition int_as_f64 :: "int \<Rightarrow> f64" where
  "int_as_f64 i = Finite (signed (i < 0) (int (round53 (nat \<bar>i\<bar>))) * 2 ^ 1074)"

fun f64_lt :: "f64 \<Rightarrow> f64 \<Rightarrow> bool" where
  "f64_lt NaN _ = False"
| "f64_lt _ NaN = False"
| "f64_lt (Finite a) (Finite b) = (a < b)"
| "f64_lt NegInf b = (b \<noteq> NegInf)"
| "f64_lt a PosInf = (a \<noteq> PosInf)"
| "f64_lt _ _ = False"

definition f64_le :: "f64 \<Rightarrow> f64 \<Rightarrow> bool" where
  "f64_le a b = (f64_lt a b \<or> (a = b \<and> a \<noteq> NaN))"

text \<open>
  \<open>(a - b).abs() < f64::EPSILON\<close>. The difference is rounded to the nearest double, so it is below
  \<open>2 ^ -52\<close> exactly when the real difference is below the midpoint between \<open>2 ^ -52\<close> and the double
  before it. The difference of equal infinities is NaN.
\<close>

fun f64_near :: "f64 \<Rightarrow> f64 \<Rightarrow> bool" where
  "f64_near (Finite a) (Finite b) = (\<bar>a - b\<bar> < 2 ^ 1022 - 2 ^ 968)"
| "f64_near _ _ = False"

fun scalar_to_f64 :: "scalar_value \<Rightarrow> f64 option" where
  "scalar_to_f64 (Float64V (Some f)) = Some (decode64 f)"
| "scalar_to_f64 (Float32V (Some f)) = Some (decode32 f)"
| "scalar_to_f64 (Int64V (Some i)) = Some (int_as_f64 i)"
| "scalar_to_f64 (Int32V (Some i)) = Some (int_as_f64 i)"
| "scalar_to_f64 (Int16V (Some i)) = Some (int_as_f64 i)"
| "scalar_to_f64 (Int8V (Some i)) = Some (int_as_f64 i)"
| "scalar_to_f64 (UInt64V (Some u)) = Some (int_as_f64 (int u))"
| "scalar_to_f64 (UInt32V (Some u)) = Some (int_as_f64 (int u))"
| "scalar_to_f64 (UInt16V (Some u)) = Some (int_as_f64 (int u))"
| "scalar_to_f64 (UInt8V (Some u)) = Some (int_as_f64 (int u))"
| "scalar_to_f64 _ = None"

section \<open>Parsed expressions and errors\<close>

datatype sql_value =
    SingleQuotedString string | DoubleQuotedString string | NumberLit string | BooleanLit bool | NullLit
  | OtherLit string

datatype binary_operator = AndOp | OrOp | EqOp | NotEqOp | LtOp | GtOp | LtEqOp | GtEqOp | OtherOp string

datatype sql_expr =
    Nested sql_expr
  | UnaryNot sql_expr
  | UnaryOther string sql_expr
  | BinaryOp sql_expr binary_operator sql_expr
  | BetweenExpr sql_expr bool sql_expr sql_expr
  | InListExpr sql_expr "sql_expr list" bool
  | IsNullExpr sql_expr | IsNotNullExpr sql_expr
  | IsTrueExpr sql_expr | IsNotTrueExpr sql_expr
  | IsFalseExpr sql_expr | IsNotFalseExpr sql_expr
  | LikeExpr bool bool sql_expr sql_expr "sql_value option"
  | ILikeExpr bool bool sql_expr sql_expr "sql_value option"
  | Identifier string
  | CompoundIdentifier "string list"
  | ValueLit sql_value
  | SubqueryExpr string
  | OtherExpr string

datatype row_filter_error =
    ParseError string | InvalidSyntax | UnsupportedSubquery | UnsupportedExpression
  | UnsupportedOperator | InvalidOperation

record filter_env =
  fe_parse_f64 :: "string \<Rightarrow> nat option"
  fe_lower :: "string \<Rightarrow> string"
  fe_upper :: "string \<Rightarrow> string"
  fe_regex_escape :: "char \<Rightarrow> string"
  fe_regex :: "bool \<Rightarrow> string \<Rightarrow> (string \<Rightarrow> bool) option"

section \<open>Values\<close>

record column_ref =
  cr_name :: string
  cr_lower_name :: string
  cr_upper_name :: string

datatype value_expr = Column column_ref | Literal scalar_value

definition column_ref_new :: "filter_env \<Rightarrow> string \<Rightarrow> column_ref" where
  "column_ref_new env n = \<lparr>cr_name = n, cr_lower_name = fe_lower env n, cr_upper_name = fe_upper env n\<rparr>"

definition column_lookup :: "column_ref \<Rightarrow> row \<Rightarrow> scalar_value option" where
  "column_lookup c r =
     (case bt_get r (cr_name c) of Some v \<Rightarrow> Some v
      | None \<Rightarrow> (case bt_get r (cr_lower_name c) of Some v \<Rightarrow> Some v | None \<Rightarrow> bt_get r (cr_upper_name c)))"

text \<open>\<open>str::parse::<i64>\<close>: an optional sign and decimal digits within range.\<close>

definition parse_i64 :: "string \<Rightarrow> int option" where
  "parse_i64 s =
     (case s of
        c # rest \<Rightarrow>
          if c = CHR ''-'' then map_option (\<lambda>n. - int n) (if rest = [] then None else parse_digits (2 ^ 63) 0 rest)
          else map_option int (parse_unsigned (2 ^ 63 - 1) s)
      | [] \<Rightarrow> None)"

definition scalar_from_value :: "filter_env \<Rightarrow> sql_value \<Rightarrow> row_filter_error + scalar_value" where
  "scalar_from_value env v =
     (case v of
        SingleQuotedString s \<Rightarrow> Inr (Utf8V (Some s))
      | DoubleQuotedString s \<Rightarrow> Inr (Utf8V (Some s))
      | NumberLit n \<Rightarrow>
          (case parse_i64 n of
             Some i \<Rightarrow> Inr (Int64V (Some i))
           | None \<Rightarrow> (case fe_parse_f64 env n of Some f \<Rightarrow> Inr (Float64V (Some f)) | None \<Rightarrow> Inl InvalidOperation))
      | BooleanLit b \<Rightarrow> Inr (BooleanV (Some b))
      | NullLit \<Rightarrow> Inr NullV
      | OtherLit _ \<Rightarrow> Inl UnsupportedExpression)"

fun value_compile :: "filter_env \<Rightarrow> sql_expr \<Rightarrow> row_filter_error + value_expr" where
  "value_compile env (Nested e) = value_compile env e"
| "value_compile env (Identifier n) = Inr (Column (column_ref_new env n))"
| "value_compile env (CompoundIdentifier parts) =
     (if parts = [] then Inl InvalidOperation else Inr (Column (column_ref_new env (last parts))))"
| "value_compile env (ValueLit v) = map_sum id Literal (scalar_from_value env v)"
| "value_compile env _ = Inl UnsupportedExpression"

fun value_evaluate :: "value_expr \<Rightarrow> row \<Rightarrow> scalar_value" where
  "value_evaluate (Column c) r = (case column_lookup c r of Some v \<Rightarrow> v | None \<Rightarrow> NullV)"
| "value_evaluate (Literal v) r = v"

fun scalar_as_str :: "scalar_value \<Rightarrow> string option" where
  "scalar_as_str (Utf8V (Some s)) = Some s"
| "scalar_as_str (LargeUtf8V (Some s)) = Some s"
| "scalar_as_str _ = None"

fun literal_string :: "value_expr \<Rightarrow> string option" where
  "literal_string (Literal v) = scalar_as_str v"
| "literal_string (Column _) = None"

section \<open>LIKE\<close>

record like_predicate =
  lk_value :: value_expr
  lk_pattern :: value_expr
  lk_literal_regex :: "(string \<Rightarrow> bool) option"
  lk_negated :: bool
  lk_escape_char :: "char option"
  lk_case_insensitive :: bool

fun like_regex_loop :: "filter_env \<Rightarrow> char option \<Rightarrow> bool \<Rightarrow> string \<Rightarrow> string \<Rightarrow> row_filter_error + string" where
  "like_regex_loop env esc escaped acc [] = (if escaped then Inl InvalidOperation else Inr (acc @ ''$''))"
| "like_regex_loop env esc escaped acc (ch # rest) =
     (if escaped then like_regex_loop env esc False (acc @ fe_regex_escape env ch) rest
      else if Some ch = esc then like_regex_loop env esc True acc rest
      else like_regex_loop env esc False
             (acc @ (if ch = CHR 0x25 then ''.*'' else if ch = CHR 0x5F then ''.'' else fe_regex_escape env ch)) rest)"

definition build_like_regex_pattern :: "filter_env \<Rightarrow> string \<Rightarrow> char option \<Rightarrow> row_filter_error + string" where
  "build_like_regex_pattern env pat esc = like_regex_loop env esc False ''^'' pat"

definition compile_like_regex ::
    "filter_env \<Rightarrow> string \<Rightarrow> char option \<Rightarrow> bool \<Rightarrow> row_filter_error + (string \<Rightarrow> bool)" where
  "compile_like_regex env pat esc ci =
     (case build_like_regex_pattern env pat esc of
        Inl e \<Rightarrow> Inl e
      | Inr rx \<Rightarrow> (case fe_regex env ci rx of None \<Rightarrow> Inl InvalidOperation | Some m \<Rightarrow> Inr m))"

fun parse_like_escape_char :: "sql_value option \<Rightarrow> row_filter_error + char option" where
  "parse_like_escape_char None = Inr None"
| "parse_like_escape_char (Some (SingleQuotedString s)) =
     (case s of [c] \<Rightarrow> Inr (Some c) | _ \<Rightarrow> Inl InvalidOperation)"
| "parse_like_escape_char (Some (DoubleQuotedString s)) =
     (case s of [c] \<Rightarrow> Inr (Some c) | _ \<Rightarrow> Inl InvalidOperation)"
| "parse_like_escape_char (Some _) = Inl UnsupportedExpression"

definition like_compile ::
    "filter_env \<Rightarrow> sql_expr \<Rightarrow> sql_expr \<Rightarrow> bool \<Rightarrow> bool \<Rightarrow> sql_value option \<Rightarrow> bool \<Rightarrow> row_filter_error + like_predicate" where
  "like_compile env v pat neg any esc ci =
     (if any then Inl UnsupportedExpression
      else case value_compile env v of
        Inl e \<Rightarrow> Inl e
      | Inr value \<Rightarrow>
          (case value_compile env pat of
             Inl e \<Rightarrow> Inl e
           | Inr p \<Rightarrow>
               (case parse_like_escape_char esc of
                  Inl e \<Rightarrow> Inl e
                | Inr ec \<Rightarrow>
                    (let result = (\<lambda>rx. \<lparr>lk_value = value, lk_pattern = p, lk_literal_regex = rx, lk_negated = neg,
                           lk_escape_char = ec, lk_case_insensitive = ci\<rparr>)
                     in case literal_string p of
                          None \<Rightarrow> Inr (result None)
                        | Some lit \<Rightarrow>
                            (case compile_like_regex env lit ec ci of
                               Inl e \<Rightarrow> Inl e | Inr rx \<Rightarrow> Inr (result (Some rx)))))))"

definition like_evaluate :: "filter_env \<Rightarrow> like_predicate \<Rightarrow> row \<Rightarrow> row_filter_error + bool" where
  "like_evaluate env lk r =
     (let value = value_evaluate (lk_value lk) r in
      if is_null value then Inr False
      else case scalar_as_str value of
        None \<Rightarrow> Inl InvalidOperation
      | Some text \<Rightarrow>
          (let finish = (\<lambda>matched. Inr (if lk_negated lk then \<not> matched else matched)) in
           case lk_literal_regex lk of
             Some rx \<Rightarrow> finish (rx text)
           | None \<Rightarrow>
               (let pat = value_evaluate (lk_pattern lk) r in
                if is_null pat then Inr False
                else case scalar_as_str pat of
                  None \<Rightarrow> Inl InvalidOperation
                | Some p \<Rightarrow>
                    (case compile_like_regex env p (lk_escape_char lk) (lk_case_insensitive lk) of
                       Inl e \<Rightarrow> Inl e | Inr rx \<Rightarrow> finish (rx text)))))"

section \<open>Predicates\<close>

datatype comparison_op = CmpEq | CmpNotEq | CmpLt | CmpGt | CmpLtEq | CmpGtEq

fun from_binary_operator :: "binary_operator \<Rightarrow> row_filter_error + comparison_op" where
  "from_binary_operator EqOp = Inr CmpEq"
| "from_binary_operator NotEqOp = Inr CmpNotEq"
| "from_binary_operator LtOp = Inr CmpLt"
| "from_binary_operator GtOp = Inr CmpGt"
| "from_binary_operator LtEqOp = Inr CmpLtEq"
| "from_binary_operator GtEqOp = Inr CmpGtEq"
| "from_binary_operator _ = Inl UnsupportedOperator"

definition scalars_equal :: "scalar_value \<Rightarrow> scalar_value \<Rightarrow> bool" where
  "scalars_equal l r =
     (if l = r then True
      else case (scalar_as_str l, scalar_as_str r) of
        (Some a, Some b) \<Rightarrow> a = b
      | _ \<Rightarrow>
          (case (scalar_to_f64 l, scalar_to_f64 r) of
             (Some a, Some b) \<Rightarrow> f64_near a b
           | _ \<Rightarrow> False))"

definition compare_numeric ::
    "scalar_value \<Rightarrow> scalar_value \<Rightarrow> (f64 \<Rightarrow> f64 \<Rightarrow> bool) \<Rightarrow> row_filter_error + bool" where
  "compare_numeric l r cmp =
     (case scalar_to_f64 l of
        None \<Rightarrow> Inl InvalidOperation
      | Some a \<Rightarrow> (case scalar_to_f64 r of None \<Rightarrow> Inl InvalidOperation | Some b \<Rightarrow> Inr (cmp a b)))"

definition compare_scalars :: "scalar_value \<Rightarrow> comparison_op \<Rightarrow> scalar_value \<Rightarrow> row_filter_error + bool" where
  "compare_scalars l op r =
     (if is_null l \<or> is_null r then Inr False
      else case op of
        CmpEq \<Rightarrow> Inr (scalars_equal l r)
      | CmpNotEq \<Rightarrow> Inr (\<not> scalars_equal l r)
      | CmpLt \<Rightarrow> compare_numeric l r f64_lt
      | CmpGt \<Rightarrow> compare_numeric l r (\<lambda>a b. f64_lt b a)
      | CmpLtEq \<Rightarrow> compare_numeric l r f64_le
      | CmpGtEq \<Rightarrow> compare_numeric l r (\<lambda>a b. f64_le b a))"

datatype filter_predicate =
    PBool value_expr
  | PNot filter_predicate
  | PAnd filter_predicate filter_predicate
  | POr filter_predicate filter_predicate
  | PComparison value_expr comparison_op value_expr
  | PBetween value_expr value_expr value_expr bool
  | PInList value_expr "value_expr list" bool
  | PIsNull value_expr bool
  | PIsTrue value_expr bool
  | PIsFalse value_expr bool
  | PLike like_predicate

definition max_filter_depth :: nat where
  "max_filter_depth = 64"

definition max_in_list_values :: nat where
  "max_in_list_values = 1024"

text \<open>\<open>collect::<Result<Vec<_>, _>>\<close>: the first error wins.\<close>

fun collect_values :: "filter_env \<Rightarrow> sql_expr list \<Rightarrow> row_filter_error + value_expr list" where
  "collect_values env [] = Inr []"
| "collect_values env (e # es) =
     (case value_compile env e of
        Inl x \<Rightarrow> Inl x
      | Inr v \<Rightarrow> (case collect_values env es of Inl x \<Rightarrow> Inl x | Inr vs \<Rightarrow> Inr (v # vs)))"

definition with_value ::
    "filter_env \<Rightarrow> sql_expr \<Rightarrow> (value_expr \<Rightarrow> filter_predicate) \<Rightarrow> row_filter_error + filter_predicate \<times> nat" where
  "with_value env e f = (case value_compile env e of Inl x \<Rightarrow> Inl x | Inr v \<Rightarrow> Inr (f v, 1))"

text \<open>A compiled predicate carries its complexity.\<close>

fun predicate_compile :: "filter_env \<Rightarrow> sql_expr \<Rightarrow> nat \<Rightarrow> row_filter_error + filter_predicate \<times> nat" where
  "predicate_compile env e depth =
     (if max_filter_depth < depth then Inl InvalidOperation
      else case e of
        Nested i \<Rightarrow> predicate_compile env i (depth + 1)
      | UnaryNot i \<Rightarrow>
          (case predicate_compile env i (depth + 1) of Inl x \<Rightarrow> Inl x | Inr (p, c) \<Rightarrow> Inr (PNot p, c + 1))
      | UnaryOther _ _ \<Rightarrow> Inl UnsupportedOperator
      | BinaryOp l op r \<Rightarrow>
          (if op = AndOp \<or> op = OrOp then
             (case predicate_compile env l (depth + 1) of
                Inl x \<Rightarrow> Inl x
              | Inr (p, c) \<Rightarrow>
                  (case predicate_compile env r (depth + 1) of
                     Inl x \<Rightarrow> Inl x
                   | Inr (q, d) \<Rightarrow> Inr (if op = AndOp then PAnd p q else POr p q, c + d + 1)))
           else
             (case value_compile env l of
                Inl x \<Rightarrow> Inl x
              | Inr lv \<Rightarrow>
                  (case from_binary_operator op of
                     Inl x \<Rightarrow> Inl x
                   | Inr cop \<Rightarrow>
                       (case value_compile env r of Inl x \<Rightarrow> Inl x | Inr rv \<Rightarrow> Inr (PComparison lv cop rv, 1)))))
      | BetweenExpr v neg lo hi \<Rightarrow>
          (case value_compile env v of
             Inl x \<Rightarrow> Inl x
           | Inr vv \<Rightarrow>
               (case value_compile env lo of
                  Inl x \<Rightarrow> Inl x
                | Inr lv \<Rightarrow> (case value_compile env hi of Inl x \<Rightarrow> Inl x | Inr hv \<Rightarrow> Inr (PBetween vv lv hv neg, 1))))
      | InListExpr v items neg \<Rightarrow>
          (if max_in_list_values < length items then Inl InvalidOperation
           else case value_compile env v of
             Inl x \<Rightarrow> Inl x
           | Inr vv \<Rightarrow>
               (case collect_values env items of
                  Inl x \<Rightarrow> Inl x | Inr vs \<Rightarrow> Inr (PInList vv vs neg, length items + 1)))
      | IsNullExpr v \<Rightarrow> with_value env v (\<lambda>x. PIsNull x False)
      | IsNotNullExpr v \<Rightarrow> with_value env v (\<lambda>x. PIsNull x True)
      | IsTrueExpr v \<Rightarrow> with_value env v (\<lambda>x. PIsTrue x False)
      | IsNotTrueExpr v \<Rightarrow> with_value env v (\<lambda>x. PIsTrue x True)
      | IsFalseExpr v \<Rightarrow> with_value env v (\<lambda>x. PIsFalse x False)
      | IsNotFalseExpr v \<Rightarrow> with_value env v (\<lambda>x. PIsFalse x True)
      | LikeExpr neg any v pat esc \<Rightarrow>
          (case like_compile env v pat neg any esc False of Inl x \<Rightarrow> Inl x | Inr lk \<Rightarrow> Inr (PLike lk, 1))
      | ILikeExpr neg any v pat esc \<Rightarrow>
          (case like_compile env v pat neg any esc True of Inl x \<Rightarrow> Inl x | Inr lk \<Rightarrow> Inr (PLike lk, 1))
      | Identifier _ \<Rightarrow> with_value env e PBool
      | CompoundIdentifier _ \<Rightarrow> with_value env e PBool
      | ValueLit _ \<Rightarrow> with_value env e PBool
      | SubqueryExpr _ \<Rightarrow> Inl UnsupportedSubquery
      | OtherExpr _ \<Rightarrow> Inl UnsupportedExpression)"

declare predicate_compile.simps [simp del]

definition coerce_to_bool :: "scalar_value \<Rightarrow> row_filter_error + bool" where
  "coerce_to_bool v =
     (if is_null v then Inr False
      else case v of BooleanV (Some b) \<Rightarrow> Inr b | _ \<Rightarrow> Inl InvalidOperation)"

text \<open>The membership loop stops at the first match, so later items are not compared.\<close>

fun in_list_loop :: "scalar_value \<Rightarrow> value_expr list \<Rightarrow> row \<Rightarrow> row_filter_error + bool" where
  "in_list_loop v [] r = Inr False"
| "in_list_loop v (i # is) r =
     (case compare_scalars v CmpEq (value_evaluate i r) of
        Inl x \<Rightarrow> Inl x | Inr True \<Rightarrow> Inr True | Inr False \<Rightarrow> in_list_loop v is r)"

definition negate_if :: "bool \<Rightarrow> bool \<Rightarrow> bool" where
  "negate_if neg b = (if neg then \<not> b else b)"

fun predicate_evaluate :: "filter_env \<Rightarrow> filter_predicate \<Rightarrow> row \<Rightarrow> row_filter_error + bool" where
  "predicate_evaluate env (PBool v) r = coerce_to_bool (value_evaluate v r)"
| "predicate_evaluate env (PNot p) r = map_sum id Not (predicate_evaluate env p r)"
| "predicate_evaluate env (PAnd p q) r =
     (case predicate_evaluate env p r of
        Inl x \<Rightarrow> Inl x | Inr False \<Rightarrow> Inr False | Inr True \<Rightarrow> predicate_evaluate env q r)"
| "predicate_evaluate env (POr p q) r =
     (case predicate_evaluate env p r of
        Inl x \<Rightarrow> Inl x | Inr True \<Rightarrow> Inr True | Inr False \<Rightarrow> predicate_evaluate env q r)"
| "predicate_evaluate env (PComparison l op rv) r = compare_scalars (value_evaluate l r) op (value_evaluate rv r)"
| "predicate_evaluate env (PBetween v lo hi neg) r =
     (case compare_scalars (value_evaluate v r) CmpGtEq (value_evaluate lo r) of
        Inl x \<Rightarrow> Inl x
      | Inr False \<Rightarrow> Inr (negate_if neg False)
      | Inr True \<Rightarrow> map_sum id (negate_if neg) (compare_scalars (value_evaluate v r) CmpLtEq (value_evaluate hi r)))"
| "predicate_evaluate env (PInList v items neg) r =
     (if is_null (value_evaluate v r) then Inr False
      else map_sum id (negate_if neg) (in_list_loop (value_evaluate v r) items r))"
| "predicate_evaluate env (PIsNull v neg) r = Inr (negate_if neg (is_null (value_evaluate v r)))"
| "predicate_evaluate env (PIsTrue v neg) r = Inr (negate_if neg (value_evaluate v r = BooleanV (Some True)))"
| "predicate_evaluate env (PIsFalse v neg) r = Inr (negate_if neg (value_evaluate v r = BooleanV (Some False)))"
| "predicate_evaluate env (PLike lk) r = like_evaluate env lk r"

record row_filter =
  rf_predicate :: filter_predicate
  rf_complexity :: nat

definition try_from_expr :: "filter_env \<Rightarrow> sql_expr \<Rightarrow> row_filter_error + row_filter" where
  "try_from_expr env e =
     map_sum id (\<lambda>(p, c). \<lparr>rf_predicate = p, rf_complexity = c\<rparr>) (predicate_compile env e 0)"

definition filter_matches :: "filter_env \<Rightarrow> row_filter \<Rightarrow> row \<Rightarrow> row_filter_error + bool" where
  "filter_matches env f r = predicate_evaluate env (rf_predicate f) r"

section \<open>Three-valued SQL semantics\<close>

text \<open>
  The SQL reading of the same predicates, in three-valued logic: a comparison with NULL is unknown,
  and a row satisfies a WHERE clause when the clause is true. A leaf that the code rejects with an
  error is unknown here.
\<close>

datatype tri = TTrue | TFalse | TUnknown

fun tri_not :: "tri \<Rightarrow> tri" where
  "tri_not TTrue = TFalse"
| "tri_not TFalse = TTrue"
| "tri_not TUnknown = TUnknown"

fun tri_and :: "tri \<Rightarrow> tri \<Rightarrow> tri" where
  "tri_and TTrue b = b"
| "tri_and TFalse b = TFalse"
| "tri_and TUnknown b = (if b = TFalse then TFalse else TUnknown)"

definition tri_or :: "tri \<Rightarrow> tri \<Rightarrow> tri" where
  "tri_or a b = tri_not (tri_and (tri_not a) (tri_not b))"

fun tri_of :: "row_filter_error + bool \<Rightarrow> tri" where
  "tri_of (Inr b) = (if b then TTrue else TFalse)"
| "tri_of (Inl _) = TUnknown"

definition tri_neg_if :: "bool \<Rightarrow> tri \<Rightarrow> tri" where
  "tri_neg_if neg t = (if neg then tri_not t else t)"

definition sql_compare :: "scalar_value \<Rightarrow> comparison_op \<Rightarrow> scalar_value \<Rightarrow> tri" where
  "sql_compare l op r = (if is_null l \<or> is_null r then TUnknown else tri_of (compare_scalars l op r))"

definition sql_between :: "value_expr \<Rightarrow> value_expr \<Rightarrow> value_expr \<Rightarrow> row \<Rightarrow> tri" where
  "sql_between v lo hi r =
     tri_and (sql_compare (value_evaluate v r) CmpGtEq (value_evaluate lo r))
             (sql_compare (value_evaluate v r) CmpLtEq (value_evaluate hi r))"

definition sql_in_list :: "value_expr \<Rightarrow> value_expr list \<Rightarrow> row \<Rightarrow> tri" where
  "sql_in_list v items r =
     (if is_null (value_evaluate v r) then TUnknown
      else foldr (\<lambda>i t. tri_or (sql_compare (value_evaluate v r) CmpEq (value_evaluate i r)) t) items TFalse)"

fun sql_eval :: "filter_env \<Rightarrow> filter_predicate \<Rightarrow> row \<Rightarrow> tri" where
  "sql_eval env (PBool v) r =
     (if is_null (value_evaluate v r) then TUnknown else tri_of (coerce_to_bool (value_evaluate v r)))"
| "sql_eval env (PNot p) r = tri_not (sql_eval env p r)"
| "sql_eval env (PAnd p q) r = tri_and (sql_eval env p r) (sql_eval env q r)"
| "sql_eval env (POr p q) r = tri_or (sql_eval env p r) (sql_eval env q r)"
| "sql_eval env (PComparison l op rv) r = sql_compare (value_evaluate l r) op (value_evaluate rv r)"
| "sql_eval env (PBetween v lo hi neg) r = tri_neg_if neg (sql_between v lo hi r)"
| "sql_eval env (PInList v items neg) r = tri_neg_if neg (sql_in_list v items r)"
| "sql_eval env (PIsNull v neg) r = tri_of (Inr (negate_if neg (is_null (value_evaluate v r))))"
| "sql_eval env (PIsTrue v neg) r = tri_of (Inr (negate_if neg (value_evaluate v r = BooleanV (Some True))))"
| "sql_eval env (PIsFalse v neg) r = tri_of (Inr (negate_if neg (value_evaluate v r = BooleanV (Some False))))"
| "sql_eval env (PLike lk) r =
     (if is_null (value_evaluate (lk_value lk) r) \<or>
         lk_literal_regex lk = None \<and> is_null (value_evaluate (lk_pattern lk) r)
      then TUnknown else tri_of (like_evaluate env lk r))"

text \<open>No negation is applied to an unknown operand on this row.\<close>

fun negations_known :: "filter_env \<Rightarrow> filter_predicate \<Rightarrow> row \<Rightarrow> bool" where
  "negations_known env (PNot p) r = (sql_eval env p r \<noteq> TUnknown \<and> negations_known env p r)"
| "negations_known env (PAnd p q) r = (negations_known env p r \<and> negations_known env q r)"
| "negations_known env (POr p q) r = (negations_known env p r \<and> negations_known env q r)"
| "negations_known env (PBetween v lo hi neg) r = (neg \<longrightarrow> sql_between v lo hi r \<noteq> TUnknown)"
| "negations_known env (PInList v items neg) r = (neg \<longrightarrow> sql_in_list v items r \<noteq> TUnknown)"
| "negations_known env _ r = True"

lemma tri_true_iff:
  "tri_not t = TTrue \<longleftrightarrow> t = TFalse"
  "tri_and a b = TTrue \<longleftrightarrow> a = TTrue \<and> b = TTrue"
  "tri_or a b = TTrue \<longleftrightarrow> a = TTrue \<or> b = TTrue"
  by (cases t; simp) (cases a; cases b; simp add: tri_or_def)+

lemma tri_neg_if_true:
  "(neg \<longrightarrow> t \<noteq> TUnknown) \<Longrightarrow> tri_neg_if neg t = TTrue \<longleftrightarrow> negate_if neg (t = TTrue)"
  by (cases t) (auto simp: tri_neg_if_def negate_if_def)

lemma sql_compare_true: "compare_scalars l op r = Inr b \<Longrightarrow> sql_compare l op r = TTrue \<longleftrightarrow> b"
  by (auto simp: sql_compare_def compare_scalars_def split: if_splits)

lemma sql_in_list_true:
  assumes "in_list_loop (value_evaluate v r) items r = Inr b" "\<not> is_null (value_evaluate v r)"
  shows "sql_in_list v items r = TTrue \<longleftrightarrow> b"
  using assms
proof (induction items)
  case (Cons i items)
  obtain c where c: "compare_scalars (value_evaluate v r) CmpEq (value_evaluate i r) = Inr c"
    using Cons.prems(1) by (auto split: sum.splits)
  with Cons sql_compare_true [OF c] show ?case
    by (cases c) (auto simp: sql_in_list_def tri_true_iff)
qed (simp add: sql_in_list_def)

lemma sql_between_true:
  assumes "predicate_evaluate env (PBetween v lo hi neg) r = Inr b"
  shows "b = negate_if neg (sql_between v lo hi r = TTrue)"
proof -
  obtain c where c: "compare_scalars (value_evaluate v r) CmpGtEq (value_evaluate lo r) = Inr c"
    using assms by (auto split: sum.splits)
  show ?thesis
  proof (cases c)
    case True
    then obtain d where d: "compare_scalars (value_evaluate v r) CmpLtEq (value_evaluate hi r) = Inr d"
      using assms c by (cases "compare_scalars (value_evaluate v r) CmpLtEq (value_evaluate hi r)") auto
    with True assms c show ?thesis
      by (simp add: sql_between_def tri_true_iff sql_compare_true [OF c] sql_compare_true [OF d])
  next
    case False
    with assms c show ?thesis
      by (simp add: sql_between_def tri_true_iff sql_compare_true [OF c])
  qed
qed


definition example_env :: filter_env where
  "example_env = \<lparr>fe_parse_f64 = (\<lambda>_. None), fe_lower = id, fe_upper = id, fe_regex_escape = (\<lambda>c. [c]),
     fe_regex = (\<lambda>_ _. None)\<rparr>"

definition example_filter :: "bool \<Rightarrow> row_filter" where
  "example_filter neg =
     (let eq = BinaryOp (Identifier ''state'') EqOp (ValueLit (SingleQuotedString ''open''))
      in case try_from_expr example_env (if neg then UnaryNot eq else eq) of
           Inr f \<Rightarrow> f | Inl _ \<Rightarrow> \<lparr>rf_predicate = PBool (Literal NullV), rf_complexity = 0\<rparr>)"

lemma example_filter_eq:
  "example_filter neg =
     (let p = PComparison (Column \<lparr>cr_name = ''state'', cr_lower_name = ''state'', cr_upper_name = ''state''\<rparr>)
            CmpEq (Literal (Utf8V (Some ''open'')))
      in \<lparr>rf_predicate = (if neg then PNot p else p), rf_complexity = (if neg then 2 else 1)\<rparr>)"
  by (simp add: example_filter_def try_from_expr_def predicate_compile.simps max_filter_depth_def
      column_ref_new_def example_env_def scalar_from_value_def Let_def)


text \<open>A negated comparison does match rows whose column is NULL, where SQL leaves them out.\<close>

lemma negated_filter_matches_null:
  "filter_matches example_env (example_filter True) [(''state'', Utf8V None)] = Inr True \<and>
   sql_eval example_env (rf_predicate (example_filter True)) [(''state'', Utf8V None)] = TUnknown"
  by (simp add: filter_matches_def example_filter_eq Let_def column_lookup_def bt_get_def compare_scalars_def
      sql_compare_def)

text \<open>Integers beyond 53 bits are compared after rounding, so distinct keys can be equal.\<close>

lemma large_integers_compare_equal:
  "compare_scalars (Int64V (Some 9007199254740993)) CmpEq (Int64V (Some 9007199254740992)) = Inr True"
  by (simp add: compare_scalars_def scalars_equal_def int_as_f64_def round53_def signed_def bit_length.simps)

end
