(* ===== verification/TopicPartition.thy ===== *)
theory TopicPartition
  imports KPrelude
begin

text \<open>
  Topic messages and the per-partition runtime of the publisher: the bounded in-memory tail of
  recently published messages and the write state that assigns offsets, from
  \<open>kalamdb-publisher/src/partition.rs\<close> and \<open>kalamdb-tables/src/topics/topic_message_models.rs\<close>.
  The locale \<open>log_reader\<close> is what consumers rely on when they read a partition from an offset; the
  tail is interpreted here, the durable store and the service in the theories that define them.
\<close>

section \<open>Messages\<close>

type_synonym topic_id = string
type_synonym consumer_group_id = string

datatype topic_op = TopicInsert | TopicUpdate | TopicDelete

record topic_message =
  tm_topic_id :: topic_id
  tm_partition_id :: nat
  tm_offset :: nat
  tm_payload :: string
  tm_key :: "string option"
  tm_timestamp_ms :: int
  tm_user_id :: "user_id option"
  tm_op :: topic_op

text \<open>The composite storage keys; the encoding preserves their lexicographic order.\<close>

type_synonym topic_message_id = "topic_id \<times> nat \<times> nat"
type_synonym topic_retention_index_key = "topic_id \<times> nat \<times> int \<times> nat"

definition message_id :: "topic_message \<Rightarrow> topic_message_id" where
  "message_id m = (tm_topic_id m, tm_partition_id m, tm_offset m)"

definition new_with_user ::
    "topic_id \<Rightarrow> nat \<Rightarrow> nat \<Rightarrow> string \<Rightarrow> string option \<Rightarrow> int \<Rightarrow> user_id option \<Rightarrow> topic_op \<Rightarrow> topic_message" where
  "new_with_user t p off payload key ts u op =
     \<lparr>tm_topic_id = t, tm_partition_id = p, tm_offset = off, tm_payload = payload, tm_key = key,
      tm_timestamp_ms = ts, tm_user_id = u, tm_op = op\<rparr>"

lemma new_with_user_sel [simp]:
  "tm_topic_id (new_with_user t p off payload key ts u op) = t"
  "tm_partition_id (new_with_user t p off payload key ts u op) = p"
  "tm_offset (new_with_user t p off payload key ts u op) = off"
  "tm_payload (new_with_user t p off payload key ts u op) = payload"
  "tm_timestamp_ms (new_with_user t p off payload key ts u op) = ts"
  by (simp_all add: new_with_user_def)

section \<open>The partition tail\<close>

definition tail_max_messages :: nat where
  "tail_max_messages = 1024"

definition tail_max_bytes :: nat where
  "tail_max_bytes = 1024 * 1024"

record partition_tail =
  pt_start :: nat
  pt_end :: nat
  pt_bytes :: nat
  pt_messages :: "topic_message list"

definition tail_default :: partition_tail where
  "tail_default = \<lparr>pt_start = 0, pt_end = 0, pt_bytes = 0, pt_messages = []\<rparr>"

text \<open>The loop of \<open>trim_capacity\<close> over the front of the queue.\<close>

fun capacity_loop :: "nat \<Rightarrow> nat \<Rightarrow> topic_message list \<Rightarrow> nat \<times> nat \<times> topic_message list" where
  "capacity_loop start bytes [] = (start, bytes, [])"
| "capacity_loop start bytes (m # ms) =
     (if tail_max_messages < length (m # ms) \<or> tail_max_bytes < bytes
      then capacity_loop (sat_add (tm_offset m) 1) (bytes - length (tm_payload m)) ms
      else (start, bytes, m # ms))"

definition trim_capacity :: "partition_tail \<Rightarrow> partition_tail" where
  "trim_capacity t =
     (case capacity_loop (pt_start t) (pt_bytes t) (pt_messages t) of
        (start, bytes, ms) \<Rightarrow>
          if ms = [] then t\<lparr>pt_start := start, pt_end := start, pt_bytes := 0, pt_messages := []\<rparr>
          else t\<lparr>pt_start := start, pt_bytes := bytes, pt_messages := ms\<rparr>)"

definition tail_clear :: "partition_tail \<Rightarrow> partition_tail" where
  "tail_clear t = t\<lparr>pt_messages := [], pt_start := 0, pt_end := 0, pt_bytes := 0\<rparr>"

definition tail_append :: "topic_message \<Rightarrow> partition_tail \<Rightarrow> partition_tail" where
  "tail_append m t =
     (let t1 = (if pt_messages t \<noteq> [] \<and> tm_offset m \<noteq> pt_end t then tail_clear t else t) in
      if pt_messages t1 = [] then
        trim_capacity (t1\<lparr>pt_start := tm_offset m, pt_end := sat_add (tm_offset m) 1,
          pt_bytes := length (tm_payload m), pt_messages := [m]\<rparr>)
      else
        trim_capacity (t1\<lparr>pt_bytes := sat_add (pt_bytes t1) (length (tm_payload m)),
          pt_end := sat_add (tm_offset m) 1, pt_messages := pt_messages t1 @ [m]\<rparr>))"

definition append_messages :: "topic_message list \<Rightarrow> partition_tail \<Rightarrow> partition_tail" where
  "append_messages ms t = fold tail_append ms t"

text \<open>The loop of \<open>trim_below\<close>.\<close>

fun below_loop :: "nat \<Rightarrow> nat \<Rightarrow> nat \<Rightarrow> topic_message list \<Rightarrow> nat \<times> nat \<times> topic_message list" where
  "below_loop earliest start bytes [] = (start, bytes, [])"
| "below_loop earliest start bytes (m # ms) =
     (if earliest \<le> tm_offset m then (start, bytes, m # ms)
      else below_loop earliest (sat_add (tm_offset m) 1) (bytes - length (tm_payload m)) ms)"

definition trim_below :: "nat \<Rightarrow> partition_tail \<Rightarrow> partition_tail" where
  "trim_below earliest t =
     (case below_loop earliest (pt_start t) (pt_bytes t) (pt_messages t) of
        (start, bytes, ms) \<Rightarrow>
          if ms = [] then \<lparr>pt_start = earliest, pt_end = earliest, pt_bytes = 0, pt_messages = []\<rparr>
          else t\<lparr>pt_start := start, pt_bytes := bytes, pt_messages := ms\<rparr>)"

definition tail_fetch :: "partition_tail \<Rightarrow> nat \<Rightarrow> nat \<Rightarrow> topic_message list option" where
  "tail_fetch t off limit =
     (if pt_messages t = [] then None
      else if off = pt_end t then Some []
      else if off < pt_start t \<or> pt_end t < off then None
      else if limit = 0 then Some []
      else Some (take limit (drop (off - pt_start t) (pt_messages t))))"

section \<open>The write state\<close>

record partition_write_state =
  ws_next_offset :: "nat option"
  ws_retained_bytes :: "nat option"
  ws_log_start :: nat

definition write_state_default :: partition_write_state where
  "write_state_default = \<lparr>ws_next_offset = None, ws_retained_bytes = None, ws_log_start = 0\<rparr>"

definition allocate :: "nat \<Rightarrow> partition_write_state \<Rightarrow> nat \<times> partition_write_state" where
  "allocate count w =
     (let start = (case ws_next_offset w of None \<Rightarrow> 0 | Some n \<Rightarrow> n)
      in (start, w\<lparr>ws_next_offset := Some (sat_add start count)\<rparr>))"

definition seed :: "nat \<Rightarrow> partition_write_state \<Rightarrow> partition_write_state" where
  "seed n w = w\<lparr>ws_next_offset := Some n\<rparr>"

definition add_retained_bytes :: "nat \<Rightarrow> partition_write_state \<Rightarrow> partition_write_state" where
  "add_retained_bytes b w =
     (if b = 0 then w
      else w\<lparr>ws_retained_bytes :=
        Some (sat_add (case ws_retained_bytes w of None \<Rightarrow> 0 | Some r \<Rightarrow> r) b)\<rparr>)"

definition subtract_retained_bytes :: "nat \<Rightarrow> partition_write_state \<Rightarrow> partition_write_state" where
  "subtract_retained_bytes b w =
     (if b = 0 then w
      else w\<lparr>ws_retained_bytes :=
        Some (case ws_retained_bytes w of None \<Rightarrow> 0 | Some r \<Rightarrow> r - b)\<rparr>)"

definition set_retained_bytes :: "nat \<Rightarrow> partition_write_state \<Rightarrow> partition_write_state" where
  "set_retained_bytes b w = w\<lparr>ws_retained_bytes := Some b\<rparr>"

definition set_log_start :: "nat \<Rightarrow> partition_write_state \<Rightarrow> partition_write_state" where
  "set_log_start off w = (if ws_log_start w < off then w\<lparr>ws_log_start := off\<rparr> else w)"

record partition_runtime =
  pr_write :: partition_write_state
  pr_tail :: partition_tail

definition runtime_new :: partition_runtime where
  "runtime_new = \<lparr>pr_write = write_state_default, pr_tail = tail_default\<rparr>"

section \<open>Reading a log from an offset\<close>

text \<open>The messages of a log at or after an offset, at most \<open>limit\<close> of them.\<close>

definition page :: "topic_message list \<Rightarrow> nat \<Rightarrow> nat \<Rightarrow> topic_message list" where
  "page log off limit = take limit (filter (\<lambda>m. off \<le> tm_offset m) log)"

definition offsets_ascend :: "topic_message list \<Rightarrow> bool" where
  "offsets_ascend log = sorted_wrt (<) (map tm_offset log)"

text \<open>
  A reader of a partition log: an answer, when there is one, is the page of the log. The client
  lemmas are what a polling consumer needs: answers stay in order, lie in range, never exceed the
  limit, and continuing after the last message of a page yields the next page.
\<close>

locale log_reader =
  fixes log_of :: "'s \<Rightarrow> topic_message list"
    and fetch :: "'s \<Rightarrow> nat \<Rightarrow> nat \<Rightarrow> topic_message list option"
    and inv :: "'s \<Rightarrow> bool"
  assumes ascend: "inv s \<Longrightarrow> offsets_ascend (log_of s)"
    and fetch_page: "inv s \<Longrightarrow> fetch s off limit = Some ms \<Longrightarrow> ms = page (log_of s) off limit"
begin

lemma fetch_length: "inv s \<Longrightarrow> fetch s off limit = Some ms \<Longrightarrow> length ms \<le> limit"
  using fetch_page [of s off limit ms] by (auto simp: page_def)

lemma fetch_in_log:
  "inv s \<Longrightarrow> fetch s off limit = Some ms \<Longrightarrow> m \<in> set ms \<Longrightarrow> m \<in> set (log_of s) \<and> off \<le> tm_offset m"
  using fetch_page [of s off limit ms] by (auto simp: page_def dest: in_set_takeD)

lemma fetch_ascend:
  assumes "inv s" "fetch s off limit = Some ms"
  shows "offsets_ascend ms"
proof -
  have "sorted_wrt (<) (map tm_offset (filter (\<lambda>m. off \<le> tm_offset m) (log_of s)))"
    using ascend [OF assms(1)] by (simp add: offsets_ascend_def sorted_wrt_map sorted_wrt_filter)
  then show ?thesis
    using fetch_page [OF assms] by (simp add: page_def offsets_ascend_def sorted_wrt_map sorted_wrt_take)
qed

lemma fetch_resume:
  assumes "inv s" and one: "fetch s off n = Some ms" and two: "fetch s (tm_offset (last ms) + 1) k = Some ks"
    and "ms \<noteq> []"
  shows "ms @ ks = page (log_of s) off (length ms + k)"
proof -
  define ls where "ls = filter (\<lambda>m. off \<le> tm_offset m) (log_of s)"
  define rest where "rest = drop (length ms) ls"
  have ms: "ms = take n ls"
    using fetch_page [OF assms(1) one] by (simp add: page_def ls_def)
  then have ls: "ls = ms @ rest"
    by (metis append_take_drop_id length_take min.cobounded1 min_def rest_def take_all_iff linear)
  have "sorted_wrt (<) (map tm_offset ls)"
    using ascend [OF assms(1)] by (simp add: ls_def offsets_ascend_def sorted_wrt_map sorted_wrt_filter)
  then have order: "\<forall>x\<in>set ms. \<forall>y\<in>set rest. tm_offset x < tm_offset y"
    and inner: "sorted_wrt (<) (map tm_offset ms)"
    using ls by (auto simp: sorted_wrt_append)
  have last: "\<forall>x\<in>set ms. tm_offset x \<le> tm_offset (last ms)"
  proof -
    have "ms = butlast ms @ [last ms]"
      using assms(4) by simp
    then have "sorted_wrt (<) (map tm_offset (butlast ms) @ [tm_offset (last ms)])"
      using inner by (metis map_append list.simps(8,9))
    then have "\<forall>x\<in>set (butlast ms). tm_offset x < tm_offset (last ms)"
      by (simp add: sorted_wrt_append)
    then show ?thesis
      using \<open>ms = butlast ms @ [last ms]\<close>
      by (metis Un_iff empty_iff empty_set less_imp_le order_refl set_append set_ConsD)
  qed
  have low: "off \<le> tm_offset (last ms)"
  proof -
    have "last ms \<in> set ls"
      using ms assms(4) by (metis in_set_takeD last_in_set)
    then show ?thesis
      by (simp add: ls_def)
  qed
  have "filter (\<lambda>m. tm_offset (last ms) + 1 \<le> tm_offset m) (log_of s) =
      filter (\<lambda>m. tm_offset (last ms) + 1 \<le> tm_offset m) ls"
    using low by (auto simp: ls_def intro!: filter_cong)
  also have "\<dots> = rest"
    using order last assms(4) by (auto simp: ls filter_empty_conv filter_id_conv Suc_le_eq)
  finally have "ks = take k rest"
    using fetch_page [OF assms(1) two] by (simp add: page_def)
  then show ?thesis
    by (simp add: page_def ls flip: ls_def)
qed

end

section \<open>The tail is a bounded contiguous suffix\<close>

definition payload_bytes :: "topic_message list \<Rightarrow> nat" where
  "payload_bytes ms = sum_list (map (\<lambda>m. length (tm_payload m)) ms)"

definition tail_wf :: "partition_tail \<Rightarrow> bool" where
  "tail_wf t =
     (map tm_offset (pt_messages t) = [pt_start t..<pt_end t] \<and> pt_start t \<le> pt_end t \<and>
      pt_end t \<le> u64_max \<and> pt_bytes t = payload_bytes (pt_messages t) \<and>
      length (pt_messages t) \<le> tail_max_messages \<and> pt_bytes t \<le> tail_max_bytes)"

text \<open>What a message must satisfy for the \<open>u64\<close> arithmetic of the tail to be exact.\<close>

definition tail_fits :: "topic_message \<Rightarrow> bool" where
  "tail_fits m = (tm_offset m < u64_max \<and> length (tm_payload m) + tail_max_bytes \<le> u64_max)"

lemma payload_bytes_simps [simp]:
  "payload_bytes [] = 0"
  "payload_bytes (m # ms) = length (tm_payload m) + payload_bytes ms"
  "payload_bytes (ms @ ms') = payload_bytes ms + payload_bytes ms'"
  by (simp_all add: payload_bytes_def)

lemma upt_ConsD: "x # xs = [i..<j] \<Longrightarrow> i = x \<and> x < j \<and> xs = [Suc x..<j]"
  by (drule sym) (auto simp: upt_eq_Cons_conv)

lemma capacity_loop_suffix:
  assumes "capacity_loop start (payload_bytes ms) ms = (start', bytes', ms')"
    and "map tm_offset ms = [start..<e]" "start \<le> e" "e \<le> u64_max"
  shows "\<exists>pre. ms = pre @ ms' \<and> map tm_offset ms' = [start'..<e] \<and> start' \<le> e \<and>
    bytes' = payload_bytes ms' \<and> length ms' \<le> tail_max_messages \<and> bytes' \<le> tail_max_bytes"
  using assms
proof (induction ms arbitrary: start)
  case Nil
  then show ?case by simp
next
  case (Cons m ms)
  from Cons.prems(2) have m: "start = tm_offset m" "tm_offset m < e" "map tm_offset ms = [Suc (tm_offset m)..<e]"
    by (auto dest!: upt_ConsD)
  show ?case
  proof (cases "tail_max_messages < length (m # ms) \<or> tail_max_bytes < payload_bytes (m # ms)")
    case True
    have "sat_add (tm_offset m) 1 = Suc (tm_offset m)"
      using m Cons.prems(4) by (simp add: sat_add_exact)
    with True Cons.prems m have
      "\<exists>pre. ms = pre @ ms' \<and> map tm_offset ms' = [start'..<e] \<and> start' \<le> e \<and>
        bytes' = payload_bytes ms' \<and> length ms' \<le> tail_max_messages \<and> bytes' \<le> tail_max_bytes"
      by (intro Cons.IH [of "Suc (tm_offset m)"]) auto
    then show ?thesis
      by (metis append_Cons)
  next
    case False
    with Cons.prems show ?thesis
      by auto
  qed
qed

lemma below_loop_suffix:
  assumes "below_loop earliest start (payload_bytes ms) ms = (start', bytes', ms')"
    and "map tm_offset ms = [start..<e]" "start \<le> e" "e \<le> u64_max"
  shows "ms' = filter (\<lambda>m. earliest \<le> tm_offset m) ms \<and> map tm_offset ms' = [start'..<e] \<and> start' \<le> e \<and>
    bytes' = payload_bytes ms' \<and> length ms' \<le> length ms \<and> bytes' \<le> payload_bytes ms"
  using assms
proof (induction ms arbitrary: start)
  case Nil
  then show ?case by simp
next
  case (Cons m ms)
  from Cons.prems(2) have m: "start = tm_offset m" "tm_offset m < e" "map tm_offset ms = [Suc (tm_offset m)..<e]"
    by (auto dest!: upt_ConsD)
  show ?case
  proof (cases "earliest \<le> tm_offset m")
    case True
    have "set (map tm_offset ms) = {Suc (tm_offset m)..<e}"
      using m(3) by (simp del: set_map)
    then have "\<And>x. x \<in> set ms \<Longrightarrow> Suc (tm_offset m) \<le> tm_offset x"
      by (metis atLeastLessThan_iff image_eqI set_map)
    then have "\<forall>x\<in>set ms. earliest \<le> tm_offset x"
      using True by (meson Suc_leD order_trans)
    with True Cons.prems show ?thesis
      by (auto simp: filter_id_conv)
  next
    case False
    have "sat_add (tm_offset m) 1 = Suc (tm_offset m)"
      using m Cons.prems(4) by (simp add: sat_add_exact)
    with False Cons.prems m have
      "ms' = filter (\<lambda>m. earliest \<le> tm_offset m) ms \<and> map tm_offset ms' = [start'..<e] \<and> start' \<le> e \<and>
        bytes' = payload_bytes ms' \<and> length ms' \<le> length ms \<and> bytes' \<le> payload_bytes ms"
      by (intro Cons.IH [of "Suc (tm_offset m)"]) auto
    with False show ?thesis
      by (auto simp: le_SucI)
  qed
qed

lemma tail_wf_default [simp]: "tail_wf tail_default"
  by (simp add: tail_wf_def tail_default_def)

lemma trim_capacity_wf:
  assumes "map tm_offset (pt_messages t) = [pt_start t..<pt_end t]" "pt_start t \<le> pt_end t"
    and "pt_end t \<le> u64_max" "pt_bytes t = payload_bytes (pt_messages t)"
  shows "tail_wf (trim_capacity t) \<and> (\<exists>pre. pt_messages t = pre @ pt_messages (trim_capacity t)) \<and>
    (pt_messages (trim_capacity t) \<noteq> [] \<longrightarrow> pt_end (trim_capacity t) = pt_end t)"
proof -
  obtain start' bytes' ms' where l:
    "capacity_loop (pt_start t) (payload_bytes (pt_messages t)) (pt_messages t) = (start', bytes', ms')"
    by (metis prod_cases3)
  with capacity_loop_suffix [OF l assms(1-3)] assms(3,4) show ?thesis
    by (auto simp: trim_capacity_def tail_wf_def)
qed

text \<open>Appending after an older end keeps the tail a suffix of what was appended so far.\<close>

lemma tail_append_wf:
  assumes "tail_wf t" "tail_fits m"
  shows "tail_wf (tail_append m t)"
    and "\<exists>pre. pt_messages t @ [m] = pre @ pt_messages (tail_append m t)"
    and "pt_messages (tail_append m t) \<noteq> [] \<Longrightarrow> pt_end (tail_append m t) = Suc (tm_offset m)"
proof -
  have succ: "sat_add (tm_offset m) 1 = Suc (tm_offset m)"
    using assms(2) by (simp add: tail_fits_def sat_add_exact)
  have sum: "sat_add (pt_bytes t) (length (tm_payload m)) = payload_bytes (pt_messages t @ [m])"
    using assms by (simp add: tail_fits_def tail_wf_def sat_add_exact)
  define fresh where "fresh = \<lparr>pt_start = tm_offset m, pt_end = Suc (tm_offset m),
    pt_bytes = length (tm_payload m), pt_messages = [m]\<rparr>"
  define ext where "ext = t\<lparr>pt_bytes := payload_bytes (pt_messages t @ [m]), pt_end := Suc (tm_offset m),
    pt_messages := pt_messages t @ [m]\<rparr>"
  have ap: "tail_append m t = trim_capacity fresh \<or>
      tail_append m t = trim_capacity ext \<and> pt_messages t \<noteq> [] \<and> tm_offset m = pt_end t"
    using succ sum by (cases t) (auto simp: tail_append_def fresh_def ext_def Let_def tail_clear_def)
  have fits: "Suc (tm_offset m) \<le> u64_max"
    using assms(2) by (simp add: tail_fits_def)
  have F: "tail_wf (trim_capacity fresh) \<and> (\<exists>pre. [m] = pre @ pt_messages (trim_capacity fresh)) \<and>
      (pt_messages (trim_capacity fresh) \<noteq> [] \<longrightarrow> pt_end (trim_capacity fresh) = Suc (tm_offset m))"
    using trim_capacity_wf [of fresh] fits by (simp add: fresh_def)
  have E: "tail_wf (trim_capacity ext) \<and> (\<exists>pre. pt_messages t @ [m] = pre @ pt_messages (trim_capacity ext)) \<and>
      (pt_messages (trim_capacity ext) \<noteq> [] \<longrightarrow> pt_end (trim_capacity ext) = Suc (tm_offset m))"
    if "tm_offset m = pt_end t"
    using trim_capacity_wf [of ext] fits assms(1) that by (simp add: ext_def tail_wf_def)
  show "tail_wf (tail_append m t)"
    using ap E F by metis
  show "pt_messages (tail_append m t) \<noteq> [] \<Longrightarrow> pt_end (tail_append m t) = Suc (tm_offset m)"
    using ap E F by metis
  show "\<exists>pre. pt_messages t @ [m] = pre @ pt_messages (tail_append m t)"
    using ap E F by (metis append.assoc)
qed

lemma trim_below_wf:
  assumes "tail_wf t" "earliest \<le> u64_max"
  shows "tail_wf (trim_below earliest t)"
    and "pt_messages (trim_below earliest t) = filter (\<lambda>m. earliest \<le> tm_offset m) (pt_messages t)"
proof -
  obtain start' bytes' ms' where l:
    "below_loop earliest (pt_start t) (payload_bytes (pt_messages t)) (pt_messages t) = (start', bytes', ms')"
    by (metis prod_cases3)
  have bound: "length (pt_messages t) \<le> tail_max_messages" "payload_bytes (pt_messages t) \<le> tail_max_bytes"
    using assms(1) by (simp_all add: tail_wf_def)
  have loop: "ms' = filter (\<lambda>m. earliest \<le> tm_offset m) (pt_messages t) \<and> map tm_offset ms' = [start'..<pt_end t] \<and>
      start' \<le> pt_end t \<and> bytes' = payload_bytes ms' \<and> length ms' \<le> length (pt_messages t) \<and>
      bytes' \<le> payload_bytes (pt_messages t)"
    using assms(1) unfolding tail_wf_def by (intro below_loop_suffix [OF l]) blast+
  then have ms': "ms' = filter (\<lambda>m. earliest \<le> tm_offset m) (pt_messages t)"
    "map tm_offset ms' = [start'..<pt_end t]" "start' \<le> pt_end t" "bytes' = payload_bytes ms'"
    "length ms' \<le> tail_max_messages" "bytes' \<le> tail_max_bytes"
    using bound by (blast intro: order_trans)+
  show "pt_messages (trim_below earliest t) = filter (\<lambda>m. earliest \<le> tm_offset m) (pt_messages t)"
    using l ms'(1) assms(1) by (simp add: trim_below_def tail_wf_def)
  show "tail_wf (trim_below earliest t)"
    using l ms'(2-6) assms by (simp add: trim_below_def tail_wf_def)
qed

text \<open>The tail of a partition whose durable log is \<open>log\<close>.\<close>

definition tail_mirrors :: "topic_message list \<Rightarrow> partition_tail \<Rightarrow> bool" where
  "tail_mirrors log t = (offsets_ascend log \<and> tail_wf t \<and> (\<exists>pre. log = pre @ pt_messages t))"

lemma tail_mirrors_append:
  assumes "tail_mirrors log t" "tail_fits m" "\<forall>x\<in>set log. tm_offset x < tm_offset m"
  shows "tail_mirrors (log @ [m]) (tail_append m t)"
proof -
  obtain pre where "log = pre @ pt_messages t"
    using assms(1) by (auto simp: tail_mirrors_def)
  moreover obtain pre' where "pt_messages t @ [m] = pre' @ pt_messages (tail_append m t)"
    using tail_append_wf(2) [of t m] assms(1,2) by (auto simp: tail_mirrors_def)
  ultimately have "log @ [m] = (pre @ pre') @ pt_messages (tail_append m t)"
    by (metis append.assoc)
  moreover have "offsets_ascend (log @ [m])"
    using assms(1,3) by (simp add: tail_mirrors_def offsets_ascend_def sorted_wrt_append)
  ultimately show ?thesis
    using assms(1,2) tail_append_wf(1) [of t m] unfolding tail_mirrors_def by blast
qed

lemma tail_mirrors_trim:
  assumes "tail_mirrors log t" "earliest \<le> u64_max"
  shows "tail_mirrors (filter (\<lambda>m. earliest \<le> tm_offset m) log) (trim_below earliest t)"
  using assms trim_below_wf [of t earliest]
  by (auto simp: tail_mirrors_def offsets_ascend_def sorted_wrt_map sorted_wrt_filter)

lemma tail_mirrors_clear: "offsets_ascend log \<Longrightarrow> tail_mirrors log tail_default"
  by (simp add: tail_mirrors_def) (simp add: tail_default_def)

lemma drop_contiguous:
  assumes "map tm_offset ms = [i..<j]" "i \<le> off"
  shows "drop (off - i) ms = filter (\<lambda>m. off \<le> tm_offset m) ms"
  using assms
proof (induction ms arbitrary: i)
  case Nil
  then show ?case by simp
next
  case (Cons m ms)
  from Cons.prems(1) have m: "i = tm_offset m" "map tm_offset ms = [Suc i..<j]"
    by (auto dest!: upt_ConsD)
  have above: "\<forall>x\<in>set ms. Suc i \<le> tm_offset x"
    using m(2) by (metis atLeastLessThan_iff image_eqI set_map set_upt)
  show ?case
  proof (cases "off = i")
    case True
    have "\<forall>x\<in>set ms. off \<le> tm_offset x"
      using above True by (meson Suc_leD)
    with True m show ?thesis
      by (simp add: filter_id_conv)
  next
    case False
    with Cons.prems m Cons.IH [of "Suc i"] have "drop (off - Suc i) ms = filter (\<lambda>m. off \<le> tm_offset m) ms"
      by simp
    moreover have "drop (off - i) (m # ms) = drop (off - Suc i) ms"
      using False Cons.prems(2) by (simp add: drop_Cons' Suc_diff_Suc)
    ultimately show ?thesis
      using m False Cons.prems(2) by simp
  qed
qed

lemma tail_fetch_page:
  assumes "tail_mirrors log t" "tail_fetch t off limit = Some ms"
  shows "ms = page log off limit"
proof -
  obtain pre where log: "log = pre @ pt_messages t"
    using assms(1) by (auto simp: tail_mirrors_def)
  have wf: "map tm_offset (pt_messages t) = [pt_start t..<pt_end t]" and le: "pt_start t \<le> pt_end t"
    using assms(1) by (simp_all add: tail_mirrors_def tail_wf_def)
  have hit: "pt_messages t \<noteq> []" "pt_start t \<le> off" "off \<le> pt_end t"
    using assms(2) le by (auto simp: tail_fetch_def split: if_splits)
  have "\<forall>x\<in>set pre. tm_offset x < pt_start t"
  proof
    fix x assume "x \<in> set pre"
    moreover have "tm_offset (hd (pt_messages t)) = pt_start t"
      using wf hit(1) by (cases "pt_messages t") (auto dest!: upt_ConsD)
    ultimately show "tm_offset x < pt_start t"
      using assms(1) hit(1) log by (auto simp: tail_mirrors_def offsets_ascend_def sorted_wrt_append)
        (metis list.set_sel(1))
  qed
  then have "filter (\<lambda>m. off \<le> tm_offset m) pre = []"
    using hit(2) by (auto simp: filter_empty_conv)
  then have eq: "filter (\<lambda>m. off \<le> tm_offset m) log = drop (off - pt_start t) (pt_messages t)"
    using drop_contiguous [OF wf hit(2)] log by simp
  moreover have "length (pt_messages t) = pt_end t - pt_start t"
    using wf by (metis length_map length_upt)
  ultimately show ?thesis
    using assms(2) hit by (auto simp: tail_fetch_def page_def split: if_splits)
qed

interpretation tail: log_reader fst "\<lambda>s. tail_fetch (snd s)" "\<lambda>s. tail_mirrors (fst s) (snd s)"
  by unfold_locales (simp add: tail_mirrors_def, rule tail_fetch_page)

section \<open>The tail along a run\<close>

text \<open>What happens to a partition: a message becomes durable, or retention drops a prefix.\<close>

datatype tail_event = Published topic_message | Trimmed nat

fun do_tail_event :: "tail_event \<Rightarrow> topic_message list \<times> partition_tail \<Rightarrow> topic_message list \<times> partition_tail" where
  "do_tail_event (Published m) (log, t) = (log @ [m], tail_append m t)"
| "do_tail_event (Trimmed e) (log, t) = (filter (\<lambda>m. e \<le> tm_offset m) log, trim_below e t)"

fun tail_schedule :: "nat \<Rightarrow> tail_event list \<Rightarrow> bool" where
  "tail_schedule n [] = True"
| "tail_schedule n (Published m # es) = (n \<le> tm_offset m \<and> tail_fits m \<and> tail_schedule (Suc (tm_offset m)) es)"
| "tail_schedule n (Trimmed e # es) = (e \<le> u64_max \<and> tail_schedule n es)"

lemma tail_run_mirrors:
  assumes "tail_schedule n es" "tail_mirrors log t" "\<forall>x\<in>set log. tm_offset x < n"
  shows "tail_mirrors (fst (fold do_tail_event es (log, t))) (snd (fold do_tail_event es (log, t)))"
  using assms
proof (induction n es arbitrary: log t rule: tail_schedule.induct)
  case (1 n)
  then show ?case by simp
next
  case (2 n m es)
  have "\<forall>x\<in>set log. tm_offset x < tm_offset m"
    using 2 by (meson order_less_le_trans tail_schedule.simps(2))
  moreover have "\<forall>x\<in>set (log @ [m]). tm_offset x < Suc (tm_offset m)"
    using calculation by (auto simp: less_Suc_eq)
  ultimately show ?case
    using 2 tail_mirrors_append [of log t m] by simp
next
  case (3 n e es)
  then show ?case
    using tail_mirrors_trim [of log t e] by simp
qed

text \<open>
  C20: Whatever a partition goes through, its in-memory tail stays bounded (1024 messages, one
  mebibyte of payload), and every answer it gives is exactly the page of the durable log from the
  requested offset, including the empty page at the end; otherwise the reader goes to the store.
\<close>

theorem tail_serves_the_log:
  assumes "tail_schedule 0 es" "fold do_tail_event es ([], tail_default) = (log, t)"
  shows "length (pt_messages t) \<le> 1024 \<and> payload_bytes (pt_messages t) \<le> 1048576 \<and>
    (\<forall>ms. tail_fetch t off limit = Some ms \<longrightarrow> ms = page log off limit)"
proof -
  have "tail_mirrors log t"
    using tail_run_mirrors [OF assms(1) tail_mirrors_clear, of "[]"] assms(2) by (simp add: offsets_ascend_def)
  then show ?thesis
    using tail.fetch_page [of "(log, t)"]
    by (auto simp: tail_mirrors_def tail_wf_def tail_max_messages_def tail_max_bytes_def)
qed

definition example_message :: "nat \<Rightarrow> topic_message" where
  "example_message off = new_with_user ''events'' 0 off ''x'' None 5 None TopicInsert"

theorem tail_serves_the_log_witness:
  "tail_fetch (snd (fold do_tail_event [Published (example_message 0), Published (example_message 1),
      Published (example_message 2), Trimmed 1] ([], tail_default))) 1 5
    = Some [example_message 1, example_message 2] \<and>
   [example_message 1, example_message 2] = page [example_message 1, example_message 2] 1 5"
proof -
  let ?t = "\<lparr>pt_start = 1, pt_end = 3, pt_bytes = 2, pt_messages = [example_message 1, example_message 2]\<rparr>"
  have run: "fold do_tail_event [Published (example_message 0), Published (example_message 1),
      Published (example_message 2), Trimmed 1] ([], tail_default) =
      ([example_message 1, example_message 2], ?t)"
    by (simp add: example_message_def tail_default_def tail_append_def trim_capacity_def trim_below_def
        tail_max_messages_def tail_max_bytes_def sat_add_def u64_max_def)
  have fetch: "tail_fetch ?t 1 5 = Some [example_message 1, example_message 2]"
    by (simp add: tail_fetch_def)
  show ?thesis
    using tail_serves_the_log [OF _ run, of 1 5] run fetch
    by (simp add: example_message_def tail_fits_def tail_max_bytes_def u64_max_def)
qed

end
