(* ===== verification/TopicRouting.thy ===== *)
theory TopicRouting
  imports RowFilter TopicPartition
begin

text \<open>
  Topics, their routes and the publisher's route cache, from
  \<open>kalamdb-system/src/providers/topics/models\<close> and \<open>kalamdb-publisher/src/routing.rs\<close>. The cache
  maps a table to the compiled routes of all cached topics; the property shows that it holds each
  compiled route exactly once, in route order, whatever was added, replaced or removed before.
  The two \<open>DashMap\<close>s are maps; the text of a WHERE clause is parsed by a SQL parser that is a field
  of the environment.
\<close>

section \<open>Topics\<close>

datatype payload_mode = KeyMode | FullMode | DiffMode

record topic_route =
  rt_table_id :: table_id
  rt_op :: topic_op
  rt_payload_mode :: payload_mode
  rt_filter_expr :: "string option"
  rt_partition_key_expr :: "string option"

definition topic_route_new :: "table_id \<Rightarrow> topic_op \<Rightarrow> topic_route" where
  "topic_route_new t op =
     \<lparr>rt_table_id = t, rt_op = op, rt_payload_mode = KeyMode, rt_filter_expr = None, rt_partition_key_expr = None\<rparr>"

record topic =
  tp_topic_id :: topic_id
  tp_name :: string
  tp_alias :: "string option"
  tp_created_at :: int
  tp_updated_at :: int
  tp_retention_seconds :: "int option"
  tp_retention_max_bytes :: "int option"
  tp_partitions :: nat
  tp_routes :: "topic_route list"

definition topic_new :: "int \<Rightarrow> topic_id \<Rightarrow> string \<Rightarrow> topic" where
  "topic_new now tid name =
     \<lparr>tp_topic_id = tid, tp_name = name, tp_alias = None, tp_created_at = now, tp_updated_at = now,
      tp_retention_seconds = None, tp_retention_max_bytes = None, tp_partitions = 1, tp_routes = []\<rparr>"

definition topic_add_route :: "int \<Rightarrow> topic_route \<Rightarrow> topic \<Rightarrow> topic" where
  "topic_add_route now r t = t\<lparr>tp_routes := tp_routes t @ [r], tp_updated_at := now\<rparr>"

definition topic_remove_route :: "int \<Rightarrow> table_id \<Rightarrow> topic_op \<Rightarrow> topic \<Rightarrow> nat \<times> topic" where
  "topic_remove_route now tbl op t =
     (let kept = filter (\<lambda>r. rt_table_id r \<noteq> tbl \<or> rt_op r \<noteq> op) (tp_routes t);
          removed = length (tp_routes t) - length kept;
          t1 = t\<lparr>tp_routes := kept\<rparr>
      in (removed, if removed > 0 then t1\<lparr>tp_updated_at := now\<rparr> else t1))"

section \<open>Compiled routes\<close>

record routing_env =
  re_filter_env :: filter_env
  re_parse_where_expr :: "string \<Rightarrow> row_filter_error + sql_expr"

definition parse_where_clause :: "routing_env \<Rightarrow> string \<Rightarrow> row_filter_error + row_filter" where
  "parse_where_clause env s =
     (case re_parse_where_expr env s of Inl err \<Rightarrow> Inl err | Inr e \<Rightarrow> try_from_expr (re_filter_env env) e)"

record route_entry =
  en_topic :: topic
  en_route_index :: nat
  en_compiled_filter :: "row_filter option"

definition entry_topic_id :: "route_entry \<Rightarrow> topic_id" where
  "entry_topic_id e = tp_topic_id (en_topic e)"

definition entry_partitions :: "route_entry \<Rightarrow> nat" where
  "entry_partitions e = tp_partitions (en_topic e)"

definition entry_route :: "route_entry \<Rightarrow> topic_route" where
  "entry_route e = tp_routes (en_topic e) ! en_route_index e"

definition build_route_entry :: "routing_env \<Rightarrow> topic \<Rightarrow> nat \<Rightarrow> route_entry option" where
  "build_route_entry env t i =
     (case rt_filter_expr (tp_routes t ! i) of
        None \<Rightarrow> Some \<lparr>en_topic = t, en_route_index = i, en_compiled_filter = None\<rparr>
      | Some s \<Rightarrow>
          (case parse_where_clause env s of
             Inl _ \<Rightarrow> None
           | Inr f \<Rightarrow> Some \<lparr>en_topic = t, en_route_index = i, en_compiled_filter = Some f\<rparr>))"

section \<open>The route cache\<close>

record route_cache =
  rc_table_routes :: "table_id \<rightharpoonup> route_entry list"
  rc_topics :: "topic_id \<rightharpoonup> topic"

definition route_cache_new :: route_cache where
  "route_cache_new = \<lparr>rc_table_routes = Map.empty, rc_topics = Map.empty\<rparr>"

definition cache_has_topics_for_table :: "route_cache \<Rightarrow> table_id \<Rightarrow> bool" where
  "cache_has_topics_for_table c tbl = (rc_table_routes c tbl \<noteq> None)"

definition cache_has_topics_for_table_op :: "route_cache \<Rightarrow> table_id \<Rightarrow> topic_op \<Rightarrow> bool" where
  "cache_has_topics_for_table_op c tbl op =
     (case rc_table_routes c tbl of
        None \<Rightarrow> False
      | Some es \<Rightarrow> list_ex (\<lambda>e. rt_op (entry_route e) = op) es)"

definition cache_topic_exists :: "route_cache \<Rightarrow> topic_id \<Rightarrow> bool" where
  "cache_topic_exists c tid = (rc_topics c tid \<noteq> None)"

definition cache_topic_ids_for_table :: "route_cache \<Rightarrow> table_id \<Rightarrow> topic_id list" where
  "cache_topic_ids_for_table c tbl =
     (case rc_table_routes c tbl of None \<Rightarrow> [] | Some es \<Rightarrow> map entry_topic_id es)"

definition get_matching_routes :: "route_cache \<Rightarrow> table_id \<Rightarrow> topic_op \<Rightarrow> route_entry list" where
  "get_matching_routes c tbl op =
     (case rc_table_routes c tbl of
        None \<Rightarrow> []
      | Some es \<Rightarrow> filter (\<lambda>e. rt_op (entry_route e) = op) es)"

definition push_entry :: "routing_env \<Rightarrow> topic \<Rightarrow> nat \<Rightarrow> route_cache \<Rightarrow> route_cache" where
  "push_entry env t i c =
     (case build_route_entry env t i of
        None \<Rightarrow> c
      | Some e \<Rightarrow>
          (let tbl = rt_table_id (tp_routes t ! i);
               es = (case rc_table_routes c tbl of None \<Rightarrow> [] | Some es \<Rightarrow> es)
           in c\<lparr>rc_table_routes := (rc_table_routes c)(tbl \<mapsto> es @ [e])\<rparr>))"

definition cache_add_topic :: "routing_env \<Rightarrow> topic \<Rightarrow> route_cache \<Rightarrow> route_cache" where
  "cache_add_topic env t c =
     (let c1 = fold (push_entry env t) [0..<length (tp_routes t)] c
      in c1\<lparr>rc_topics := (rc_topics c1)(tp_topic_id t \<mapsto> t)\<rparr>)"

definition retain_others :: "topic_id \<Rightarrow> topic_route \<Rightarrow> route_cache \<Rightarrow> route_cache" where
  "retain_others tid r c =
     (case rc_table_routes c (rt_table_id r) of
        None \<Rightarrow> c
      | Some es \<Rightarrow>
          c\<lparr>rc_table_routes := (rc_table_routes c)(rt_table_id r \<mapsto> filter (\<lambda>e. entry_topic_id e \<noteq> tid) es)\<rparr>)"

definition cache_remove_topic :: "topic_id \<Rightarrow> route_cache \<Rightarrow> route_cache" where
  "cache_remove_topic tid c =
     (let c1 = (case rc_topics c tid of
                  None \<Rightarrow> c
                | Some t \<Rightarrow> fold (retain_others tid) (tp_routes t) (c\<lparr>rc_topics := (rc_topics c)(tid := None)\<rparr>))
      in c1\<lparr>rc_table_routes :=
              (\<lambda>tbl. case rc_table_routes c1 tbl of None \<Rightarrow> None | Some es \<Rightarrow> if es = [] then None else Some es)\<rparr>)"

definition cache_update_topic :: "routing_env \<Rightarrow> topic \<Rightarrow> route_cache \<Rightarrow> route_cache" where
  "cache_update_topic env t c = cache_add_topic env t (cache_remove_topic (tp_topic_id t) c)"

definition cache_clear :: "route_cache \<Rightarrow> route_cache" where
  "cache_clear c = c\<lparr>rc_topics := Map.empty, rc_table_routes := Map.empty\<rparr>"

definition cache_refresh :: "routing_env \<Rightarrow> topic list \<Rightarrow> route_cache \<Rightarrow> route_cache" where
  "cache_refresh env ts c = fold (cache_add_topic env) ts (cache_clear c)"

section \<open>What the cache holds\<close>

text \<open>The compiled routes of a topic for a table, in route order, are what the cache must hold.\<close>

definition compiled_entries :: "routing_env \<Rightarrow> topic \<Rightarrow> nat list \<Rightarrow> table_id \<Rightarrow> route_entry list" where
  "compiled_entries env t ixs tbl =
     filter (\<lambda>e. rt_table_id (entry_route e) = tbl) (List.map_filter (build_route_entry env t) ixs)"

abbreviation topic_entries :: "routing_env \<Rightarrow> topic \<Rightarrow> table_id \<Rightarrow> route_entry list" where
  "topic_entries env t tbl \<equiv> compiled_entries env t [0..<length (tp_routes t)] tbl"

definition routes_at :: "route_cache \<Rightarrow> table_id \<Rightarrow> route_entry list" where
  "routes_at c tbl = (case rc_table_routes c tbl of None \<Rightarrow> [] | Some es \<Rightarrow> es)"

definition cache_exact :: "routing_env \<Rightarrow> route_cache \<Rightarrow> bool" where
  "cache_exact env c \<longleftrightarrow>
     (\<forall>tbl tid. filter (\<lambda>e. entry_topic_id e = tid) (routes_at c tbl) =
        (case rc_topics c tid of None \<Rightarrow> [] | Some t \<Rightarrow> topic_entries env t tbl)) \<and>
     (\<forall>tid t. rc_topics c tid = Some t \<longrightarrow> tp_topic_id t = tid) \<and>
     (\<forall>tbl. rc_table_routes c tbl \<noteq> Some [])"

lemma build_entry_sel:
  assumes "build_route_entry env t i = Some e"
  shows "en_topic e = t" "en_route_index e = i" "entry_topic_id e = tp_topic_id t" "entry_route e = tp_routes t ! i"
  using assms by (auto simp: build_route_entry_def entry_topic_id_def entry_route_def split: option.splits sum.splits)

lemma map_filter_append: "List.map_filter f (xs @ ys) = List.map_filter f xs @ List.map_filter f ys"
  by (simp add: List.map_filter_def)

lemma map_filter_single: "List.map_filter f [x] = (case f x of None \<Rightarrow> [] | Some y \<Rightarrow> [y])"
  by (simp add: List.map_filter_def split: option.splits)

lemma compiled_entries_snoc:
  "compiled_entries env t (ixs @ [i]) tbl =
   compiled_entries env t ixs tbl @
     (case build_route_entry env t i of
        None \<Rightarrow> [] | Some e \<Rightarrow> if rt_table_id (entry_route e) = tbl then [e] else [])"
  by (simp add: compiled_entries_def map_filter_append map_filter_single split: option.splits)

lemma compiled_entries_topic:
  "e \<in> set (compiled_entries env t ixs tbl) \<Longrightarrow> entry_topic_id e = tp_topic_id t"
  by (auto simp: compiled_entries_def List.map_filter_def build_entry_sel(3))

lemma routes_at_push:
  "routes_at (push_entry env t i c) tbl =
   routes_at c tbl @
     (case build_route_entry env t i of
        None \<Rightarrow> [] | Some e \<Rightarrow> if rt_table_id (entry_route e) = tbl then [e] else [])"
  by (auto simp: push_entry_def routes_at_def Let_def build_entry_sel split: option.splits)

lemma push_entry_topics [simp]: "rc_topics (push_entry env t i c) = rc_topics c"
  by (simp add: push_entry_def Let_def split: option.splits)

lemma push_entry_nonempty:
  "rc_table_routes c tbl \<noteq> Some [] \<Longrightarrow> rc_table_routes (push_entry env t i c) tbl \<noteq> Some []"
  by (auto simp: push_entry_def Let_def split: option.splits)

lemma push_entries:
  "routes_at (fold (push_entry env t) ixs c) tbl = routes_at c tbl @ compiled_entries env t ixs tbl"
  "rc_topics (fold (push_entry env t) ixs c) = rc_topics c"
  "(\<And>tbl. rc_table_routes c tbl \<noteq> Some []) \<Longrightarrow> rc_table_routes (fold (push_entry env t) ixs c) tbl \<noteq> Some []"
proof (induction ixs arbitrary: tbl rule: rev_induct)
  case Nil
  { case 1 then show ?case by (simp add: compiled_entries_def List.map_filter_def)
  next case 2 then show ?case by simp
  next case 3 then show ?case by simp }
next
  case (snoc i ixs)
  { case 1 then show ?case by (simp add: routes_at_push snoc compiled_entries_snoc)
  next case 2 then show ?case by (simp add: snoc)
  next case 3 then show ?case by (simp add: snoc push_entry_nonempty) }
qed

lemma filter_compiled_entries:
  "filter (\<lambda>e. entry_topic_id e = tid) (compiled_entries env t ixs tbl) =
   (if tid = tp_topic_id t then compiled_entries env t ixs tbl else [])"
  using compiled_entries_topic [of _ env t ixs tbl] by (auto simp: filter_id_conv filter_empty_conv)

lemma cache_exact_new [simp]: "cache_exact env route_cache_new"
  by (simp add: cache_exact_def route_cache_new_def routes_at_def)

lemma cache_exact_clear [simp]: "cache_exact env (cache_clear c)"
  by (simp add: cache_exact_def cache_clear_def routes_at_def)

lemma add_topic_sel:
  "routes_at (cache_add_topic env t c) tbl = routes_at c tbl @ topic_entries env t tbl"
  "rc_topics (cache_add_topic env t c) = (rc_topics c)(tp_topic_id t \<mapsto> t)"
  "rc_table_routes (cache_add_topic env t c) =
   rc_table_routes (fold (push_entry env t) [0..<length (tp_routes t)] c)"
  using push_entries(1,2) by (auto simp: cache_add_topic_def Let_def routes_at_def)

lemma cache_exact_add:
  assumes "cache_exact env c" "rc_topics c (tp_topic_id t) = None"
  shows "cache_exact env (cache_add_topic env t c)"
  using assms push_entries(3) [of c env t]
  by (auto simp: cache_exact_def add_topic_sel filter_compiled_entries)

text \<open>Removing a topic filters the tables its routes name; the other tables hold none of its entries.\<close>

lemma retain_others_fold:
  "rc_topics (fold (retain_others tid) rs c) = rc_topics c"
  "routes_at (fold (retain_others tid) rs c) tbl =
   (if tbl \<in> rt_table_id ` set rs then filter (\<lambda>e. entry_topic_id e \<noteq> tid) (routes_at c tbl) else routes_at c tbl)"
proof (induction rs arbitrary: c)
  case Nil
  { case 1 then show ?case by simp next case 2 then show ?case by simp }
next
  case (Cons r rs)
  have topics: "rc_topics (retain_others tid r c) = rc_topics c" for c
    by (simp add: retain_others_def split: option.splits)
  have routes: "routes_at (retain_others tid r c) tbl =
      (if tbl = rt_table_id r then filter (\<lambda>e. entry_topic_id e \<noteq> tid) (routes_at c tbl) else routes_at c tbl)" for c tbl
    by (auto simp: retain_others_def routes_at_def split: option.splits)
  { case 1 then show ?case using Cons(1) topics by simp
  next case 2 then show ?case using Cons(2) by (auto simp: routes) }
qed

lemma routes_outside_topic:
  assumes "cache_exact env c" "rc_topics c tid = Some t" "tbl \<notin> rt_table_id ` set (tp_routes t)"
  shows "filter (\<lambda>e. entry_topic_id e = tid) (routes_at c tbl) = []"
proof -
  have "topic_entries env t tbl = []"
    using assms(3) by (fastforce simp: compiled_entries_def List.map_filter_def filter_empty_conv build_entry_sel(4))
  with assms(1,2) show ?thesis by (simp add: cache_exact_def)
qed

lemma remove_topic_sel:
  assumes "cache_exact env c"
  shows "rc_topics (cache_remove_topic tid c) = (rc_topics c)(tid := None)"
    and "routes_at (cache_remove_topic tid c) tbl = filter (\<lambda>e. entry_topic_id e \<noteq> tid) (routes_at c tbl)"
    and "rc_table_routes (cache_remove_topic tid c) tbl \<noteq> Some []"
proof -
  define c1 where "c1 = (case rc_topics c tid of
      None \<Rightarrow> c | Some t \<Rightarrow> fold (retain_others tid) (tp_routes t) (c\<lparr>rc_topics := (rc_topics c)(tid := None)\<rparr>))"
  have c1: "cache_remove_topic tid c = c1\<lparr>rc_table_routes :=
      (\<lambda>tbl. case rc_table_routes c1 tbl of None \<Rightarrow> None | Some es \<Rightarrow> if es = [] then None else Some es)\<rparr>"
    by (simp add: cache_remove_topic_def c1_def Let_def)
  have topics: "rc_topics c1 = (rc_topics c)(tid := None)"
    by (auto simp: c1_def retain_others_fold(1) split: option.splits)
  then show "rc_topics (cache_remove_topic tid c) = (rc_topics c)(tid := None)"
    by (simp add: c1)
  have same: "routes_at (c\<lparr>rc_topics := x\<rparr>) tbl = routes_at c tbl" for x
    by (simp add: routes_at_def)
  have none: "filter (\<lambda>e. entry_topic_id e = tid) (routes_at c tbl) = []" if "rc_topics c tid = None"
    using assms that by (simp add: cache_exact_def)
  have "routes_at c1 tbl = filter (\<lambda>e. entry_topic_id e \<noteq> tid) (routes_at c tbl)"
    using none routes_outside_topic [OF assms]
    by (auto simp: c1_def retain_others_fold(2) same filter_empty_conv filter_id_conv split: option.splits)
  moreover have "routes_at (cache_remove_topic tid c) tbl = routes_at c1 tbl"
    by (simp add: c1 routes_at_def split: option.splits)
  ultimately show "routes_at (cache_remove_topic tid c) tbl = filter (\<lambda>e. entry_topic_id e \<noteq> tid) (routes_at c tbl)"
    by simp
  show "rc_table_routes (cache_remove_topic tid c) tbl \<noteq> Some []"
    by (simp add: c1 split: option.splits)
qed

lemma cache_exact_remove:
  assumes "cache_exact env c"
  shows "cache_exact env (cache_remove_topic tid c)"
proof -
  have "filter (\<lambda>e. entry_topic_id e = x) (filter (\<lambda>e. entry_topic_id e \<noteq> tid) es) =
      (if x = tid then [] else filter (\<lambda>e. entry_topic_id e = x) es)" for x es
    by (induction es) auto
  with assms show ?thesis
    by (simp add: cache_exact_def remove_topic_sel [OF assms])
qed

lemma cache_exact_update: "cache_exact env c \<Longrightarrow> cache_exact env (cache_update_topic env t c)"
  by (simp add: cache_update_topic_def cache_exact_add cache_exact_remove remove_topic_sel(1))

lemma cache_exact_refresh:
  assumes "distinct (map tp_topic_id ts)"
  shows "cache_exact env (cache_refresh env ts c)"
proof -
  have "cache_exact env (fold (cache_add_topic env) ts d)"
    if "cache_exact env d" "\<forall>t\<in>set ts. rc_topics d (tp_topic_id t) = None" for d
    using assms that
  proof (induction ts arbitrary: d)
    case (Cons t ts)
    have "cache_exact env (cache_add_topic env t d)"
      using Cons.prems by (simp add: cache_exact_add)
    moreover have "\<forall>u\<in>set ts. rc_topics (cache_add_topic env t d) (tp_topic_id u) = None"
      using Cons.prems by (auto simp: add_topic_sel(2)) (metis imageI)
    ultimately show ?case
      using Cons.IH Cons.prems(1) by simp
  qed simp
  moreover have "rc_topics (cache_clear c) = Map.empty" by (simp add: cache_clear_def)
  ultimately show ?thesis
    by (simp add: cache_refresh_def)
qed

text \<open>
  The calls the server makes: a refresh with the topics of the catalog, whose ids are distinct, the
  addition of a topic that was just created, and updates, removals and clears of any topic.
\<close>

inductive cache_run :: "routing_env \<Rightarrow> route_cache \<Rightarrow> bool" for env where
  run_new: "cache_run env route_cache_new"
| run_refresh: "cache_run env c \<Longrightarrow> distinct (map tp_topic_id ts) \<Longrightarrow> cache_run env (cache_refresh env ts c)"
| run_add: "cache_run env c \<Longrightarrow> \<not> cache_topic_exists c (tp_topic_id t) \<Longrightarrow> cache_run env (cache_add_topic env t c)"
| run_update: "cache_run env c \<Longrightarrow> cache_run env (cache_update_topic env t c)"
| run_remove: "cache_run env c \<Longrightarrow> cache_run env (cache_remove_topic tid c)"
| run_clear: "cache_run env c \<Longrightarrow> cache_run env (cache_clear c)"

lemma cache_run_exact: "cache_run env c \<Longrightarrow> cache_exact env c"
  by (induction rule: cache_run.induct)
    (simp_all add: cache_exact_refresh cache_exact_add cache_exact_update cache_exact_remove cache_topic_exists_def)

lemma matching_routes_at: "get_matching_routes c tbl op = filter (\<lambda>e. rt_op (entry_route e) = op) (routes_at c tbl)"
  by (simp add: get_matching_routes_def routes_at_def split: option.splits)

lemma exact_entry_origin:
  assumes "cache_exact env c" "e \<in> set (routes_at c tbl)"
  obtains t where "rc_topics c (entry_topic_id e) = Some t" "e \<in> set (topic_entries env t tbl)"
proof -
  have "e \<in> set (filter (\<lambda>x. entry_topic_id x = entry_topic_id e) (routes_at c tbl))"
    using assms(2) by simp
  moreover have "filter (\<lambda>x. entry_topic_id x = entry_topic_id e) (routes_at c tbl) =
      (case rc_topics c (entry_topic_id e) of None \<Rightarrow> [] | Some t \<Rightarrow> topic_entries env t tbl)"
    using assms(1) by (simp add: cache_exact_def)
  ultimately show ?thesis
    by (cases "rc_topics c (entry_topic_id e)") (simp_all add: that)
qed

lemma topic_entries_in_range:
  "e \<in> set (topic_entries env t tbl) \<Longrightarrow> en_topic e = t \<and> en_route_index e < length (tp_routes t)"
  by (auto simp: compiled_entries_def List.map_filter_def build_entry_sel)

lemma exact_has_topics:
  assumes "cache_exact env c"
  shows "cache_has_topics_for_table c tbl \<longleftrightarrow> (\<exists>tid t. rc_topics c tid = Some t \<and> topic_entries env t tbl \<noteq> [])"
proof
  assume "cache_has_topics_for_table c tbl"
  then have "routes_at c tbl \<noteq> []"
    using assms by (auto simp: cache_has_topics_for_table_def routes_at_def cache_exact_def)
  then obtain e where "e \<in> set (routes_at c tbl)" by (meson list.set_sel(1))
  with assms obtain t where "rc_topics c (entry_topic_id e) = Some t" "e \<in> set (topic_entries env t tbl)"
    by (rule exact_entry_origin)
  then show "\<exists>tid t. rc_topics c tid = Some t \<and> topic_entries env t tbl \<noteq> []" by force
next
  assume "\<exists>tid t. rc_topics c tid = Some t \<and> topic_entries env t tbl \<noteq> []"
  then obtain tid t where t: "rc_topics c tid = Some t" "topic_entries env t tbl \<noteq> []" by blast
  then have "filter (\<lambda>e. entry_topic_id e = tid) (routes_at c tbl) \<noteq> []"
    using assms by (simp add: cache_exact_def)
  then have "routes_at c tbl \<noteq> []" by auto
  then show "cache_has_topics_for_table c tbl"
    by (cases "rc_table_routes c tbl") (simp_all add: cache_has_topics_for_table_def routes_at_def)
qed


text \<open>A topic with one plain route and one route whose filter does not parse.\<close>

definition example_routing_env :: routing_env where
  "example_routing_env =
     \<lparr>re_filter_env = example_env, re_parse_where_expr = (\<lambda>s. Inl InvalidSyntax)\<rparr>"

definition example_topic :: "topic_id \<Rightarrow> topic" where
  "example_topic tid =
     (topic_new 0 tid ''orders'')
       \<lparr>tp_routes := [topic_route_new (TableId ''app'' ''orders'') TopicInsert,
                     (topic_route_new (TableId ''app'' ''orders'') TopicInsert)\<lparr>rt_filter_expr := Some ''bad''\<rparr>]\<rparr>"

lemma example_topic_entries:
  "topic_entries example_routing_env (example_topic tid) (TableId ''app'' ''orders'') =
   [\<lparr>en_topic = example_topic tid, en_route_index = 0, en_compiled_filter = None\<rparr>]"
  by (simp add: compiled_entries_def List.map_filter_def build_route_entry_def example_topic_def topic_new_def
      topic_route_new_def parse_where_clause_def example_routing_env_def entry_route_def upt_rec)


text \<open>Adding a topic that is already cached doubles its routes, and with them every published message.\<close>

lemma add_topic_twice_duplicates:
  "get_matching_routes
     (cache_add_topic example_routing_env (example_topic ''a'')
       (cache_add_topic example_routing_env (example_topic ''a'') route_cache_new))
     (TableId ''app'' ''orders'') TopicInsert =
   replicate 2 \<lparr>en_topic = example_topic ''a'', en_route_index = 0, en_compiled_filter = None\<rparr>"
  by (simp add: matching_routes_at add_topic_sel(1) example_topic_entries numeral_2_eq_2)
    (simp add: route_cache_new_def routes_at_def entry_route_def example_topic_def topic_new_def topic_route_new_def)

end
