(* ===== verification/TopicStore.thy ===== *)
theory TopicStore
  imports TopicPartition
begin

text \<open>
  The durable topic message store of \<open>kalamdb-tables/src/topics/topic_message_store.rs\<close>: the message
  log keyed by topic, partition and offset, and the retention index keyed by topic, partition,
  timestamp and offset. Both are ordered maps, because the storage keys are encoded so that their
  byte order is the order of the components. A write is one atomic batch of the backend; its
  outcome is an argument. The encoded size of a message is the parameter \<open>msize\<close>.
\<close>

section \<open>State and operations\<close>

record retention_entry =
  re_topic_id :: topic_id
  re_partition_id :: nat
  re_timestamp_ms :: int
  re_offset :: nat
  re_message_bytes :: nat

definition entry_new :: "topic_message \<Rightarrow> nat \<Rightarrow> retention_entry" where
  "entry_new m bytes =
     \<lparr>re_topic_id = tm_topic_id m, re_partition_id = tm_partition_id m, re_timestamp_ms = tm_timestamp_ms m,
      re_offset = tm_offset m, re_message_bytes = bytes\<rparr>"

definition entry_new_raw :: "topic_id \<Rightarrow> nat \<Rightarrow> int \<Rightarrow> nat \<Rightarrow> nat \<Rightarrow> retention_entry" where
  "entry_new_raw t p ts off bytes =
     \<lparr>re_topic_id = t, re_partition_id = p, re_timestamp_ms = ts, re_offset = off, re_message_bytes = bytes\<rparr>"

definition primary_message_id :: "retention_entry \<Rightarrow> topic_message_id" where
  "primary_message_id e = (re_topic_id e, re_partition_id e, re_offset e)"

definition retention_key :: "retention_entry \<Rightarrow> topic_retention_index_key" where
  "retention_key e = (re_topic_id e, re_partition_id e, re_timestamp_ms e, re_offset e)"

record deletion_stats =
  messages_deleted :: nat
  bytes_freed :: nat

record topic_message_store =
  ms_messages :: "(topic_message_id, topic_message) btree"
  ms_retention :: "(topic_retention_index_key, retention_entry) btree"

datatype storage_error = BackendError

definition store_empty :: topic_message_store where
  "store_empty = \<lparr>ms_messages = [], ms_retention = []\<rparr>"

definition in_partition :: "topic_id \<Rightarrow> nat \<Rightarrow> topic_id \<times> nat \<times> 'a \<Rightarrow> bool" where
  "in_partition t p k = (fst k = t \<and> fst (snd k) = p)"

definition put_message_with_retention_index ::
    "(topic_message \<Rightarrow> nat) \<Rightarrow> bool \<Rightarrow> topic_message \<Rightarrow> topic_message_store
      \<Rightarrow> (storage_error + nat) \<times> topic_message_store" where
  "put_message_with_retention_index msize ok m st =
     (let bytes = msize m; e = entry_new m bytes in
      if ok then
        (Inr bytes, st\<lparr>ms_messages := bt_insert (message_id m) m (ms_messages st),
           ms_retention := bt_insert (retention_key e) e (ms_retention st)\<rparr>)
      else (Inl BackendError, st))"

definition store_fetch_messages ::
    "topic_message_store \<Rightarrow> topic_id \<Rightarrow> nat \<Rightarrow> nat \<Rightarrow> nat \<Rightarrow> topic_message list" where
  "store_fetch_messages st t p off limit =
     map snd (take limit (filter (\<lambda>(k, m). in_partition t p k \<and> off \<le> snd (snd k)) (ms_messages st)))"

definition store_latest_offset :: "topic_message_store \<Rightarrow> topic_id \<Rightarrow> nat \<Rightarrow> nat option" where
  "store_latest_offset st t p =
     (case rev (filter (\<lambda>(k, m). in_partition t p k) (ms_messages st)) of
        [] \<Rightarrow> None | (k, m) # _ \<Rightarrow> Some (snd (snd k)))"

definition store_earliest_offset :: "topic_message_store \<Rightarrow> topic_id \<Rightarrow> nat \<Rightarrow> nat option" where
  "store_earliest_offset st t p =
     (case store_fetch_messages st t p 0 1 of [] \<Rightarrow> None | m # _ \<Rightarrow> Some (tm_offset m))"

definition delete_topic_messages ::
    "bool \<Rightarrow> topic_id \<Rightarrow> topic_message_store \<Rightarrow> (storage_error + nat) \<times> topic_message_store" where
  "delete_topic_messages ok t st =
     (let keys = filter (\<lambda>k. fst k = t) (bt_keys (ms_messages st));
          rkeys = filter (\<lambda>k. fst k = t) (bt_keys (ms_retention st))
      in if ok then
           (Inr (length keys), st\<lparr>ms_messages := fold bt_remove keys (ms_messages st),
              ms_retention := fold bt_remove rkeys (ms_retention st)\<rparr>)
         else (Inl BackendError, st))"

text \<open>An entry of a raw batch: the retention entry, the storage key and the encoded message.\<close>

type_synonym raw_entry = "retention_entry \<times> topic_message_id \<times> topic_message"

definition batch_put_raw_with_retention ::
    "bool \<Rightarrow> raw_entry list \<Rightarrow> topic_message_store \<Rightarrow> (storage_error + nat) \<times> topic_message_store" where
  "batch_put_raw_with_retention ok entries st =
     (if ok then
        (Inr (sum_list (map (\<lambda>(e, k, m). re_message_bytes e) entries)),
         fold (\<lambda>(e, k, m) s. s\<lparr>ms_messages := bt_insert k m (ms_messages s),
           ms_retention := bt_insert (retention_key e) e (ms_retention s)\<rparr>) entries st)
      else (Inl BackendError, st))"

definition scan_retention_entries ::
    "topic_message_store \<Rightarrow> topic_id \<Rightarrow> nat \<Rightarrow> nat option \<Rightarrow> (topic_retention_index_key \<times> retention_entry) list" where
  "scan_retention_entries st t p limit =
     (let es = filter (\<lambda>(k, e). in_partition t p k) (ms_retention st)
      in case limit of None \<Rightarrow> es | Some n \<Rightarrow> take n es)"

definition retention_entries_for_partition ::
    "topic_message_store \<Rightarrow> topic_id \<Rightarrow> nat \<Rightarrow> nat \<Rightarrow> (topic_retention_index_key \<times> retention_entry) list" where
  "retention_entries_for_partition st t p limit = scan_retention_entries st t p (Some limit)"

definition retention_entries_before ::
    "topic_message_store \<Rightarrow> topic_id \<Rightarrow> nat \<Rightarrow> int \<Rightarrow> nat \<Rightarrow> (topic_retention_index_key \<times> retention_entry) list" where
  "retention_entries_before st t p cutoff limit =
     takeWhile (\<lambda>(k, e). re_timestamp_ms e < cutoff) (scan_retention_entries st t p (Some limit))"

definition delete_retention_entries ::
    "bool \<Rightarrow> (topic_retention_index_key \<times> retention_entry) list \<Rightarrow> topic_message_store
      \<Rightarrow> (storage_error + deletion_stats) \<times> topic_message_store" where
  "delete_retention_entries ok entries st =
     (if ok then
        (Inr \<lparr>messages_deleted = length entries,
            bytes_freed = sum_list (map (\<lambda>(k, e). re_message_bytes e) entries)\<rparr>,
         fold (\<lambda>(k, e) s. s\<lparr>ms_messages := bt_remove (primary_message_id e) (ms_messages s),
           ms_retention := bt_remove k (ms_retention s)\<rparr>) entries st)
      else (Inl BackendError, st))"

definition retained_bytes_for_partition :: "topic_message_store \<Rightarrow> topic_id \<Rightarrow> nat \<Rightarrow> nat" where
  "retained_bytes_for_partition st t p =
     sum_list (map (\<lambda>(k, e). re_message_bytes e) (scan_retention_entries st t p None))"

section \<open>The retention index mirrors the log\<close>

definition partition_log :: "topic_message_store \<Rightarrow> topic_id \<Rightarrow> nat \<Rightarrow> topic_message list" where
  "partition_log st t p = map snd (filter (\<lambda>(k, m). in_partition t p k) (ms_messages st))"

abbreviation indexed :: "(topic_message \<Rightarrow> nat) \<Rightarrow> topic_message \<Rightarrow> retention_entry" where
  "indexed msize m \<equiv> entry_new m (msize m)"

definition store_wf :: "(topic_message \<Rightarrow> nat) \<Rightarrow> topic_message_store \<Rightarrow> bool" where
  "store_wf msize st =
     (bt_wf (ms_messages st) \<and> bt_wf (ms_retention st) \<and>
      (\<forall>k m. bt_get (ms_messages st) k = Some m \<longrightarrow> k = message_id m) \<and>
      (\<forall>rk e. bt_get (ms_retention st) rk = Some e \<longleftrightarrow>
        (\<exists>m. bt_get (ms_messages st) (message_id m) = Some m \<and> e = indexed msize m \<and> rk = retention_key e)))"

lemma store_ids [simp]:
  "primary_message_id (entry_new m b) = message_id m"
  "re_message_bytes (entry_new m b) = b"
  "re_timestamp_ms (entry_new m b) = tm_timestamp_ms m"
  "entry_new_raw (tm_topic_id m) (tm_partition_id m) (tm_timestamp_ms m) (tm_offset m) b = entry_new m b"
  by (simp_all add: entry_new_def entry_new_raw_def primary_message_id_def message_id_def)

lemma retention_key_indexed:
  "retention_key (entry_new m b) = (tm_topic_id m, tm_partition_id m, tm_timestamp_ms m, tm_offset m)"
  by (simp add: entry_new_def retention_key_def)

lemma retention_key_message_id:
  "retention_key (entry_new m b) = retention_key (entry_new m' b') \<Longrightarrow> message_id m = message_id m'"
  by (simp add: retention_key_indexed message_id_def)

lemma store_wf_empty [simp]: "store_wf msize store_empty"
  by (simp add: store_wf_def store_empty_def)

text \<open>The state change of one stored message, and of one deleted retention entry.\<close>

definition store_put :: "(topic_message \<Rightarrow> nat) \<Rightarrow> topic_message \<Rightarrow> topic_message_store \<Rightarrow> topic_message_store" where
  "store_put msize m st =
     st\<lparr>ms_messages := bt_insert (message_id m) m (ms_messages st),
        ms_retention := bt_insert (retention_key (indexed msize m)) (indexed msize m) (ms_retention st)\<rparr>"

definition store_delete :: "topic_message \<Rightarrow> topic_message_store \<Rightarrow> topic_message_store" where
  "store_delete m st =
     st\<lparr>ms_messages := bt_remove (message_id m) (ms_messages st),
        ms_retention := bt_remove (retention_key (entry_new m 0)) (ms_retention st)\<rparr>"

lemma store_put_get [simp]:
  "bt_get (ms_messages (store_put msize m st)) k = (if k = message_id m then Some m else bt_get (ms_messages st) k)"
  by (simp add: store_put_def)

lemma store_delete_get [simp]:
  "bt_get (ms_messages (store_delete m st)) k = (if k = message_id m then None else bt_get (ms_messages st) k)"
  by (simp add: store_delete_def)

lemma put_message_eq:
  "put_message_with_retention_index msize ok m st =
     (if ok then (Inr (msize m), store_put msize m st) else (Inl BackendError, st))"
  by (simp add: put_message_with_retention_index_def store_put_def Let_def)

definition raw_of :: "(topic_message \<Rightarrow> nat) \<Rightarrow> topic_message \<Rightarrow> raw_entry" where
  "raw_of msize m = (indexed msize m, message_id m, m)"

lemma batch_put_eq:
  "batch_put_raw_with_retention ok (map (raw_of msize) ms) st =
     (if ok then (Inr (sum_list (map msize ms)), fold (store_put msize) ms st) else (Inl BackendError, st))"
  by (auto simp: batch_put_raw_with_retention_def raw_of_def fold_map o_def store_put_def
      intro!: arg_cong [where f = sum_list] fold_cong)

lemma store_wf_put:
  assumes "store_wf msize st" "bt_get (ms_messages st) (message_id m) = None"
  shows "store_wf msize (store_put msize m st)"
  using assms unfolding store_wf_def store_put_def
  by (auto dest: retention_key_message_id) (metis option.distinct(1) retention_key_message_id)+

lemma store_wf_put_all:
  assumes "store_wf msize st" "distinct (map message_id ms)"
    "\<forall>m\<in>set ms. bt_get (ms_messages st) (message_id m) = None"
  shows "store_wf msize (fold (store_put msize) ms st)"
  using assms
proof (induction ms arbitrary: st)
  case (Cons m ms)
  then have "\<forall>m'\<in>set ms. bt_get (ms_messages (store_put msize m st)) (message_id m') = None"
    by (auto simp: image_iff)
  with Cons show ?case
    by (simp add: store_wf_put)
qed simp

lemma store_wf_index:
  "store_wf msize st \<Longrightarrow> bt_get (ms_retention st) rk = Some e \<longleftrightarrow>
     (\<exists>m. bt_get (ms_messages st) (message_id m) = Some m \<and> e = indexed msize m \<and> rk = retention_key e)"
  unfolding store_wf_def by (elim conjE) (drule spec, erule spec)

lemma store_wf_id: "store_wf msize st \<Longrightarrow> bt_get (ms_messages st) k = Some m \<Longrightarrow> k = message_id m"
  unfolding store_wf_def by (elim conjE) (erule allE, erule allE, erule (1) impE)

lemma store_wf_delete:
  assumes "store_wf msize st" "bt_get (ms_messages st) (message_id m) = Some m"
  shows "store_wf msize (store_delete m st)"
proof -
  have key: "retention_key (indexed msize m') = retention_key (entry_new m 0) \<longleftrightarrow> message_id m' = message_id m"
    if "bt_get (ms_messages st) (message_id m') = Some m'" for m'
  proof
    assume "message_id m' = message_id m"
    then have "m' = m"
      using that assms(2) by (metis option.inject)
    then show "retention_key (indexed msize m') = retention_key (entry_new m 0)"
      by (simp add: retention_key_indexed)
  qed (rule retention_key_message_id)
  have "bt_get (ms_retention (store_delete m st)) rk = Some e \<longleftrightarrow>
      (\<exists>m'. bt_get (ms_messages (store_delete m st)) (message_id m') = Some m' \<and> e = indexed msize m' \<and> rk = retention_key e)"
    for rk e
  proof -
    have "bt_get (ms_retention (store_delete m st)) rk = Some e \<longleftrightarrow>
        rk \<noteq> retention_key (entry_new m 0) \<and> bt_get (ms_retention st) rk = Some e"
      by (simp add: store_delete_def)
    also have "\<dots> \<longleftrightarrow> (\<exists>m'. bt_get (ms_messages st) (message_id m') = Some m' \<and> e = indexed msize m' \<and>
        rk = retention_key e \<and> rk \<noteq> retention_key (entry_new m 0))"
      by (simp only: store_wf_index [OF assms(1)]) blast
    also have "\<dots> \<longleftrightarrow> (\<exists>m'. bt_get (ms_messages (store_delete m st)) (message_id m') = Some m' \<and>
        e = indexed msize m' \<and> rk = retention_key e)"
    proof (rule ex_cong1)
      fix m'
      show "bt_get (ms_messages st) (message_id m') = Some m' \<and> e = indexed msize m' \<and>
          rk = retention_key e \<and> rk \<noteq> retention_key (entry_new m 0) \<longleftrightarrow>
        bt_get (ms_messages (store_delete m st)) (message_id m') = Some m' \<and> e = indexed msize m' \<and> rk = retention_key e"
        using key [of m'] by (cases "message_id m' = message_id m") auto
    qed
    finally show ?thesis .
  qed
  moreover have "bt_wf (ms_messages (store_delete m st))" "bt_wf (ms_retention (store_delete m st))"
    using assms(1) by (simp_all add: store_wf_def store_delete_def)
  moreover have "bt_get (ms_messages (store_delete m st)) k = Some m' \<longrightarrow> k = message_id m'" for k m'
    using store_wf_id [OF assms(1)] by simp
  ultimately show ?thesis
    unfolding store_wf_def by (intro conjI allI)
qed

lemma store_wf_delete_all:
  assumes "store_wf msize st" "distinct (map message_id ms)"
    "\<forall>m\<in>set ms. bt_get (ms_messages st) (message_id m) = Some m"
  shows "store_wf msize (fold store_delete ms st)"
  using assms
proof (induction ms arbitrary: st)
  case (Cons m ms)
  then have "\<forall>m'\<in>set ms. bt_get (ms_messages (store_delete m st)) (message_id m') = Some m'"
    by (auto simp: image_iff)
  with Cons show ?case
    by (simp add: store_wf_delete)
qed simp

text \<open>Scanned retention entries are those of stored messages, so deleting them deletes messages.\<close>

lemma scanned_entries:
  assumes "store_wf msize st" "set entries \<subseteq> set (ms_retention st)" "distinct entries"
  shows "\<exists>ms. entries = map (\<lambda>m. (retention_key (indexed msize m), indexed msize m)) ms \<and>
    (\<forall>m\<in>set ms. bt_get (ms_messages st) (message_id m) = Some m) \<and> distinct (map message_id ms)"
  using assms(2,3)
proof (induction entries)
  case (Cons e entries)
  then obtain ms where ms: "entries = map (\<lambda>m. (retention_key (indexed msize m), indexed msize m)) ms"
    "\<forall>m\<in>set ms. bt_get (ms_messages st) (message_id m) = Some m" "distinct (map message_id ms)"
    by auto
  have "bt_get (ms_retention st) (fst e) = Some (snd e)"
    using Cons.prems assms(1) by (simp add: bt_wf_get_iff store_wf_def)
  then obtain m where m: "bt_get (ms_messages st) (message_id m) = Some m" "snd e = indexed msize m"
    "fst e = retention_key (indexed msize m)"
    using store_wf_index [OF assms(1)] by metis
  have "message_id m \<notin> message_id ` set ms"
  proof
    assume "message_id m \<in> message_id ` set ms"
    then obtain m' where "m' \<in> set ms" "message_id m = message_id m'"
      by blast
    moreover from this have "m' = m"
      using m(1) ms(2) by (metis option.inject)
    ultimately have "e \<in> set entries"
      using m ms(1) by (metis (no_types, lifting) image_eqI list.set_map prod.collapse)
    with Cons.prems show False
      by simp
  qed
  then show ?case
    using m ms by (intro exI [of _ "m # ms"]) (auto simp: prod_eq_iff)
qed (auto intro: exI [of _ "[]"])

lemma delete_entries_eq:
  "delete_retention_entries ok (map (\<lambda>m. (retention_key (indexed msize m), indexed msize m)) ms) st =
     (if ok then (Inr \<lparr>messages_deleted = length ms, bytes_freed = sum_list (map msize ms)\<rparr>, fold store_delete ms st)
      else (Inl BackendError, st))"
  by (auto simp: delete_retention_entries_def fold_map o_def store_delete_def retention_key_indexed
      intro!: arg_cong [where f = sum_list] fold_cong)

section \<open>Partition logs\<close>

lemma in_partition_simp [simp]: "in_partition t p (t', p', x) \<longleftrightarrow> t' = t \<and> p' = p"
  by (simp add: in_partition_def)

lemma in_partition_message_id: "in_partition t p (message_id m) \<longleftrightarrow> tm_topic_id m = t \<and> tm_partition_id m = p"
  by (simp add: message_id_def)

lemma bt_split:
  "bt_wf m \<Longrightarrow> filter (\<lambda>e. fst e < k) m @ filter (\<lambda>e. k < fst e) m = filter (\<lambda>e. fst e \<noteq> k) m"
proof (induction m)
  case (Cons e m)
  show ?case
  proof (cases "fst e < k")
    case True
    with Cons show ?thesis
      by (auto simp: bt_wf_def)
  next
    case False
    with Cons.prems have above: "\<forall>x\<in>set m. k < fst x"
      by (auto simp: bt_wf_def)
    then have "filter (\<lambda>x. fst x < k) m = []" "filter (\<lambda>x. k < fst x) m = m" "filter (\<lambda>x. fst x \<noteq> k) m = m"
      by (auto simp: filter_empty_conv filter_id_conv)
    with False show ?thesis
      by auto
  qed
qed simp

lemma partition_log_messages:
  assumes "store_wf msize st"
  shows "m \<in> set (partition_log st t p) \<longleftrightarrow>
    bt_get (ms_messages st) (message_id m) = Some m \<and> tm_topic_id m = t \<and> tm_partition_id m = p"
proof -
  have "bt_get (ms_messages st) k = Some m' \<longleftrightarrow> (k, m') \<in> set (ms_messages st)" for k m'
    using assms by (simp add: store_wf_def bt_wf_get_iff)
  note get = this
  have "m \<in> set (partition_log st t p) \<longleftrightarrow> (\<exists>k. (k, m) \<in> set (ms_messages st) \<and> in_partition t p k)"
    by (auto simp: partition_log_def image_iff)
  also have "\<dots> \<longleftrightarrow> bt_get (ms_messages st) (message_id m) = Some m \<and> in_partition t p (message_id m)"
    using store_wf_id [OF assms] by (metis get)
  finally show ?thesis
    by (simp only: in_partition_message_id)
qed

lemma store_fetch_page:
  assumes "store_wf msize st"
  shows "store_fetch_messages st t p off limit = page (partition_log st t p) off limit"
proof -
  have "snd (snd (fst e)) = tm_offset (snd e)" if "e \<in> set (ms_messages st)" for e
    using store_wf_id [OF assms, of "fst e" "snd e"] assms that
    by (simp add: store_wf_def bt_wf_get_iff message_id_def)
  then show ?thesis
    by (auto simp: store_fetch_messages_def page_def partition_log_def take_map filter_map o_def split_beta
        intro!: arg_cong [where f = "map snd"] arg_cong [where f = "take limit"] filter_cong)
qed

lemma partition_log_ascend:
  assumes "store_wf msize st"
  shows "offsets_ascend (partition_log st t p)"
proof -
  define es where "es = filter (\<lambda>(k, m). in_partition t p k) (ms_messages st)"
  have "sorted_wrt (\<lambda>x y. fst x < fst y) es"
    using assms by (simp add: es_def store_wf_def bt_wf_def sorted_wrt_map sorted_wrt_filter)
  moreover have "tm_offset (snd x) < tm_offset (snd y)" if "x \<in> set es" "y \<in> set es" "fst x < fst y" for x y
  proof -
    have "fst x = message_id (snd x)" "fst y = message_id (snd y)"
      using that assms store_wf_id [OF assms] by (auto simp: es_def store_wf_def simp flip: bt_wf_get_iff)
    with that show ?thesis
      by (auto simp: es_def in_partition_def message_id_def)
  qed
  ultimately have "sorted_wrt (\<lambda>x y. tm_offset (snd x) < tm_offset (snd y)) es"
    by (rule sorted_wrt_mono_rel [rotated])
  then show ?thesis
    by (simp add: offsets_ascend_def partition_log_def es_def sorted_wrt_map)
qed

interpretation store: log_reader "\<lambda>(st, t, p). partition_log st t p"
    "\<lambda>(st, t, p) off limit. Some (store_fetch_messages st t p off limit)" "\<lambda>(st, t, p). store_wf msize st"
  for msize
  by unfold_locales (auto simp: partition_log_ascend store_fetch_page)

lemma partition_log_put:
  assumes "store_wf msize st"
    and new: "\<forall>x\<in>set (partition_log st (tm_topic_id m) (tm_partition_id m)). tm_offset x < tm_offset m"
  shows "partition_log (store_put msize m st) t p =
    (if t = tm_topic_id m \<and> p = tm_partition_id m then partition_log st t p @ [m] else partition_log st t p)"
proof -
  let ?k = "message_id m" and ?P = "\<lambda>e. in_partition t p (fst e)"
  have wf: "bt_wf (ms_messages st)"
    using assms(1) by (simp add: store_wf_def)
  have split: "partition_log (store_put msize m st) t p =
      map snd (filter ?P (filter (\<lambda>e. fst e < ?k) (ms_messages st))) @ (if in_partition t p ?k then [m] else []) @
      map snd (filter ?P (filter (\<lambda>e. ?k < fst e) (ms_messages st)))"
    by (simp add: partition_log_def store_put_def bt_insert_def split_beta)
  show ?thesis
  proof (cases "in_partition t p ?k")
    case True
    have "fst e < ?k" if "e \<in> set (ms_messages st)" "?P e" for e
    proof -
      have "fst e = message_id (snd e)"
        using that wf store_wf_id [OF assms(1), of "fst e" "snd e"] by (simp add: bt_wf_get_iff)
      moreover have "snd e \<in> set (partition_log st t p)"
        using that by (auto simp: partition_log_def split_beta intro: image_eqI)
      ultimately show ?thesis
        using that(2) new True by (auto simp: message_id_def)
    qed
    then have "filter ?P (filter (\<lambda>e. fst e < ?k) (ms_messages st)) = filter ?P (ms_messages st)"
      "filter ?P (filter (\<lambda>e. ?k < fst e) (ms_messages st)) = []"
      by (auto simp: filter_empty_conv intro!: filter_cong) (metis order_less_asym)
    with split True show ?thesis
      by (simp add: in_partition_message_id partition_log_def case_prod_beta')
  next
    case False
    have "filter ?P (filter (\<lambda>e. fst e < ?k) (ms_messages st)) @ filter ?P (filter (\<lambda>e. ?k < fst e) (ms_messages st))
        = filter ?P (filter (\<lambda>e. fst e \<noteq> ?k) (ms_messages st))"
      by (simp only: bt_split [OF wf] flip: filter_append)
    also have "\<dots> = filter ?P (ms_messages st)"
      using False by (simp only: filter_filter, intro filter_cong refl) metis
    finally have "map snd (filter ?P (filter (\<lambda>e. fst e < ?k) (ms_messages st))) @
        map snd (filter ?P (filter (\<lambda>e. ?k < fst e) (ms_messages st))) = partition_log st t p"
      by (simp only: partition_log_def case_prod_beta' flip: map_append)
    with split False show ?thesis
      by (simp add: in_partition_message_id) metis
  qed
qed

lemma partition_log_delete:
  assumes "store_wf msize st"
  shows "partition_log (store_delete m st) t p = filter (\<lambda>x. message_id x \<noteq> message_id m) (partition_log st t p)"
proof -
  have "fst e = message_id (snd e)" if "e \<in> set (ms_messages st)" for e
    using that assms store_wf_id [OF assms, of "fst e" "snd e"] by (simp add: bt_wf_get_iff store_wf_def)
  then show ?thesis
    by (auto simp: partition_log_def store_delete_def bt_remove_def filter_map o_def split_beta conj_commute
        intro!: arg_cong [where f = "map snd"] filter_cong)
qed

lemma scan_entries_set:
  assumes "store_wf msize st"
  shows "set (scan_retention_entries st t p None) =
    (\<lambda>m. (retention_key (indexed msize m), indexed msize m)) ` set (partition_log st t p)"
proof -
  let ?f = "\<lambda>m. (retention_key (indexed msize m), indexed msize m)"
  have wf: "bt_wf (ms_retention st)"
    using assms by (simp add: store_wf_def)
  have "(rk, e) \<in> set (scan_retention_entries st t p None) \<longleftrightarrow> (\<exists>m\<in>set (partition_log st t p). (rk, e) = ?f m)" for rk e
  proof -
    have "(rk, e) \<in> set (scan_retention_entries st t p None) \<longleftrightarrow>
        bt_get (ms_retention st) rk = Some e \<and> in_partition t p rk"
      using wf by (simp add: scan_retention_entries_def bt_wf_get_iff)
    also have "\<dots> \<longleftrightarrow> (\<exists>m\<in>set (partition_log st t p). (rk, e) = ?f m)"
      unfolding store_wf_index [OF assms] Bex_def partition_log_messages [OF assms]
      by (auto simp: retention_key_indexed)
    finally show ?thesis .
  qed
  then show ?thesis
    by (intro set_eqI) (metis (no_types, lifting) image_iff prod.collapse)
qed

lemma retained_bytes_eq:
  assumes "store_wf msize st"
  shows "retained_bytes_for_partition st t p = sum_list (map msize (partition_log st t p))"
proof -
  let ?es = "scan_retention_entries st t p None" and ?f = "\<lambda>m. (retention_key (indexed msize m), indexed msize m)"
  have "bt_wf (ms_retention st)"
    using assms by (simp add: store_wf_def)
  then have des: "distinct ?es"
    using bt_wf_distinct by (fastforce simp: scan_retention_entries_def distinct_map)
  have dlog: "distinct (partition_log st t p)"
    using partition_log_ascend [OF assms, of t p]
    by (auto simp: offsets_ascend_def strict_sorted_iff distinct_map)
  have "inj_on ?f (set (partition_log st t p))"
    by (rule inj_onI)
      (metis (no_types, lifting) assms option.inject partition_log_messages prod.inject retention_key_message_id)
  then have "(\<Sum>x\<in>set ?es. re_message_bytes (snd x)) = (\<Sum>m\<in>set (partition_log st t p). msize m)"
    by (simp add: scan_entries_set [OF assms] sum.reindex)
  then show ?thesis
    using des dlog by (simp add: retained_bytes_for_partition_def split_beta sum_list_distinct_conv_sum_set)
qed

lemma topic_filter_keys:
  "fold bt_remove (filter P (bt_keys m)) m = filter (\<lambda>e. \<not> P (fst e)) m"
proof -
  have "fold bt_remove ks m = filter (\<lambda>e. fst e \<notin> set ks) m" for ks
    by (induction ks arbitrary: m) (auto simp: bt_remove_def conj_commute)
  then show ?thesis
    by (auto simp: bt_keys_def intro!: filter_cong)
qed

lemma delete_topic_eq:
  "delete_topic_messages ok t st =
     (if ok then (Inr (length (filter (\<lambda>k. fst k = t) (bt_keys (ms_messages st)))),
        st\<lparr>ms_messages := filter (\<lambda>e. fst (fst e) \<noteq> t) (ms_messages st),
           ms_retention := filter (\<lambda>e. fst (fst e) \<noteq> t) (ms_retention st)\<rparr>)
      else (Inl BackendError, st))"
  by (simp add: delete_topic_messages_def topic_filter_keys Let_def)

lemma bt_get_filter: "bt_get (filter (\<lambda>e. P (fst e)) m) k = (if P k then bt_get m k else None)"
  by (simp add: bt_get_def map_of_filter_key)

lemma store_wf_delete_topic:
  assumes "store_wf msize st"
  shows "store_wf msize (snd (delete_topic_messages ok t st))"
proof (cases ok)
  case True
  let ?st = "snd (delete_topic_messages ok t st)"
  have get: "bt_get (ms_messages ?st) k = (if fst k \<noteq> t then bt_get (ms_messages st) k else None)"
    "bt_get (ms_retention ?st) rk = (if fst rk \<noteq> t then bt_get (ms_retention st) rk else None)" for k rk
    using True by (simp_all add: delete_topic_eq bt_get_filter [of "\<lambda>k :: topic_message_id. fst k \<noteq> t"]
        bt_get_filter [of "\<lambda>k :: topic_retention_index_key. fst k \<noteq> t"])
  have "bt_get (ms_retention ?st) rk = Some e \<longleftrightarrow>
      (\<exists>m. bt_get (ms_messages ?st) (message_id m) = Some m \<and> e = indexed msize m \<and> rk = retention_key e)" for rk e
  proof -
    have "bt_get (ms_retention ?st) rk = Some e \<longleftrightarrow> (\<exists>m. bt_get (ms_messages st) (message_id m) = Some m \<and>
        e = indexed msize m \<and> rk = retention_key e \<and> fst rk \<noteq> t)"
      unfolding get by (cases "fst rk = t") (simp_all add: store_wf_index [OF assms])
    also have "\<dots> \<longleftrightarrow> (\<exists>m. bt_get (ms_messages ?st) (message_id m) = Some m \<and> e = indexed msize m \<and> rk = retention_key e)"
    proof (rule ex_cong1)
      fix m
      have "fst (message_id m) = fst (retention_key (indexed msize m))"
        by (simp add: message_id_def retention_key_indexed)
      then show "bt_get (ms_messages st) (message_id m) = Some m \<and> e = indexed msize m \<and> rk = retention_key e \<and> fst rk \<noteq> t
          \<longleftrightarrow> bt_get (ms_messages ?st) (message_id m) = Some m \<and> e = indexed msize m \<and> rk = retention_key e"
        unfolding get by auto
    qed
    finally show ?thesis .
  qed
  moreover have "bt_get (ms_messages ?st) k = Some m \<longrightarrow> k = message_id m" for k m
    unfolding get using store_wf_id [OF assms] by simp
  moreover have "bt_wf (ms_messages ?st)" "bt_wf (ms_retention ?st)"
    using assms True by (simp_all add: delete_topic_eq store_wf_def)
  ultimately show ?thesis
    unfolding store_wf_def by (intro conjI allI)
qed (simp add: assms delete_topic_eq)

text \<open>
  The states the store can reach: messages are written under unused ids, retention deletes entries
  it has scanned, and topics are cleared; every backend batch may fail.
\<close>

inductive store_run :: "(topic_message \<Rightarrow> nat) \<Rightarrow> topic_message_store \<Rightarrow> bool" for msize where
  empty: "store_run msize store_empty"
| put: "store_run msize st \<Longrightarrow> bt_get (ms_messages st) (message_id m) = None \<Longrightarrow>
    store_run msize (snd (put_message_with_retention_index msize ok m st))"
| batch: "store_run msize st \<Longrightarrow> distinct (map message_id ms) \<Longrightarrow>
    (\<forall>m\<in>set ms. bt_get (ms_messages st) (message_id m) = None) \<Longrightarrow>
    store_run msize (snd (batch_put_raw_with_retention ok (map (raw_of msize) ms) st))"
| drop: "store_run msize st \<Longrightarrow> set entries \<subseteq> set (scan_retention_entries st t p None) \<Longrightarrow> distinct entries \<Longrightarrow>
    store_run msize (snd (delete_retention_entries ok entries st))"
| clear: "store_run msize st \<Longrightarrow> store_run msize (snd (delete_topic_messages ok t st))"

lemma store_run_wf: "store_run msize st \<Longrightarrow> store_wf msize st"
proof (induction rule: store_run.induct)
  case (drop st entries t p ok)
  have "set entries \<subseteq> set (ms_retention st)"
    using drop.hyps(2) by (auto simp: scan_retention_entries_def)
  then obtain ms where "entries = map (\<lambda>m. (retention_key (indexed msize m), indexed msize m)) ms"
    "\<forall>m\<in>set ms. bt_get (ms_messages st) (message_id m) = Some m" "distinct (map message_id ms)"
    using scanned_entries [OF drop.IH _ drop.hyps(3)] by blast
  then show ?case
    using store_wf_delete_all [OF drop.IH] by (simp add: delete_entries_eq drop.IH)
qed (simp_all add: put_message_eq batch_put_eq store_wf_put store_wf_put_all store_wf_delete_topic)

lemma latest_offset_log:
  assumes "store_wf msize st"
  shows "store_latest_offset st t p =
    (if partition_log st t p = [] then None else Some (tm_offset (last (partition_log st t p))))"
proof (cases "rev (filter (\<lambda>(k, m). in_partition t p k) (ms_messages st))")
  case Nil
  then show ?thesis
    by (simp add: store_latest_offset_def partition_log_def)
next
  case (Cons e es)
  then have l: "filter (\<lambda>(k, m). in_partition t p k) (ms_messages st) = rev es @ [e]"
    by (simp add: rev_eq_Cons_iff)
  have "e \<in> set (rev es @ [e])"
    by simp
  then have "e \<in> set (ms_messages st)"
    unfolding l [symmetric] by simp
  then have "snd (snd (fst e)) = tm_offset (snd e)"
    using assms store_wf_id [OF assms, of "fst e" "snd e"] by (simp add: store_wf_def bt_wf_get_iff message_id_def)
  with Cons l show ?thesis
    by (simp add: store_latest_offset_def partition_log_def split_beta)
qed

text \<open>
  C21: The message log and the retention index never drift apart: in every reachable state there is
  exactly one index entry per stored message, the retained byte count of a partition is the total
  encoded size of its messages, and reads return the messages of the partition in offset order
  from the requested offset, with the latest offset that of the last one.
\<close>

theorem store_index_mirrors_log:
  assumes "store_run msize st"
  shows "(\<forall>rk e. bt_get (ms_retention st) rk = Some e \<longleftrightarrow>
      (\<exists>m. bt_get (ms_messages st) (message_id m) = Some m \<and> e = entry_new m (msize m) \<and> rk = retention_key e)) \<and>
    retained_bytes_for_partition st t p = sum_list (map msize (partition_log st t p)) \<and>
    offsets_ascend (partition_log st t p) \<and>
    store_fetch_messages st t p off limit = page (partition_log st t p) off limit \<and>
    (\<forall>m\<in>set (partition_log st t p). tm_offset m \<le> the (store_latest_offset st t p))"
proof -
  note wf = store_run_wf [OF assms]
  have asc: "offsets_ascend (partition_log st t p)"
    using store.ascend [of msize "(st, t, p)"] wf by simp
  have "\<forall>m\<in>set (partition_log st t p). tm_offset m \<le> the (store_latest_offset st t p)"
    using asc by (cases "partition_log st t p" rule: rev_cases)
      (auto simp: latest_offset_log [OF wf] offsets_ascend_def sorted_wrt_append less_imp_le)
  then show ?thesis
    using asc store_wf_index [OF wf] store_fetch_page [OF wf] retained_bytes_eq [OF wf] by blast
qed

theorem store_index_mirrors_log_witness:
  "retained_bytes_for_partition (snd (put_message_with_retention_index (\<lambda>m. length (tm_payload m)) True
     (example_message 0) store_empty)) ''events'' 0 = 1"
proof -
  have "store_run (\<lambda>m. length (tm_payload m)) (snd (put_message_with_retention_index
      (\<lambda>m. length (tm_payload m)) True (example_message 0) store_empty))"
    by (intro store_run.intros) (simp add: store_empty_def)
  from store_index_mirrors_log [OF this, of "''events''" 0] show ?thesis
    by (simp add: put_message_eq store_put_def store_empty_def bt_insert_def partition_log_def message_id_def
        example_message_def new_with_user_def)
qed

end
