(* ===== verification/TopicClaims.thy ===== *)
theory TopicClaims
  imports KPrelude
begin

text \<open>
  The claim state of one consumer group on one topic partition, from the \<open>ClaimState\<close> of
  \<open>kalamdb-publisher/src/service.rs\<close>: the hand-out cursor, the pending (unacknowledged) claims and
  the in-process acknowledgement. Instants are milliseconds, so a duration is a difference. Releasing spare capacity
  (\<open>shrink_pending\<close>) has no observable effect and is left out.
\<close>

section \<open>State and operations\<close>

record pending_claim =
  pc_reservation_id :: nat
  pc_start :: nat
  pc_end :: nat
  pc_claimed_at :: nat
  pc_in_flight :: bool

record claim_state =
  cs_cursor :: nat
  cs_pending :: "pending_claim list"
  cs_next_reservation_id :: nat
  cs_last_acked :: "nat option"

definition max_pending_claims :: nat where
  "max_pending_claims = 32"

definition claim_state_new :: "nat \<Rightarrow> claim_state" where
  "claim_state_new cursor =
     \<lparr>cs_cursor = cursor, cs_pending = [], cs_next_reservation_id = 1, cs_last_acked = None\<rparr>"

definition stale :: "nat \<Rightarrow> nat \<Rightarrow> pending_claim \<Rightarrow> bool" where
  "stale now timeout c = (\<not> pc_in_flight c \<and> timeout < now - pc_claimed_at c)"

definition expire_stale_claims :: "nat \<Rightarrow> nat \<Rightarrow> claim_state \<Rightarrow> claim_state" where
  "expire_stale_claims now timeout st =
     (let earliest_expired =
            fold (\<lambda>c e. if stale now timeout c
                        then Some (case e of None \<Rightarrow> pc_start c | Some x \<Rightarrow> min x (pc_start c)) else e)
              (cs_pending st) None;
          st1 = st\<lparr>cs_pending := filter (\<lambda>c. \<not> stale now timeout c) (cs_pending st)\<rparr>
      in case earliest_expired of
           Some reset_to \<Rightarrow> if reset_to < cs_cursor st1 then st1\<lparr>cs_cursor := reset_to\<rparr> else st1
         | None \<Rightarrow> st1)"

text \<open>What \<open>ack_up_to\<close> does to one pending claim: keep an in-flight one, drop or trim the others.\<close>

definition ack_claim :: "nat \<Rightarrow> pending_claim \<Rightarrow> pending_claim option" where
  "ack_claim nxt c =
     (if pc_in_flight c then Some c
      else if pc_end c \<le> nxt then None
      else if pc_start c < nxt then Some (c\<lparr>pc_start := nxt\<rparr>)
      else Some c)"

definition ack_up_to :: "nat \<Rightarrow> claim_state \<Rightarrow> claim_state" where
  "ack_up_to acked st =
     (let nxt = sat_add acked 1;
          st1 = st\<lparr>cs_last_acked := Some (case cs_last_acked st of Some prev \<Rightarrow> max prev acked | None \<Rightarrow> acked),
                  cs_pending := List.map_filter (ack_claim nxt) (cs_pending st)\<rparr>
      in if cs_cursor st1 < nxt then st1\<lparr>cs_cursor := nxt\<rparr> else st1)"

definition after_ack :: "nat option \<Rightarrow> nat" where
  "after_ack acked = (case acked of None \<Rightarrow> 0 | Some a \<Rightarrow> sat_add a 1)"

definition deliver_from :: "nat option \<Rightarrow> claim_state \<Rightarrow> nat" where
  "deliver_from durable st = max (after_ack (cs_last_acked st)) (after_ack durable)"

definition reserve_window :: "nat \<Rightarrow> nat \<Rightarrow> nat \<Rightarrow> claim_state \<Rightarrow> nat \<times> claim_state" where
  "reserve_window fetch_start limit now st =
     (let rid = cs_next_reservation_id st
      in (rid, st\<lparr>cs_next_reservation_id := sat_add rid 1,
            cs_pending := cs_pending st @
              [\<lparr>pc_reservation_id = rid, pc_start = fetch_start, pc_end = sat_add fetch_start limit,
                pc_claimed_at = now, pc_in_flight = True\<rparr>]\<rparr>))"

definition advance_cursor_for_contiguous_claim :: "nat \<Rightarrow> nat \<Rightarrow> claim_state \<Rightarrow> claim_state" where
  "advance_cursor_for_contiguous_claim start ende st =
     (if start \<le> cs_cursor st then st\<lparr>cs_cursor := max (cs_cursor st) ende\<rparr> else st)"

fun finalize_first :: "nat \<Rightarrow> nat \<Rightarrow> nat \<Rightarrow> nat \<Rightarrow> pending_claim list \<Rightarrow> pending_claim list" where
  "finalize_first rid start ende now [] = []"
| "finalize_first rid start ende now (c # cs) =
     (if pc_reservation_id c = rid
      then c\<lparr>pc_start := start, pc_end := ende, pc_in_flight := False, pc_claimed_at := now\<rparr> # cs
      else c # finalize_first rid start ende now cs)"

definition has_reservation :: "nat \<Rightarrow> claim_state \<Rightarrow> bool" where
  "has_reservation rid st = (\<exists>c\<in>set (cs_pending st). pc_reservation_id c = rid)"

definition finalize_reservation :: "nat \<Rightarrow> nat \<Rightarrow> nat \<Rightarrow> nat \<Rightarrow> claim_state \<Rightarrow> claim_state" where
  "finalize_reservation rid start ende now st =
     (if has_reservation rid st
      then advance_cursor_for_contiguous_claim start ende
             (st\<lparr>cs_pending := finalize_first rid start ende now (cs_pending st)\<rparr>)
      else st)"

definition register_delivered_claim :: "nat \<Rightarrow> nat \<Rightarrow> nat \<Rightarrow> claim_state \<Rightarrow> claim_state" where
  "register_delivered_claim start ende now st =
     (let rid = cs_next_reservation_id st
      in advance_cursor_for_contiguous_claim start ende
           (st\<lparr>cs_next_reservation_id := sat_add rid 1,
              cs_pending := cs_pending st @
                [\<lparr>pc_reservation_id = rid, pc_start = start, pc_end = ende, pc_claimed_at = now,
                  pc_in_flight = False\<rparr>]\<rparr>))"

definition overlaps_pending :: "nat \<Rightarrow> nat \<Rightarrow> claim_state \<Rightarrow> bool" where
  "overlaps_pending start ende st = (\<exists>c\<in>set (cs_pending st). pc_start c < ende \<and> start < pc_end c)"

definition cancel_reservation :: "nat \<Rightarrow> claim_state \<Rightarrow> claim_state" where
  "cancel_reservation rid st = st\<lparr>cs_pending := filter (\<lambda>c. pc_reservation_id c \<noteq> rid) (cs_pending st)\<rparr>"

definition claims_offset :: "pending_claim \<Rightarrow> nat \<Rightarrow> bool" where
  "claims_offset c off = (pc_start c \<le> off \<and> off < pc_end c)"

text \<open>One pass of the skipping loop over the pending claims, and the loop itself.\<close>

definition skip_pass :: "pending_claim list \<Rightarrow> nat \<times> bool \<Rightarrow> nat \<times> bool" where
  "skip_pass cs s = fold (\<lambda>c (nxt, adv). if claims_offset c nxt then (pc_end c, True) else (nxt, adv)) cs s"

lemma skip_pass_Cons:
  "skip_pass (c # cs) (nxt, adv) = (if claims_offset c nxt then skip_pass cs (pc_end c, True) else skip_pass cs (nxt, adv))"
  by (simp add: skip_pass_def)

lemma skip_pass_result:
  assumes "skip_pass cs (nxt, adv) = (nxt', adv')"
  shows "nxt \<le> nxt' \<and> nxt' \<in> insert nxt (pc_end ` set cs) \<and> adv' = (adv \<or> nxt < nxt') \<and>
    (\<forall>off. nxt \<le> off \<longrightarrow> off < nxt' \<longrightarrow> (\<exists>c\<in>set cs. claims_offset c off)) \<and>
    (nxt' = nxt \<longrightarrow> (\<forall>c\<in>set cs. \<not> claims_offset c nxt))"
  using assms
proof (induction cs arbitrary: nxt adv)
  case Nil
  then show ?case by (simp add: skip_pass_def)
next
  case (Cons c cs)
  show ?case
  proof (cases "claims_offset c nxt")
    case True
    then have "skip_pass cs (pc_end c, True) = (nxt', adv')"
      using Cons.prems by (simp add: skip_pass_Cons)
    note IH = Cons.IH [OF this]
    have c: "pc_start c \<le> nxt" "nxt < pc_end c"
      using True by (simp_all add: claims_offset_def)
    have "\<exists>d\<in>set (c # cs). claims_offset d off" if "nxt \<le> off" "off < nxt'" for off
      using IH c that by (cases "off < pc_end c") (auto simp: claims_offset_def)
    then show ?thesis
      using IH c by auto
  next
    case False
    then show ?thesis
      using Cons by (auto simp: skip_pass_Cons)
  qed
qed

function skip_claims :: "pending_claim list \<Rightarrow> nat \<Rightarrow> nat" where
  "skip_claims cs nxt =
     (case skip_pass cs (nxt, False) of (nxt', adv) \<Rightarrow> if adv then skip_claims cs nxt' else nxt')"
  by auto

termination
proof (relation "measure (\<lambda>(cs, nxt). Max (insert 0 (pc_end ` set cs)) - nxt)")
  fix cs nxt nxt' adv
  assume "(nxt', adv) = skip_pass cs (nxt, False)" adv
  then have "nxt < nxt'" "nxt' \<in> pc_end ` set cs"
    using skip_pass_result [of cs nxt False nxt' adv] by auto
  then have "nxt' \<le> Max (insert 0 (pc_end ` set cs))"
    by (intro Max_ge) auto
  with \<open>nxt < nxt'\<close> show "((cs, nxt'), cs, nxt) \<in> measure (\<lambda>(cs, nxt). Max (insert 0 (pc_end ` set cs)) - nxt)"
    by simp
qed simp

declare skip_claims.simps [simp del]

lemma skip_claims_result:
  "nxt \<le> skip_claims cs nxt \<and>
   (\<forall>off. nxt \<le> off \<longrightarrow> off < skip_claims cs nxt \<longrightarrow> (\<exists>c\<in>set cs. claims_offset c off)) \<and>
   (\<forall>c\<in>set cs. \<not> claims_offset c (skip_claims cs nxt))"
proof (induction cs nxt rule: skip_claims.induct)
  case (1 cs nxt)
  obtain nxt' adv where pass: "skip_pass cs (nxt, False) = (nxt', adv)"
    by fastforce
  note r = skip_pass_result [OF pass]
  show ?case
  proof (cases adv)
    case True
    then have "skip_claims cs nxt = skip_claims cs nxt'"
      using pass by (simp add: skip_claims.simps [of cs nxt])
    moreover note 1 [OF pass [symmetric] True]
    ultimately show ?thesis
      using r by (metis le_trans linorder_not_less)
  next
    case False
    with r have "nxt' = nxt"
      by auto
    with False pass r show ?thesis
      by (simp add: skip_claims.simps [of cs nxt])
  qed
qed

definition next_available_window :: "nat \<Rightarrow> claim_state \<Rightarrow> nat \<times> nat" where
  "next_available_window requested st =
     (if max_pending_claims \<le> length (cs_pending st) then (cs_cursor st, 0)
      else
        (let nxt = skip_claims (cs_pending st) (cs_cursor st);
             later = map pc_start (filter (\<lambda>c. nxt < pc_start c) (cs_pending st));
             available = (if later = [] then u64_max else Min (set later) - nxt)
         in (nxt, min requested available)))"

section \<open>Windows\<close>

lemma next_window_facts:
  assumes "next_available_window requested st = (nxt, n)" "length (cs_pending st) < max_pending_claims"
  shows "cs_cursor st \<le> nxt" "n \<le> requested" "n = 0 \<Longrightarrow> requested = 0"
    and "cs_cursor st \<le> off \<Longrightarrow> off < nxt \<Longrightarrow> \<exists>c\<in>set (cs_pending st). claims_offset c off"
    and "nxt \<le> off \<Longrightarrow> off < nxt + n \<Longrightarrow> c \<in> set (cs_pending st) \<Longrightarrow> \<not> claims_offset c off"
    and "n < requested \<Longrightarrow> n = u64_max \<or> (\<exists>c\<in>set (cs_pending st). pc_start c = nxt + n)"
proof -
  define later where "later = set (map pc_start (filter (\<lambda>c. nxt < pc_start c) (cs_pending st)))"
  have eq: "(skip_claims (cs_pending st) (cs_cursor st), min requested
      (let later = map pc_start (filter (\<lambda>c. skip_claims (cs_pending st) (cs_cursor st) < pc_start c) (cs_pending st))
       in if later = [] then u64_max else Min (set later) - skip_claims (cs_pending st) (cs_cursor st))) = (nxt, n)"
    using assms(1) unfolding next_available_window_def Let_def if_not_P [OF assms(2) [folded not_le]] .
  then have nxt: "nxt = skip_claims (cs_pending st) (cs_cursor st)"
    by (simp only: prod.inject)
  have n: "n = min requested (if later = {} then u64_max else Min later - nxt)"
    using eq unfolding nxt [symmetric] prod.inject Let_def later_def set_empty by (simp only:)
  show "cs_cursor st \<le> nxt" and covered: "cs_cursor st \<le> off \<Longrightarrow> off < nxt \<Longrightarrow> \<exists>c\<in>set (cs_pending st). claims_offset c off"
    using skip_claims_result [of "cs_cursor st" "cs_pending st"] nxt by auto
  have free: "\<forall>c\<in>set (cs_pending st). \<not> claims_offset c nxt"
    using skip_claims_result [of "cs_cursor st" "cs_pending st"] nxt by auto
  have later: "finite later" "\<forall>s\<in>later. nxt < s"
    by (auto simp: later_def)
  then have pos: "later \<noteq> {} \<Longrightarrow> nxt < Min later"
    by simp
  show "n \<le> requested" using n by simp
  show "n = 0 \<Longrightarrow> requested = 0"
    using n pos by (auto simp: u64_max_def min_def split: if_splits)
  show "\<not> claims_offset c off" if "nxt \<le> off" "off < nxt + n" "c \<in> set (cs_pending st)"
  proof
    assume cl: "claims_offset c off"
    then have "nxt < pc_start c"
      using free that by (force simp: claims_offset_def)
    then have "pc_start c \<in> later"
      using that(3) by (auto simp: later_def)
    moreover from this have "Min later \<le> pc_start c" "later \<noteq> {}"
      using later(1) by auto
    ultimately show False
      using n cl that(2) pos by (auto simp: claims_offset_def)
  qed
  have starts: "later \<subseteq> pc_start ` set (cs_pending st)" by (auto simp: later_def)
  show "n = u64_max \<or> (\<exists>c\<in>set (cs_pending st). pc_start c = nxt + n)" if "n < requested"
  proof (cases "later = {}")
    case True
    then show ?thesis using n that by (simp add: min_def split: if_splits)
  next
    case False
    then obtain c where "c \<in> set (cs_pending st)" "pc_start c = Min later"
      using subsetD [OF starts Min_in [OF later(1) False]] by (metis imageE)
    moreover have "nxt + n = Min later" using n that pos [OF False] False by (simp add: min_def split: if_splits)
    ultimately show ?thesis by auto
  qed
qed


definition example_claims :: claim_state where
  "example_claims = \<lparr>cs_cursor = 0, cs_pending =
      [\<lparr>pc_reservation_id = 1, pc_start = 0, pc_end = 4, pc_claimed_at = 0, pc_in_flight = False\<rparr>,
       \<lparr>pc_reservation_id = 2, pc_start = 6, pc_end = 9, pc_claimed_at = 0, pc_in_flight = False\<rparr>],
      cs_next_reservation_id = 3, cs_last_acked = None\<rparr>"


end
