(* ===== verification/TopicOffsets.thy ===== *)
theory TopicOffsets
  imports TextNum TopicPartition
begin

text \<open>
  Committed offsets of consumer groups: the table \<open>system.topic_offsets\<close> of
  \<open>kalamdb-system/src/providers/topic_offsets\<close>. Rows live in an ordered map under the text key
  \<open>topic:group:partition\<close>; timestamps are microseconds and passed in.
\<close>

record topic_offset =
  to_topic_id :: topic_id
  to_group_id :: consumer_group_id
  to_partition_id :: nat
  to_last_acked_offset :: nat
  to_updated_at :: int

type_synonym offset_store = "(string, topic_offset) btree"

definition topic_offset_new :: "topic_id \<Rightarrow> consumer_group_id \<Rightarrow> nat \<Rightarrow> nat \<Rightarrow> int \<Rightarrow> topic_offset" where
  "topic_offset_new t g p acked now =
     \<lparr>to_topic_id = t, to_group_id = g, to_partition_id = p, to_last_acked_offset = acked, to_updated_at = now\<rparr>"

definition offset_ack :: "nat \<Rightarrow> int \<Rightarrow> topic_offset \<Rightarrow> topic_offset" where
  "offset_ack off now row =
     (if to_last_acked_offset row < off then row\<lparr>to_last_acked_offset := off, to_updated_at := now\<rparr> else row)"

definition make_key :: "topic_id \<Rightarrow> consumer_group_id \<Rightarrow> nat \<Rightarrow> string" where
  "make_key t g p = t @ '':'' @ g @ '':'' @ show_dec p"

definition upsert_offset :: "topic_offset \<Rightarrow> offset_store \<Rightarrow> offset_store" where
  "upsert_offset row st = bt_insert (make_key (to_topic_id row) (to_group_id row) (to_partition_id row)) row st"

definition get_offset :: "offset_store \<Rightarrow> topic_id \<Rightarrow> consumer_group_id \<Rightarrow> nat \<Rightarrow> topic_offset option" where
  "get_offset st t g p = bt_get st (make_key t g p)"

definition scan_prefix :: "string \<Rightarrow> offset_store \<Rightarrow> topic_offset list" where
  "scan_prefix pre st = take 10000 (map snd (filter (\<lambda>(k, row). take (length pre) k = pre) st))"

definition get_group_offsets :: "offset_store \<Rightarrow> topic_id \<Rightarrow> consumer_group_id \<Rightarrow> topic_offset list" where
  "get_group_offsets st t g = scan_prefix (t @ '':'' @ g @ '':'') st"

definition get_topic_offsets :: "offset_store \<Rightarrow> topic_id \<Rightarrow> topic_offset list" where
  "get_topic_offsets st t = scan_prefix (t @ '':'') st"

definition store_ack_offset :: "int \<Rightarrow> topic_id \<Rightarrow> consumer_group_id \<Rightarrow> nat \<Rightarrow> nat \<Rightarrow> offset_store \<Rightarrow> offset_store" where
  "store_ack_offset now t g p off st =
     (let key = make_key t g p;
          row = (case bt_get st key of Some r \<Rightarrow> r | None \<Rightarrow> topic_offset_new t g p 0 now)
      in bt_insert key (offset_ack off now row) st)"

definition store_reset_offset :: "int \<Rightarrow> topic_id \<Rightarrow> consumer_group_id \<Rightarrow> nat \<Rightarrow> nat \<Rightarrow> offset_store \<Rightarrow> offset_store" where
  "store_reset_offset now t g p next_offset st =
     (if next_offset = 0 then bt_remove (make_key t g p) st
      else bt_insert (make_key t g p) (topic_offset_new t g p (next_offset - 1) now) st)"

definition delete_topic_offsets :: "topic_id \<Rightarrow> offset_store \<Rightarrow> nat \<times> offset_store" where
  "delete_topic_offsets t st =
     (let rows = get_topic_offsets st t
      in (length rows,
          fold (\<lambda>row s. bt_remove (make_key (to_topic_id row) (to_group_id row) (to_partition_id row)) s) rows st))"

section \<open>Keys\<close>

lemma colon_not_digit: "\<not> is_digit (CHR 0x3A)"
  by (simp add: is_digit_def byte_of_def)

lemma show_dec_no_colon: "CHR 0x3A \<notin> set (show_dec n)"
  using show_dec_digits colon_not_digit by blast

lemma split_first_colon:
  assumes "CHR 0x3A \<notin> set t" "CHR 0x3A \<notin> set t'" "t @ CHR 0x3A # r = t' @ CHR 0x3A # r'"
  shows "t = t' \<and> r = r'"
  using assms
proof (induction t arbitrary: t')
  case Nil
  then show ?case
    by (cases t') auto
next
  case (Cons c t)
  then show ?case
    by (cases t') auto
qed

lemma make_key_inject:
  assumes "CHR 0x3A \<notin> set t" "CHR 0x3A \<notin> set t'"
  shows "make_key t g p = make_key t' g' p' \<longleftrightarrow> t = t' \<and> g = g' \<and> p = p'"
proof
  assume eq: "make_key t g p = make_key t' g' p'"
  then have t: "t = t'" and rest: "g @ CHR 0x3A # show_dec p = g' @ CHR 0x3A # show_dec p'"
    using split_first_colon [OF assms] by (auto simp: make_key_def)
  from rest have "rev (show_dec p) @ CHR 0x3A # rev g = rev (show_dec p') @ CHR 0x3A # rev g'"
    by (metis append.assoc append_Cons append_Nil rev.simps(2) rev_append)
  then have "rev (show_dec p) = rev (show_dec p')" "rev g = rev g'"
    using split_first_colon [of "rev (show_dec p)" "rev (show_dec p')"] show_dec_no_colon by auto
  with t show "t = t' \<and> g = g' \<and> p = p'"
    by (simp add: show_dec_inject)
qed simp

section \<open>Commits\<close>

lemma get_offset_ack:
  assumes "CHR 0x3A \<notin> set t" "CHR 0x3A \<notin> set t'"
  shows "map_option to_last_acked_offset (get_offset (store_ack_offset now t g p off st) t' g' p') =
    (if (t', g', p') = (t, g, p)
     then Some (max off (case get_offset st t g p of None \<Rightarrow> 0 | Some r \<Rightarrow> to_last_acked_offset r))
     else map_option to_last_acked_offset (get_offset st t' g' p'))"
  using make_key_inject [OF assms(2,1)]
  by (auto simp: get_offset_def store_ack_offset_def Let_def offset_ack_def topic_offset_new_def split: option.splits)

lemma fold_ack_max:
  assumes "CHR 0x3A \<notin> set t"
  shows "map_option to_last_acked_offset (get_offset (fold (\<lambda>(now, off). store_ack_offset now t g p off) acks st) t g p) =
    (if acks = [] then map_option to_last_acked_offset (get_offset st t g p)
     else Some (Max (insert (case get_offset st t g p of None \<Rightarrow> 0 | Some r \<Rightarrow> to_last_acked_offset r) (snd ` set acks))))"
proof (induction acks rule: rev_induct)
  case (snoc a acks)
  obtain now off where a: "a = (now, off)"
    by fastforce
  let ?st = "fold (\<lambda>(now, off). store_ack_offset now t g p off) acks st"
  let ?b = "case get_offset st t g p of None \<Rightarrow> 0 | Some r \<Rightarrow> to_last_acked_offset r"
  have "(case get_offset ?st t g p of None \<Rightarrow> 0 | Some r \<Rightarrow> to_last_acked_offset r) = Max (insert ?b (snd ` set acks))"
    using snoc by (cases "get_offset ?st t g p"; cases "get_offset st t g p") (auto split: if_splits)
  then show ?case
    using get_offset_ack [OF assms assms, of now g p off ?st] a by (simp add: insert_commute)
qed simp



text \<open>Names with colons do collide: these two group partitions share one row.\<close>

lemma offset_key_collision: "make_key ''a'' ''b:c'' 0 = make_key ''a:b'' ''c'' 0"
  by (simp add: make_key_def)

end
