(* ===== verification/TopicService.thy ===== *)
theory TopicService
  imports TopicRouting TopicStore TopicClaims TopicOffsets
begin

text \<open>
  The topic publisher service: payload preparation (\<open>kalamdb-publisher/src/payload.rs\<close>), the
  service state and its partitions (\<open>service.rs\<close>), publishing (\<open>service/publish.rs\<close>), the registry
  (\<open>service/registry.rs\<close>), plain reads (\<open>service/consume.rs\<close>) and the restore at startup
  (\<open>service/retention.rs\<close>). An operation of the service is one step: the partition's write lock
  covers offset assignment and the durable write, as in the code. JSON encoding, the key hash, the
  schema lookup and the encoded size of a message are fields of \<open>publish_env\<close>; the outcome of each
  storage call is an argument.
\<close>

section \<open>Prepared rows\<close>

datatype topic_error =
    JsonFailed | KeyColumnMissing string | KeyLookupFailed | StoreFailed | ReadFailed
  | TopicMissing topic_id | OffsetOutOfRange nat nat nat | BatchSizeZero | PartitionOutside nat nat
  | DivisionByZero

text \<open>A JSON value is a string or something else, known by its printed text.\<close>

datatype cell_value = CellText string | CellOther string

fun cell_text :: "cell_value \<Rightarrow> string" where
  "cell_text (CellText s) = s"
| "cell_text (CellOther s) = s"

text \<open>
  \<open>pe_to_vec\<close> serialises a hash map; its first argument stands for the map's random state, which
  decides the order of the columns in the output.
\<close>

record publish_env =
  pe_routing :: routing_env
  pe_primary_keys :: "(table_id \<Rightarrow> topic_error + string list) option"
  pe_scalar_json :: "scalar_value \<Rightarrow> cell_value option"
  pe_to_vec :: "nat \<Rightarrow> (string \<rightharpoonup> cell_value) \<Rightarrow> string option"
  pe_key_text :: "(string, cell_value) btree \<Rightarrow> string option"
  pe_inject_table :: "string \<Rightarrow> string \<Rightarrow> string option"
  pe_hash_key :: "string \<Rightarrow> nat"
  pe_message_bytes :: "topic_message \<Rightarrow> nat"

definition table_id_display :: "table_id \<Rightarrow> string" where
  "table_id_display t = namespace_id t @ '':'' @ table_name t"

fun row_to_json_map :: "publish_env \<Rightarrow> row \<Rightarrow> (string \<rightharpoonup> cell_value) option" where
  "row_to_json_map env [] = Some Map.empty"
| "row_to_json_map env ((c, v) # r) =
     (case pe_scalar_json env v of
        None \<Rightarrow> None
      | Some x \<Rightarrow> (case row_to_json_map env r of
          None \<Rightarrow> None
        | Some m \<Rightarrow> Some (if c \<in> dom m then m else m(c \<mapsto> x))))"

record prepared_row =
  pr_key_payload :: string
  pr_json_map :: "string \<rightharpoonup> cell_value"
  pr_full_payload :: "string option"
  pr_partition_hash :: nat

definition from_row :: "publish_env \<Rightarrow> nat \<Rightarrow> row \<Rightarrow> topic_error + prepared_row" where
  "from_row env hs r =
     (case row_to_json_map env r of
        None \<Rightarrow> Inl JsonFailed
      | Some jm \<Rightarrow>
          (case pe_to_vec env hs jm of
             None \<Rightarrow> Inl JsonFailed
           | Some key_payload \<Rightarrow>
               Inr \<lparr>pr_key_payload = key_payload, pr_json_map = jm, pr_full_payload = None,
                    pr_partition_hash = pe_hash_key env key_payload\<rparr>))"

definition from_row_with_table :: "publish_env \<Rightarrow> nat \<Rightarrow> row \<Rightarrow> table_id \<Rightarrow> topic_error + prepared_row" where
  "from_row_with_table env hs r t =
     (case row_to_json_map env r of
        None \<Rightarrow> Inl JsonFailed
      | Some jm \<Rightarrow>
          (case pe_to_vec env hs jm of
             None \<Rightarrow> Inl JsonFailed
           | Some key_payload \<Rightarrow>
               (let jm1 = jm(''_table'' \<mapsto> CellText (table_id_display t))
                in case pe_to_vec env hs jm1 of
                     None \<Rightarrow> Inl JsonFailed
                   | Some full \<Rightarrow>
                       Inr \<lparr>pr_key_payload = key_payload, pr_json_map = jm1(''_table'' := None),
                            pr_full_payload = Some full, pr_partition_hash = pe_hash_key env key_payload\<rparr>)))"

definition extract_payload :: "publish_env \<Rightarrow> prepared_row \<Rightarrow> topic_route \<Rightarrow> table_id \<Rightarrow> topic_error + string" where
  "extract_payload env pr route t =
     (case rt_payload_mode route of
        KeyMode \<Rightarrow> Inr (pr_key_payload pr)
      | _ \<Rightarrow>
          (case pr_full_payload pr of
             Some full \<Rightarrow> Inr full
           | None \<Rightarrow>
               (case pe_inject_table env (pr_key_payload pr) (table_id_display t) of
                  None \<Rightarrow> Inl JsonFailed
                | Some full \<Rightarrow> Inr full)))"

fun key_columns :: "(string \<rightharpoonup> cell_value) \<Rightarrow> string list \<Rightarrow> topic_error + (string, cell_value) btree" where
  "key_columns jm [] = Inr []"
| "key_columns jm (c # cs) =
     (case jm c of
        None \<Rightarrow> Inl (KeyColumnMissing c)
      | Some v \<Rightarrow> map_sum id (bt_insert c v) (key_columns jm cs))"

definition extract_primary_key ::
    "publish_env \<Rightarrow> (string \<rightharpoonup> cell_value) \<Rightarrow> string list \<Rightarrow> topic_error + string option" where
  "extract_primary_key env jm cols =
     (case cols of
        [] \<Rightarrow> Inr None
      | [c] \<Rightarrow> (case jm c of None \<Rightarrow> Inl (KeyColumnMissing c) | Some v \<Rightarrow> Inr (Some (cell_text v)))
      | _ \<Rightarrow>
          (case key_columns jm cols of
             Inl e \<Rightarrow> Inl e
           | Inr key_map \<Rightarrow>
               (case pe_key_text env key_map of None \<Rightarrow> Inl JsonFailed | Some s \<Rightarrow> Inr (Some s))))"

definition extract_key :: "publish_env \<Rightarrow> prepared_row \<Rightarrow> string list \<Rightarrow> topic_error + string option" where
  "extract_key env pr cols = extract_primary_key env (pr_json_map pr) cols"

definition prepare_row ::
    "publish_env \<Rightarrow> nat \<Rightarrow> row \<Rightarrow> table_id \<Rightarrow> route_entry list \<Rightarrow> topic_error + prepared_row" where
  "prepare_row env hs r t matching =
     (if list_ex (\<lambda>e. rt_payload_mode (entry_route e) \<in> {FullMode, DiffMode}) matching
      then from_row_with_table env hs r t else from_row env hs r)"

section \<open>The service and its partitions\<close>

record topic_service =
  ts_message_store :: topic_message_store
  ts_offset_store :: offset_store
  ts_route_cache :: route_cache
  ts_partitions :: "topic_id \<times> nat \<rightharpoonup> partition_runtime"
  ts_group_claim_state :: "topic_id \<times> consumer_group_id \<times> nat \<rightharpoonup> claim_state"
  ts_visibility_timeout :: nat

text \<open>A service over stores that already exist: the constructor leaves the durable state alone.\<close>

definition service_new :: "topic_message_store \<Rightarrow> offset_store \<Rightarrow> nat \<Rightarrow> topic_service" where
  "service_new ms os timeout =
     \<lparr>ts_message_store = ms, ts_offset_store = os, ts_route_cache = route_cache_new,
      ts_partitions = Map.empty, ts_group_claim_state = Map.empty, ts_visibility_timeout = timeout\<rparr>"

definition primary_key_columns_for :: "publish_env \<Rightarrow> table_id \<Rightarrow> topic_error + string list" where
  "primary_key_columns_for env t = (case pe_primary_keys env of Some f \<Rightarrow> f t | None \<Rightarrow> Inr [])"

definition route_matches_row :: "publish_env \<Rightarrow> route_entry \<Rightarrow> row \<Rightarrow> bool" where
  "route_matches_row env e r =
     (case en_compiled_filter e of
        None \<Rightarrow> True
      | Some f \<Rightarrow>
          (case filter_matches (re_filter_env (pe_routing env)) f r of Inl _ \<Rightarrow> False | Inr b \<Rightarrow> b))"

text \<open>Looking up a partition creates its runtime on first use.\<close>

definition runtime_at :: "topic_service \<Rightarrow> topic_id \<Rightarrow> nat \<Rightarrow> partition_runtime" where
  "runtime_at s t p = (case ts_partitions s (t, p) of Some rt \<Rightarrow> rt | None \<Rightarrow> runtime_new)"

definition put_runtime :: "topic_id \<Rightarrow> nat \<Rightarrow> partition_runtime \<Rightarrow> topic_service \<Rightarrow> topic_service" where
  "put_runtime t p rt s = s\<lparr>ts_partitions := (ts_partitions s)((t, p) \<mapsto> rt)\<rparr>"

definition seed_next_offset :: "topic_id \<Rightarrow> nat \<Rightarrow> nat \<Rightarrow> topic_service \<Rightarrow> topic_service" where
  "seed_next_offset t p n s =
     (let rt = runtime_at s t p in put_runtime t p (rt\<lparr>pr_write := seed n (pr_write rt)\<rparr>) s)"

definition try_fetch_from_tail :: "topic_service \<Rightarrow> topic_id \<Rightarrow> nat \<Rightarrow> nat \<Rightarrow> nat \<Rightarrow> topic_message list option" where
  "try_fetch_from_tail s t p off limit =
     (case ts_partitions s (t, p) of None \<Rightarrow> None | Some rt \<Rightarrow> tail_fetch (pr_tail rt) off limit)"

section \<open>Publishing\<close>

text \<open>
  The section under the partition's write lock: assign offsets, store the messages with their
  retention entries, count the bytes, extend the tail. A failed store keeps the assigned offsets.
\<close>

definition publish_locked ::
    "publish_env \<Rightarrow> bool \<Rightarrow> topic_id \<Rightarrow> nat \<Rightarrow> string \<Rightarrow> string option \<Rightarrow> int \<Rightarrow> user_id option \<Rightarrow> topic_op
      \<Rightarrow> topic_service \<Rightarrow> (topic_error + nat) \<times> topic_service" where
  "publish_locked env ok t p payload key ts u op s =
     (let rt = runtime_at s t p;
          (off, w) = allocate 1 (pr_write rt);
          m = new_with_user t p off payload key ts u op
      in case put_message_with_retention_index (pe_message_bytes env) ok m (ts_message_store s) of
           (Inl _, ms) \<Rightarrow> (Inl StoreFailed, put_runtime t p (rt\<lparr>pr_write := w\<rparr>) (s\<lparr>ts_message_store := ms\<rparr>))
         | (Inr bytes, ms) \<Rightarrow>
             (Inr off, put_runtime t p (rt\<lparr>pr_write := add_retained_bytes bytes w, pr_tail := tail_append m (pr_tail rt)\<rparr>)
                         (s\<lparr>ts_message_store := ms\<rparr>)))"

text \<open>
  The outcome of the i-th store of a call and the clock at that moment are \<open>feed i\<close>.
\<close>

fun publish_loop ::
    "publish_env \<Rightarrow> (nat \<Rightarrow> bool \<times> int) \<Rightarrow> table_id \<Rightarrow> topic_op \<Rightarrow> row \<Rightarrow> user_id option \<Rightarrow> prepared_row \<Rightarrow> string option
      \<Rightarrow> route_entry list \<Rightarrow> nat \<Rightarrow> topic_service \<Rightarrow> (topic_error + nat) \<times> topic_service" where
  "publish_loop env feed tbl op r u pr key [] n s = (Inr n, s)"
| "publish_loop env feed tbl op r u pr key (e # es) n s =
     (if \<not> route_matches_row env e r then publish_loop env feed tbl op r u pr key es n s
      else
        (case extract_payload env pr (entry_route e) tbl of
           Inl err \<Rightarrow> (Inl err, s)
         | Inr payload \<Rightarrow>
             if entry_partitions e = 0 then (Inl DivisionByZero, s)
             else
               (let h = (case key of Some k \<Rightarrow> pe_hash_key env k | None \<Rightarrow> pr_partition_hash pr);
                    p = h mod entry_partitions e
                in case publish_locked env (fst (feed n)) (entry_topic_id e) p payload key (snd (feed n)) u op s of
                     (Inl err, s1) \<Rightarrow> (Inl err, s1)
                   | (Inr _, s1) \<Rightarrow> publish_loop env feed tbl op r u pr key es (Suc n) s1)))"

definition publish_message ::
    "publish_env \<Rightarrow> nat \<Rightarrow> (nat \<Rightarrow> bool \<times> int) \<Rightarrow> table_id \<Rightarrow> topic_op \<Rightarrow> row \<Rightarrow> user_id option
      \<Rightarrow> topic_service \<Rightarrow> (topic_error + nat) \<times> topic_service" where
  "publish_message env hs feed tbl op r u s =
     (let matching = get_matching_routes (ts_route_cache s) tbl op
      in if matching = [] then (Inr 0, s)
         else
           (case primary_key_columns_for env tbl of
              Inl err \<Rightarrow> (Inl err, s)
            | Inr cols \<Rightarrow>
                (case prepare_row env hs r tbl matching of
                   Inl err \<Rightarrow> (Inl err, s)
                 | Inr pr \<Rightarrow>
                     (case extract_key env pr cols of
                        Inl err \<Rightarrow> (Inl err, s)
                      | Inr key \<Rightarrow> publish_loop env feed tbl op r u pr key matching 0 s))))"

text \<open>
  The batch path: rows are prepared first; for every route the matching rows are grouped by
  partition, and each group is one locked section with one timestamp for the whole call.
\<close>

fun collect_results :: "(topic_error + 'a) list \<Rightarrow> topic_error + 'a list" where
  "collect_results [] = Inr []"
| "collect_results (x # xs) =
     (case x of Inl err \<Rightarrow> Inl err | Inr v \<Rightarrow> map_sum id (Cons v) (collect_results xs))"

record batch_row =
  br_row :: row
  br_prepared :: prepared_row
  br_key :: "string option"

definition batch_hash :: "publish_env \<Rightarrow> batch_row \<Rightarrow> nat" where
  "batch_hash env b =
     (case br_key b of Some k \<Rightarrow> pe_hash_key env k | None \<Rightarrow> pr_partition_hash (br_prepared b))"

definition push_group :: "nat \<Rightarrow> batch_row \<Rightarrow> (nat \<times> batch_row list) list \<Rightarrow> (nat \<times> batch_row list) list" where
  "push_group p b gs =
     (case map_of gs p of
        None \<Rightarrow> gs @ [(p, [b])]
      | Some _ \<Rightarrow> map (\<lambda>(q, bs). if q = p then (q, bs @ [b]) else (q, bs)) gs)"

definition partition_groups ::
    "publish_env \<Rightarrow> route_entry \<Rightarrow> batch_row list \<Rightarrow> topic_error + (nat \<times> batch_row list) list" where
  "partition_groups env e bs =
     (let hits = filter (\<lambda>b. route_matches_row env e (br_row b)) bs
      in if hits \<noteq> [] \<and> entry_partitions e = 0 then Inl DivisionByZero
         else Inr (fold (\<lambda>b. push_group (batch_hash env b mod entry_partitions e) b) hits []))"

definition group_messages ::
    "topic_id \<Rightarrow> nat \<Rightarrow> nat \<Rightarrow> int \<Rightarrow> user_id option \<Rightarrow> topic_op \<Rightarrow> (string \<times> string option) list \<Rightarrow> topic_message list" where
  "group_messages t p start ts u op items =
     map (\<lambda>(i, payload, key). new_with_user t p (start + i) payload key ts u op) (enumerate 0 items)"

definition publish_group_locked ::
    "publish_env \<Rightarrow> bool \<Rightarrow> topic_id \<Rightarrow> nat \<Rightarrow> (string \<times> string option) list \<Rightarrow> int \<Rightarrow> user_id option \<Rightarrow> topic_op
      \<Rightarrow> topic_service \<Rightarrow> (topic_error + nat) \<times> topic_service" where
  "publish_group_locked env ok t p items ts u op s =
     (let rt = runtime_at s t p;
          (start, w) = allocate (length items) (pr_write rt);
          ms = group_messages t p start ts u op items;
          raw = map (\<lambda>m. (entry_new_raw t p ts (tm_offset m) (pe_message_bytes env m), message_id m, m)) ms
      in case batch_put_raw_with_retention ok raw (ts_message_store s) of
           (Inl _, st) \<Rightarrow> (Inl StoreFailed, put_runtime t p (rt\<lparr>pr_write := w\<rparr>) (s\<lparr>ts_message_store := st\<rparr>))
         | (Inr bytes, st) \<Rightarrow>
             (Inr (length items),
              put_runtime t p (rt\<lparr>pr_write := add_retained_bytes bytes w, pr_tail := append_messages ms (pr_tail rt)\<rparr>)
                (s\<lparr>ts_message_store := st\<rparr>)))"

fun publish_groups ::
    "publish_env \<Rightarrow> (nat \<Rightarrow> bool) \<Rightarrow> table_id \<Rightarrow> topic_op \<Rightarrow> user_id option \<Rightarrow> int \<Rightarrow> route_entry
      \<Rightarrow> (nat \<times> batch_row list) list \<Rightarrow> nat \<Rightarrow> topic_service \<Rightarrow> (topic_error + nat) \<times> topic_service" where
  "publish_groups env oks tbl op u ts e [] n s = (Inr n, s)"
| "publish_groups env oks tbl op u ts e ((p, bs) # gs) n s =
     (case collect_results (map (\<lambda>b. map_sum id (\<lambda>pl. (pl, br_key b))
              (extract_payload env (br_prepared b) (entry_route e) tbl)) bs) of
        Inl err \<Rightarrow> (Inl err, s)
      | Inr items \<Rightarrow>
          (case publish_group_locked env (oks p) (entry_topic_id e) p items ts u op s of
             (Inl err, s1) \<Rightarrow> (Inl err, s1)
           | (Inr k, s1) \<Rightarrow> publish_groups env oks tbl op u ts e gs (n + k) s1))"

text \<open>The hash map of groups is visited in an arbitrary order, \<open>arrange\<close>.\<close>

fun publish_entries ::
    "publish_env \<Rightarrow> (nat \<Rightarrow> nat \<Rightarrow> bool) \<Rightarrow> ((nat \<times> batch_row list) list \<Rightarrow> (nat \<times> batch_row list) list)
      \<Rightarrow> table_id \<Rightarrow> topic_op \<Rightarrow> user_id option \<Rightarrow> int \<Rightarrow> batch_row list \<Rightarrow> route_entry list
      \<Rightarrow> nat \<Rightarrow> topic_service \<Rightarrow> (topic_error + nat) \<times> topic_service" where
  "publish_entries env oks arrange tbl op u ts bs [] n s = (Inr n, s)"
| "publish_entries env oks arrange tbl op u ts bs (e # es) n s =
     (case partition_groups env e bs of
        Inl err \<Rightarrow> (Inl err, s)
      | Inr gs \<Rightarrow>
          (case publish_groups env (oks n) tbl op u ts e (arrange gs) n s of
             (Inl err, s1) \<Rightarrow> (Inl err, s1)
           | (Inr n1, s1) \<Rightarrow> publish_entries env oks arrange tbl op u ts bs es n1 s1))"

definition publish_batch ::
    "publish_env \<Rightarrow> (nat \<Rightarrow> nat) \<Rightarrow> (nat \<Rightarrow> nat \<Rightarrow> bool) \<Rightarrow> ((nat \<times> batch_row list) list \<Rightarrow> (nat \<times> batch_row list) list)
      \<Rightarrow> int \<Rightarrow> table_id \<Rightarrow> topic_op \<Rightarrow> row list \<Rightarrow> user_id option
      \<Rightarrow> topic_service \<Rightarrow> (topic_error + nat) \<times> topic_service" where
  "publish_batch env hs oks arrange now tbl op rows u s =
     (if rows = [] then (Inr 0, s)
      else
        (let matching = get_matching_routes (ts_route_cache s) tbl op
         in if matching = [] then (Inr 0, s)
            else
              (case primary_key_columns_for env tbl of
                 Inl err \<Rightarrow> (Inl err, s)
               | Inr cols \<Rightarrow>
                   (case collect_results (map (\<lambda>(i, r). prepare_row env (hs i) r tbl matching) (enumerate 0 rows)) of
                      Inl err \<Rightarrow> (Inl err, s)
                    | Inr prs \<Rightarrow>
                        (case collect_results (map (\<lambda>pr. extract_key env pr cols) prs) of
                           Inl err \<Rightarrow> (Inl err, s)
                         | Inr keys \<Rightarrow>
                             publish_entries env oks arrange tbl op u now
                               (map2 (\<lambda>(r, pr) k. \<lparr>br_row = r, br_prepared = pr, br_key = k\<rparr>) (zip rows prs) keys)
                               matching 0 s)))))"

definition publish_typed ::
    "publish_env \<Rightarrow> bool \<Rightarrow> int \<Rightarrow> topic_id \<Rightarrow> string \<Rightarrow> user_id option
      \<Rightarrow> topic_service \<Rightarrow> (topic_error + nat) \<times> topic_service" where
  "publish_typed env ok now t payload u s =
     (if \<not> cache_topic_exists (ts_route_cache s) t then (Inl (TopicMissing t), s)
      else publish_locked env ok t 0 payload None now u TopicInsert s)"

section \<open>Reading\<close>

datatype read_point =
    ReadEarliest | ReadLatest | ReadMessages | ReadStart | ReadAcked | ReadWatermark
  | RecheckWatermark | RecheckAcked | RecheckStart

definition latest_offset :: "bool \<Rightarrow> topic_service \<Rightarrow> topic_id \<Rightarrow> nat \<Rightarrow> topic_error + nat option" where
  "latest_offset ok s t p =
     (case ts_partitions s (t, p) of
        Some rt \<Rightarrow>
          (case ws_next_offset (pr_write rt) of
             Some nxt \<Rightarrow> Inr (if nxt = 0 then None else Some (nxt - 1))
           | None \<Rightarrow> if ok then Inr (store_latest_offset (ts_message_store s) t p) else Inl ReadFailed)
      | None \<Rightarrow> if ok then Inr (store_latest_offset (ts_message_store s) t p) else Inl ReadFailed)"

definition earliest_available_offset :: "bool \<Rightarrow> topic_service \<Rightarrow> topic_id \<Rightarrow> nat \<Rightarrow> topic_error + nat" where
  "earliest_available_offset ok s t p =
     (if \<not> ok then Inl ReadFailed
      else
        (case store_earliest_offset (ts_message_store s) t p of
           Some off \<Rightarrow> Inr off
         | None \<Rightarrow> Inr (case ts_partitions s (t, p) of Some rt \<Rightarrow> ws_log_start (pr_write rt) | None \<Rightarrow> 0)))"

definition log_high_watermark :: "bool \<Rightarrow> topic_service \<Rightarrow> topic_id \<Rightarrow> nat \<Rightarrow> nat \<Rightarrow> topic_error + nat" where
  "log_high_watermark ok s t p earliest =
     (case latest_offset ok s t p of
        Inl err \<Rightarrow> Inl err
      | Inr None \<Rightarrow> Inr earliest
      | Inr (Some l) \<Rightarrow> Inr (sat_add l 1))"

definition load_messages :: "bool \<Rightarrow> topic_service \<Rightarrow> topic_id \<Rightarrow> nat \<Rightarrow> nat \<Rightarrow> nat \<Rightarrow> topic_error + topic_message list" where
  "load_messages ok s t p off limit =
     (case try_fetch_from_tail s t p off limit of
        Some ms \<Rightarrow> Inr ms
      | None \<Rightarrow> if ok then Inr (store_fetch_messages (ts_message_store s) t p off limit) else Inl ReadFailed)"

definition fetch_messages ::
    "(read_point \<Rightarrow> bool) \<Rightarrow> topic_service \<Rightarrow> topic_id \<Rightarrow> nat \<Rightarrow> nat \<Rightarrow> nat \<Rightarrow> topic_error + topic_message list" where
  "fetch_messages ok s t p off limit =
     (if limit = 0 then Inr []
      else
        (case try_fetch_from_tail s t p off limit of
           Some ms \<Rightarrow> Inr ms
         | None \<Rightarrow>
             (case earliest_available_offset (ok ReadEarliest) s t p of
                Inl err \<Rightarrow> Inl err
              | Inr earliest \<Rightarrow>
                  if off < earliest then
                    (case latest_offset (ok ReadLatest) s t p of
                       Inl err \<Rightarrow> Inl err
                     | Inr l \<Rightarrow> Inl (OffsetOutOfRange off earliest (case l of Some x \<Rightarrow> x + 1 | None \<Rightarrow> 0)))
                  else if ok ReadMessages then Inr (store_fetch_messages (ts_message_store s) t p off limit)
                  else Inl ReadFailed)))"

section \<open>The registry and the restore at startup\<close>

definition clear_topic_runtime_state :: "topic_id \<Rightarrow> topic_service \<Rightarrow> topic_service" where
  "clear_topic_runtime_state t s =
     s\<lparr>ts_partitions := (\<lambda>k. if fst k \<noteq> t then ts_partitions s k else None),
       ts_group_claim_state := (\<lambda>k. if fst k \<noteq> t then ts_group_claim_state s k else None)\<rparr>"

definition refresh_topics_cache :: "publish_env \<Rightarrow> topic list \<Rightarrow> topic_service \<Rightarrow> topic_service" where
  "refresh_topics_cache env ts s = s\<lparr>ts_route_cache := cache_refresh (pe_routing env) ts (ts_route_cache s)\<rparr>"

definition service_add_topic :: "publish_env \<Rightarrow> topic \<Rightarrow> topic_service \<Rightarrow> topic_service" where
  "service_add_topic env t s = s\<lparr>ts_route_cache := cache_add_topic (pe_routing env) t (ts_route_cache s)\<rparr>"

definition service_update_topic :: "publish_env \<Rightarrow> topic \<Rightarrow> topic_service \<Rightarrow> topic_service" where
  "service_update_topic env t s = s\<lparr>ts_route_cache := cache_update_topic (pe_routing env) t (ts_route_cache s)\<rparr>"

definition service_remove_topic :: "topic_id \<Rightarrow> topic_service \<Rightarrow> topic_service" where
  "service_remove_topic t s =
     (let s1 = clear_topic_runtime_state t s
      in s1\<lparr>ts_route_cache := cache_remove_topic t (ts_route_cache s1)\<rparr>)"

definition clear_cache :: "topic_service \<Rightarrow> topic_service" where
  "clear_cache s =
     s\<lparr>ts_route_cache := cache_clear (ts_route_cache s), ts_partitions := Map.empty, ts_group_claim_state := Map.empty\<rparr>"

definition clear_topic_data ::
    "bool \<Rightarrow> bool \<Rightarrow> topic_id \<Rightarrow> topic_service \<Rightarrow> (topic_error + nat \<times> nat) \<times> topic_service" where
  "clear_topic_data ok_offsets ok_messages t s =
     (if \<not> ok_offsets then (Inl StoreFailed, s)
      else
        (let (n_offsets, os) = delete_topic_offsets t (ts_offset_store s);
             s1 = s\<lparr>ts_offset_store := os\<rparr>
         in case delete_topic_messages ok_messages t (ts_message_store s1) of
              (Inl _, ms) \<Rightarrow> (Inl StoreFailed, s1\<lparr>ts_message_store := ms\<rparr>)
            | (Inr n_messages, ms) \<Rightarrow>
                (Inr (n_offsets, n_messages), clear_topic_runtime_state t (s1\<lparr>ts_message_store := ms\<rparr>))))"

text \<open>One partition of the restore; topics are visited in the arbitrary order of the cache.\<close>

definition restore_partition :: "(topic_id \<Rightarrow> nat \<Rightarrow> bool) \<Rightarrow> topic_id \<Rightarrow> nat \<Rightarrow> topic_service \<Rightarrow> topic_service" where
  "restore_partition oks t p s =
     (if \<not> oks t p then s
      else
        (case store_latest_offset (ts_message_store s) t p of
           Some l \<Rightarrow> seed_next_offset t p (l + 1) s
         | None \<Rightarrow> s))"

definition restore_offset_counters ::
    "(topic_id \<Rightarrow> nat \<Rightarrow> bool) \<Rightarrow> topic list \<Rightarrow> topic_service \<Rightarrow> topic_service" where
  "restore_offset_counters oks topics s =
     fold (\<lambda>t s. fold (restore_partition oks (tp_topic_id t)) [0..<tp_partitions t] s) topics s"

end
