(* ===== verification/TopicPublish.thy ===== *)
theory TopicPublish
  imports TopicService "HOL-Library.Multiset"
begin

text \<open>
  What publishing promises. The service invariant relates each partition's runtime to its durable
  log; every publishing operation keeps it and appends exactly the planned messages.
\<close>

section \<open>The service invariant\<close>

definition next_of :: "partition_write_state \<Rightarrow> nat" where
  "next_of w = (case ws_next_offset w of None \<Rightarrow> 0 | Some n \<Rightarrow> n)"

text \<open>
  A partition runtime agrees with the durable log: the tail mirrors it, every stored offset lies
  between the log start and the next offset, and the byte counter never exceeds what is stored.
\<close>

definition partition_ok :: "(topic_message \<Rightarrow> nat) \<Rightarrow> topic_message list \<Rightarrow> partition_runtime \<Rightarrow> bool" where
  "partition_ok msize log rt =
     (tail_mirrors log (pr_tail rt) \<and>
      (\<forall>m\<in>set log. ws_log_start (pr_write rt) \<le> tm_offset m \<and> tm_offset m < next_of (pr_write rt)) \<and>
      ws_log_start (pr_write rt) \<le> next_of (pr_write rt) \<and> next_of (pr_write rt) \<le> u64_max \<and>
      (\<forall>b. ws_retained_bytes (pr_write rt) = Some b \<longrightarrow> b \<le> sum_list (map msize log)))"

abbreviation service_log :: "topic_service \<Rightarrow> topic_id \<Rightarrow> nat \<Rightarrow> topic_message list" where
  "service_log s t p \<equiv> partition_log (ts_message_store s) t p"

abbreviation service_next :: "topic_service \<Rightarrow> topic_id \<Rightarrow> nat \<Rightarrow> nat" where
  "service_next s t p \<equiv> next_of (pr_write (runtime_at s t p))"

definition service_ok :: "publish_env \<Rightarrow> topic_service \<Rightarrow> bool" where
  "service_ok env s =
     (store_wf (pe_message_bytes env) (ts_message_store s) \<and>
      (\<forall>t p. partition_ok (pe_message_bytes env) (service_log s t p) (runtime_at s t p)))"

lemma service_okD:
  assumes "service_ok env s"
  shows "store_wf (pe_message_bytes env) (ts_message_store s)"
    and "partition_ok (pe_message_bytes env) (service_log s t p) (runtime_at s t p)"
    and "tail_mirrors (service_log s t p) (pr_tail (runtime_at s t p))"
    and "m \<in> set (service_log s t p) \<Longrightarrow> tm_offset m < service_next s t p"
  using assms by (auto simp: service_ok_def partition_ok_def)

lemma runtime_at_put [simp]:
  "runtime_at (put_runtime t p rt s) t' p' = (if t' = t \<and> p' = p then rt else runtime_at s t' p')"
  by (simp add: runtime_at_def put_runtime_def)

lemma put_runtime_sel [simp]:
  "ts_message_store (put_runtime t p rt s) = ts_message_store s"
  "ts_offset_store (put_runtime t p rt s) = ts_offset_store s"
  "ts_route_cache (put_runtime t p rt s) = ts_route_cache s"
  "ts_group_claim_state (put_runtime t p rt s) = ts_group_claim_state s"
  by (simp_all add: put_runtime_def)

lemma runtime_at_store [simp]: "runtime_at (s\<lparr>ts_message_store := ms\<rparr>) t p = runtime_at s t p"
  by (simp add: runtime_at_def)

lemma allocate_sel [simp]:
  "fst (allocate k w) = next_of w"
  "next_of (snd (allocate k w)) = sat_add (next_of w) k"
  "ws_retained_bytes (snd (allocate k w)) = ws_retained_bytes w"
  "ws_log_start (snd (allocate k w)) = ws_log_start w"
  by (simp_all add: allocate_def next_of_def Let_def split: option.splits)

lemma add_retained_bytes_sel [simp]:
  "next_of (add_retained_bytes b w) = next_of w"
  "ws_log_start (add_retained_bytes b w) = ws_log_start w"
  by (simp_all add: add_retained_bytes_def next_of_def)

lemma tail_mirrors_append_all:
  assumes "tail_mirrors log t" "offsets_ascend (log @ ms)" "\<forall>m\<in>set ms. tail_fits m"
  shows "tail_mirrors (log @ ms) (append_messages ms t)"
  using assms
proof (induction ms arbitrary: log t)
  case (Cons m ms)
  have "\<forall>x\<in>set log. tm_offset x < tm_offset m"
    using Cons.prems(2) by (simp add: offsets_ascend_def sorted_wrt_append)
  then have "tail_mirrors (log @ [m]) (tail_append m t)"
    using Cons.prems by (intro tail_mirrors_append) simp_all
  moreover have "offsets_ascend ((log @ [m]) @ ms)" "\<forall>x\<in>set ms. tail_fits x"
    using Cons.prems by simp_all
  ultimately have "tail_mirrors ((log @ [m]) @ ms) (append_messages ms (tail_append m t))"
    by (rule Cons.IH)
  then show ?case by (simp add: append_messages_def)
qed (simp add: append_messages_def)

lemma partition_ok_append:
  assumes ok: "partition_ok msize log rt" and offs: "map tm_offset ms = [next_of (pr_write rt)..<next_of (pr_write rt) + k]"
    and room: "next_of (pr_write rt) + k \<le> u64_max" and fits: "\<forall>m\<in>set ms. tail_fits m"
  shows "partition_ok msize (log @ ms)
    (rt\<lparr>pr_write := add_retained_bytes (sum_list (map msize ms)) (snd (allocate k (pr_write rt))),
        pr_tail := append_messages ms (pr_tail rt)\<rparr>)"
proof -
  let ?n = "next_of (pr_write rt)"
  have range: "\<forall>m\<in>set ms. ?n \<le> tm_offset m \<and> tm_offset m < ?n + k"
    using offs by (metis atLeastLessThan_iff image_eqI set_map set_upt)
  have old: "\<forall>m\<in>set log. ws_log_start (pr_write rt) \<le> tm_offset m \<and> tm_offset m < ?n"
    and start: "ws_log_start (pr_write rt) \<le> ?n" and mir: "tail_mirrors log (pr_tail rt)"
    and bytes: "\<And>b. ws_retained_bytes (pr_write rt) = Some b \<Longrightarrow> b \<le> sum_list (map msize log)"
    using ok by (auto simp: partition_ok_def)
  have "offsets_ascend (log @ ms)"
    using mir old range offs by (fastforce simp: tail_mirrors_def offsets_ascend_def sorted_wrt_append)
  then have "tail_mirrors (log @ ms) (append_messages ms (pr_tail rt))"
    using mir fits by (intro tail_mirrors_append_all)
  moreover have "\<forall>m\<in>set (log @ ms). ws_log_start (pr_write rt) \<le> tm_offset m \<and> tm_offset m < ?n + k"
    using old range start by fastforce
  moreover have "b \<le> sum_list (map msize (log @ ms))"
    if "ws_retained_bytes (add_retained_bytes (sum_list (map msize ms)) (snd (allocate k (pr_write rt)))) = Some b" for b
  proof -
    have "b \<le> (case ws_retained_bytes (pr_write rt) of None \<Rightarrow> 0 | Some r \<Rightarrow> r) + sum_list (map msize ms)"
      using that by (auto simp: add_retained_bytes_def sat_add_def split: if_splits)
    also have "\<dots> \<le> sum_list (map msize log) + sum_list (map msize ms)"
      using bytes by (auto split: option.splits)
    finally show ?thesis by simp
  qed
  ultimately show ?thesis
    using room start by (simp add: partition_ok_def sat_add_exact)
qed

lemma store_put_next:
  assumes wf: "store_wf msize st" and m: "tm_topic_id m = t" "tm_partition_id m = p"
    and new: "\<forall>x\<in>set (partition_log st t p). tm_offset x < tm_offset m"
  shows "store_wf msize (store_put msize m st)"
    and "partition_log (store_put msize m st) t' p' =
      (if t' = t \<and> p' = p then partition_log st t p @ [m] else partition_log st t' p')"
proof -
  have "bt_get (ms_messages st) (message_id m) = None"
  proof (rule ccontr)
    assume "bt_get (ms_messages st) (message_id m) \<noteq> None"
    then obtain x where x: "bt_get (ms_messages st) (message_id m) = Some x" by blast
    then have id: "message_id m = message_id x" using store_wf_id [OF wf] by blast
    have parts: "tm_topic_id x = t" "tm_partition_id x = p" "tm_offset x = tm_offset m"
      using id m unfolding message_id_def by (metis prod.inject)+
    have "bt_get (ms_messages st) (message_id x) = Some x" using x id by metis
    then have "x \<in> set (partition_log st t p)"
      using partition_log_messages [OF wf, of x t p] parts(1,2) by blast
    with new parts(3) show False by (metis less_irrefl)
  qed
  then show "store_wf msize (store_put msize m st)"
    by (rule store_wf_put [OF wf])
  show "partition_log (store_put msize m st) t' p' =
      (if t' = t \<and> p' = p then partition_log st t p @ [m] else partition_log st t' p')"
    using partition_log_put [OF wf, of m t' p'] new unfolding m by (metis (no_types))
qed

lemma fold_store_put:
  assumes "store_wf msize st" "\<forall>m\<in>set ms. tm_topic_id m = t \<and> tm_partition_id m = p"
    and "offsets_ascend (partition_log st t p @ ms)"
  shows "store_wf msize (fold (store_put msize) ms st) \<and>
    (\<forall>t' p'. partition_log (fold (store_put msize) ms st) t' p' =
      (if t' = t \<and> p' = p then partition_log st t p @ ms else partition_log st t' p'))"
  using assms
proof (induction ms arbitrary: st)
  case (Cons m ms)
  have m: "tm_topic_id m = t" "tm_partition_id m = p" and ms: "\<forall>x\<in>set ms. tm_topic_id x = t \<and> tm_partition_id x = p"
    using Cons.prems(2) by simp_all
  have new: "\<forall>x\<in>set (partition_log st t p). tm_offset x < tm_offset m"
    using Cons.prems(3) by (simp add: offsets_ascend_def sorted_wrt_append)
  note put = store_put_next [OF Cons.prems(1) m new]
  have log: "partition_log (store_put msize m st) t p = partition_log st t p @ [m]"
    using put(2) [of t p] by simp
  have "offsets_ascend (partition_log (store_put msize m st) t p @ ms)"
    unfolding log using Cons.prems(3) by simp
  note IH = Cons.IH [OF put(1) ms this]
  show ?case
    unfolding fold_simps comp_apply
    using IH by (auto simp: put(2))
qed simp

section \<open>One locked section\<close>

definition content :: "topic_message \<Rightarrow> string \<times> string option \<times> user_id option \<times> topic_op" where
  "content m = (tm_payload m, tm_key m, tm_user_id m, tm_op m)"

definition payload_fits :: "string \<Rightarrow> bool" where
  "payload_fits payload = (length payload + tail_max_bytes \<le> u64_max)"

lemma group_messages_Cons:
  "group_messages t p n ts u op ((payload, key) # items) =
     new_with_user t p n payload key ts u op # group_messages t p (Suc n) ts u op items"
proof -
  have "map (\<lambda>(i, payload, key). new_with_user t p (n + i) payload key ts u op) (enumerate (Suc j) items) =
      map (\<lambda>(i, payload, key). new_with_user t p (Suc n + i) payload key ts u op) (enumerate j items)" for j
    by (induction items arbitrary: j) auto
  then show ?thesis
    by (simp add: group_messages_def)
qed

lemma group_messages_Nil [simp]: "group_messages t p n ts u op [] = []"
  by (simp add: group_messages_def)

lemma group_messages_offsets: "map tm_offset (group_messages t p n ts u op items) = [n..<n + length items]"
proof (induction items arbitrary: n)
  case (Cons x items)
  have "[n..<n + length (x # items)] = n # [Suc n..<Suc n + length items]"
    by (simp add: upt_conv_Cons del: upt_Suc)
  with Cons show ?case by (cases x) (simp add: group_messages_Cons del: upt_Suc)
qed simp

lemma group_messages_content:
  "map content (group_messages t p n ts u op items) = map (\<lambda>(payload, key). (payload, key, u, op)) items"
  by (induction items arbitrary: n) (auto simp: group_messages_Cons content_def new_with_user_def)

lemma group_messages_origin:
  "m \<in> set (group_messages t p n ts u op items) \<Longrightarrow>
     tm_topic_id m = t \<and> tm_partition_id m = p \<and> tm_timestamp_ms m = ts \<and> tm_payload m \<in> fst ` set items"
proof (induction items arbitrary: n)
  case (Cons x items)
  show ?case
  proof (cases "m = new_with_user t p n (fst x) (snd x) ts u op")
    case False
    then have "m \<in> set (group_messages t p (Suc n) ts u op items)"
      using Cons.prems by (cases x) (simp add: group_messages_Cons)
    then show ?thesis using Cons.IH by fastforce
  qed simp
qed simp

lemma group_messages_length [simp]: "length (group_messages t p n ts u op items) = length items"
  by (simp add: group_messages_def)

lemmas group_messages_sel = group_messages_offsets group_messages_content group_messages_origin

text \<open>The state after a locked section that stored its messages, and after one that did not.\<close>

definition appended ::
    "publish_env \<Rightarrow> topic_id \<Rightarrow> nat \<Rightarrow> topic_message list \<Rightarrow> topic_service \<Rightarrow> topic_service" where
  "appended env t p ms s =
     (let rt = runtime_at s t p
      in put_runtime t p
           (rt\<lparr>pr_write := add_retained_bytes (sum_list (map (pe_message_bytes env) ms)) (snd (allocate (length ms) (pr_write rt))),
               pr_tail := append_messages ms (pr_tail rt)\<rparr>)
           (s\<lparr>ts_message_store := fold (store_put (pe_message_bytes env)) ms (ts_message_store s)\<rparr>))"

definition skipped :: "topic_id \<Rightarrow> nat \<Rightarrow> nat \<Rightarrow> topic_service \<Rightarrow> topic_service" where
  "skipped t p k s =
     (let rt = runtime_at s t p in put_runtime t p (rt\<lparr>pr_write := snd (allocate k (pr_write rt))\<rparr>) s)"

lemma raw_entries_eq:
  assumes "\<forall>m\<in>set ms. tm_topic_id m = t \<and> tm_partition_id m = p \<and> tm_timestamp_ms m = ts"
  shows "map (\<lambda>m. (entry_new_raw t p ts (tm_offset m) (msize m), message_id m, m)) ms = map (raw_of msize) ms"
proof (rule map_cong [OF refl])
  fix m assume "m \<in> set ms"
  then have m: "tm_topic_id m = t" "tm_partition_id m = p" "tm_timestamp_ms m = ts"
    using assms by blast+
  show "(entry_new_raw t p ts (tm_offset m) (msize m), message_id m, m) = raw_of msize m"
    using store_ids(4) [of m "msize m"] unfolding m by (simp add: raw_of_def)
qed

lemma publish_group_eq:
  "publish_group_locked env ok t p items ts u op s =
     (if ok then (Inr (length items), appended env t p (group_messages t p (service_next s t p) ts u op items) s)
      else (Inl StoreFailed, skipped t p (length items) s))"
proof -
  let ?ms = "group_messages t p (service_next s t p) ts u op items"
  have "\<forall>m\<in>set ?ms. tm_topic_id m = t \<and> tm_partition_id m = p \<and> tm_timestamp_ms m = ts"
    using group_messages_sel(3) by blast
  note raw = raw_entries_eq [OF this, of "pe_message_bytes env"]
  have "allocate (length items) (pr_write (runtime_at s t p)) =
      (service_next s t p, snd (allocate (length items) (pr_write (runtime_at s t p))))"
    by (simp add: prod_eq_iff)
  then show ?thesis
    by (auto simp: publish_group_locked_def Let_def raw batch_put_eq appended_def skipped_def split: prod.splits)
qed

lemma publish_locked_eq:
  "publish_locked env ok t p payload key ts u op s =
     (if ok then (Inr (service_next s t p),
        appended env t p (group_messages t p (service_next s t p) ts u op [(payload, key)]) s)
      else (Inl StoreFailed, skipped t p 1 s))"
proof -
  have ms: "group_messages t p n ts u op [(payload, key)] = [new_with_user t p n payload key ts u op]" for n
    by (simp add: group_messages_Cons)
  have "allocate 1 (pr_write (runtime_at s t p)) =
      (service_next s t p, snd (allocate 1 (pr_write (runtime_at s t p))))"
    by (simp add: prod_eq_iff)
  then show ?thesis
    by (auto simp: publish_locked_def Let_def put_message_eq appended_def skipped_def ms append_messages_def split: prod.splits)
qed

lemma appended_sel [simp]:
  "ts_route_cache (appended env t p ms s) = ts_route_cache s"
  "ts_offset_store (appended env t p ms s) = ts_offset_store s"
  "ts_group_claim_state (appended env t p ms s) = ts_group_claim_state s"
  "ts_route_cache (skipped t p k s) = ts_route_cache s"
  "ts_offset_store (skipped t p k s) = ts_offset_store s"
  "ts_group_claim_state (skipped t p k s) = ts_group_claim_state s"
  "ts_message_store (skipped t p k s) = ts_message_store s"
  by (simp_all add: appended_def skipped_def Let_def)

lemma appended_ok:
  assumes ok: "service_ok env s"
    and offs: "map tm_offset ms = [service_next s t p..<service_next s t p + length ms]"
    and here: "\<forall>m\<in>set ms. tm_topic_id m = t \<and> tm_partition_id m = p \<and> payload_fits (tm_payload m)"
    and room: "service_next s t p + length ms \<le> u64_max"
  shows "service_ok env (appended env t p ms s)"
    and "service_log (appended env t p ms s) t' p' =
      (if t' = t \<and> p' = p then service_log s t p @ ms else service_log s t' p')"
    and "service_next (appended env t p ms s) t' p' =
      (if t' = t \<and> p' = p then service_next s t p + length ms else service_next s t' p')"
proof -
  let ?st = "fold (store_put (pe_message_bytes env)) ms (ts_message_store s)"
  have range: "\<forall>m\<in>set ms. service_next s t p \<le> tm_offset m \<and> tm_offset m < service_next s t p + length ms"
    using offs by (metis atLeastLessThan_iff image_eqI set_map set_upt)
  have fits: "\<forall>m\<in>set ms. tail_fits m"
    using range room here by (fastforce simp: tail_fits_def payload_fits_def)
  have "sorted_wrt (<) (map tm_offset ms)" unfolding offs by simp
  moreover have "sorted_wrt (<) (map tm_offset (service_log s t p))"
    using service_okD(3) [OF ok] by (simp add: tail_mirrors_def offsets_ascend_def)
  moreover have "\<forall>x\<in>set (service_log s t p). \<forall>m\<in>set ms. tm_offset x < tm_offset m"
    using range service_okD(4) [OF ok] by (meson order_less_le_trans)
  ultimately have "offsets_ascend (service_log s t p @ ms)"
    by (simp add: offsets_ascend_def sorted_wrt_append)
  with here have fold: "store_wf (pe_message_bytes env) ?st \<and> (\<forall>t' p'. partition_log ?st t' p' =
      (if t' = t \<and> p' = p then service_log s t p @ ms else service_log s t' p'))"
    by (intro fold_store_put service_okD(1) [OF ok]) simp_all
  have store: "ts_message_store (appended env t p ms s) = ?st"
    by (simp add: appended_def Let_def)
  show log: "service_log (appended env t p ms s) t' p' =
      (if t' = t \<and> p' = p then service_log s t p @ ms else service_log s t' p')" for t' p'
    using fold unfolding store by blast
  have rt: "runtime_at (appended env t p ms s) t' p' =
      (if t' = t \<and> p' = p
       then (runtime_at s t p)\<lparr>pr_write := add_retained_bytes (sum_list (map (pe_message_bytes env) ms))
              (snd (allocate (length ms) (pr_write (runtime_at s t p)))),
              pr_tail := append_messages ms (pr_tail (runtime_at s t p))\<rparr>
       else runtime_at s t' p')" for t' p'
    by (simp add: appended_def Let_def)
  show "service_next (appended env t p ms s) t' p' =
      (if t' = t \<and> p' = p then service_next s t p + length ms else service_next s t' p')"
    using room by (simp add: rt sat_add_exact)
  show "service_ok env (appended env t p ms s)"
    unfolding service_ok_def
  proof (intro conjI allI)
    show "store_wf (pe_message_bytes env) (ts_message_store (appended env t p ms s))"
      using fold by (simp add: store)
    fix t' p'
    show "partition_ok (pe_message_bytes env) (service_log (appended env t p ms s) t' p') (runtime_at (appended env t p ms s) t' p')"
      using partition_ok_append [OF service_okD(2) [OF ok] offs room fits] service_okD(2) [OF ok, of t' p']
      by (simp add: log rt)
  qed
qed

lemma skipped_ok:
  assumes ok: "service_ok env s" and room: "service_next s t p + k \<le> u64_max"
  shows "service_ok env (skipped t p k s)"
    and "service_next (skipped t p k s) t' p' =
      (if t' = t \<and> p' = p then service_next s t p + k else service_next s t' p')"
proof -
  have "partition_ok (pe_message_bytes env) (service_log s t p)
      ((runtime_at s t p)\<lparr>pr_write := snd (allocate k (pr_write (runtime_at s t p)))\<rparr>)"
    using service_okD(2) [OF ok, of t p] room by (auto simp: partition_ok_def sat_add_exact)
  then show "service_ok env (skipped t p k s)"
    using ok by (simp add: service_ok_def skipped_def Let_def)
  show "service_next (skipped t p k s) t' p' =
      (if t' = t \<and> p' = p then service_next s t p + k else service_next s t' p')"
    using room by (simp add: skipped_def Let_def sat_add_exact)
qed

section \<open>Plans\<close>

text \<open>
  A plan lists what a call is going to publish: the partition and the content of each message, in
  order. \<open>received\<close> says that every partition's log was extended by the given contents, with
  consecutive offsets from the next one.
\<close>

type_synonym publish_plan =
  "((topic_id \<times> nat) \<times> string \<times> string option \<times> user_id option \<times> topic_op) list"

definition plan_at :: "publish_plan \<Rightarrow> topic_id \<Rightarrow> nat \<Rightarrow> (string \<times> string option \<times> user_id option \<times> topic_op) list" where
  "plan_at plan t p = map snd (filter (\<lambda>x. fst x = (t, p)) plan)"

definition received ::
    "topic_service \<Rightarrow> topic_service \<Rightarrow> (topic_id \<Rightarrow> nat \<Rightarrow> (string \<times> string option \<times> user_id option \<times> topic_op) list) \<Rightarrow> bool" where
  "received s s' new =
     (\<forall>t p. \<exists>ms. service_log s' t p = service_log s t p @ ms \<and> map content ms = new t p \<and>
        map tm_offset ms = [service_next s t p..<service_next s t p + length ms])"

definition advanced ::
    "topic_service \<Rightarrow> topic_service \<Rightarrow> (topic_id \<Rightarrow> nat \<Rightarrow> (string \<times> string option \<times> user_id option \<times> topic_op) list) \<Rightarrow> bool" where
  "advanced s s' new =
     (received s s' new \<and> (\<forall>t p. service_next s' t p = service_next s t p + length (new t p)))"

lemma plan_at_simps [simp]:
  "plan_at [] t p = []"
  "plan_at (x # plan) t p = (if fst x = (t, p) then snd x # plan_at plan t p else plan_at plan t p)"
  "plan_at (plan @ plan') t p = plan_at plan t p @ plan_at plan' t p"
  by (simp_all add: plan_at_def)

lemma length_plan_at: "length (plan_at plan t p) \<le> length plan"
  by (simp add: plan_at_def)

lemma plan_at_take: "\<exists>rest. plan_at plan t p = plan_at (take k plan) t p @ rest"
  by (metis append_take_drop_id plan_at_simps(3))

lemma received_refl [simp]: "received s s (\<lambda>t p. [])"
  by (simp add: received_def)

lemma advanced_refl [simp]: "advanced s s (\<lambda>t p. [])"
  by (simp add: advanced_def)

lemma received_trans:
  assumes "advanced s s1 f" "received s1 s2 g"
  shows "received s s2 (\<lambda>t p. f t p @ g t p)"
  unfolding received_def
proof (intro allI)
  fix t p
  obtain ms where ms: "service_log s1 t p = service_log s t p @ ms" "map content ms = f t p"
    "map tm_offset ms = [service_next s t p..<service_next s t p + length ms]"
    "service_next s1 t p = service_next s t p + length (f t p)"
    using assms(1) unfolding advanced_def received_def by blast
  obtain ms' where ms': "service_log s2 t p = service_log s1 t p @ ms'" "map content ms' = g t p"
    "map tm_offset ms' = [service_next s1 t p..<service_next s1 t p + length ms']"
    using assms(2) unfolding received_def by blast
  have len: "length (f t p) = length ms" using ms(2) by (metis length_map)
  have "map tm_offset (ms @ ms') = [service_next s t p..<service_next s t p + length (ms @ ms')]"
    using ms(3,4) ms'(3) upt_add_eq_append [of "service_next s t p" "service_next s t p + length ms" "length ms'"]
    unfolding len by (simp add: add.assoc)
  then show "\<exists>ms. service_log s2 t p = service_log s t p @ ms \<and> map content ms = f t p @ g t p \<and>
        map tm_offset ms = [service_next s t p..<service_next s t p + length ms]"
    using ms(1,2) ms'(1,2) by (intro exI [of _ "ms @ ms'"]) simp
qed

lemma advanced_trans:
  assumes "advanced s s1 f" "advanced s1 s2 g"
  shows "advanced s s2 (\<lambda>t p. f t p @ g t p)"
  using assms received_trans [of s s1 f s2 g] by (simp add: advanced_def)

lemma received_same_log: "(\<And>t p. service_log s' t p = service_log s t p) \<Longrightarrow> received s s' (\<lambda>t p. [])"
  by (simp add: received_def)

text \<open>The two outcomes of a locked section, in these terms.\<close>

lemma group_appended:
  assumes ok: "service_ok env s" and fits: "\<forall>x\<in>set items. payload_fits (fst x)"
    and room: "service_next s t p + length items \<le> u64_max"
    and s': "s' = appended env t p (group_messages t p (service_next s t p) ts u op items) s"
  shows "service_ok env s'"
    and "advanced s s' (\<lambda>t' p'. if t' = t \<and> p' = p then map (\<lambda>(payload, key). (payload, key, u, op)) items else [])"
proof -
  let ?ms = "group_messages t p (service_next s t p) ts u op items"
  have offs: "map tm_offset ?ms = [service_next s t p..<service_next s t p + length ?ms]"
    by (simp only: group_messages_offsets group_messages_length)
  have here: "\<forall>m\<in>set ?ms. tm_topic_id m = t \<and> tm_partition_id m = p \<and> payload_fits (tm_payload m)"
    using fits group_messages_origin by fastforce
  have room': "service_next s t p + length ?ms \<le> u64_max"
    using room by simp
  note app = appended_ok [OF ok offs here room', folded s']
  show "service_ok env s'" by (rule app(1))
  show "advanced s s' (\<lambda>t' p'. if t' = t \<and> p' = p then map (\<lambda>(payload, key). (payload, key, u, op)) items else [])"
    unfolding advanced_def received_def
    by (simp add: app(2,3) group_messages_content offs del: map_eq_conv)
qed

lemma group_skipped:
  assumes "service_ok env s" "service_next s t p + k \<le> u64_max"
  shows "service_ok env (skipped t p k s)" and "received s (skipped t p k s) (\<lambda>t p. [])"
  using skipped_ok(1) [OF assms] by (simp_all add: received_same_log)

section \<open>Publishing one row\<close>

text \<open>Assumed of the serialiser: a payload leaves room for the byte count of the tail.\<close>

definition env_fits :: "publish_env \<Rightarrow> bool" where
  "env_fits env =
     ((\<forall>hs jm s. pe_to_vec env hs jm = Some s \<longrightarrow> payload_fits s) \<and>
      (\<forall>x y s. pe_inject_table env x y = Some s \<longrightarrow> payload_fits s))"

definition prepared_fits :: "prepared_row \<Rightarrow> bool" where
  "prepared_fits pr = (payload_fits (pr_key_payload pr) \<and> (\<forall>s. pr_full_payload pr = Some s \<longrightarrow> payload_fits s))"

definition row_payload :: "prepared_row \<Rightarrow> topic_route \<Rightarrow> string" where
  "row_payload pr route =
     (case rt_payload_mode route of KeyMode \<Rightarrow> pr_key_payload pr | _ \<Rightarrow> the (pr_full_payload pr))"

definition prepared_for :: "route_entry list \<Rightarrow> prepared_row \<Rightarrow> bool" where
  "prepared_for es pr =
     (\<forall>e\<in>set es. rt_payload_mode (entry_route e) \<in> {FullMode, DiffMode} \<longrightarrow> pr_full_payload pr \<noteq> None)"

lemma prepare_row_fits:
  assumes "env_fits env" "prepare_row env hs r tbl matching = Inr pr"
  shows "prepared_fits pr" "prepared_for matching pr"
  using assms
  by (auto simp: prepare_row_def from_row_def from_row_with_table_def env_fits_def prepared_fits_def prepared_for_def
      list_ex_iff Let_def split: option.splits if_splits)

text \<open>The fallback that parses the payload back is never taken.\<close>

lemma extract_payload_prepared:
  assumes "prepared_for es pr" "e \<in> set es"
  shows "extract_payload env pr (entry_route e) tbl = Inr (row_payload pr (entry_route e))"
  using assms by (cases "rt_payload_mode (entry_route e)") (auto simp: extract_payload_def row_payload_def prepared_for_def)

lemma row_payload_fits:
  assumes "prepared_fits pr" "prepared_for es pr" "e \<in> set es"
  shows "payload_fits (row_payload pr (entry_route e))"
  using assms by (cases "rt_payload_mode (entry_route e)") (auto simp: row_payload_def prepared_fits_def prepared_for_def)

definition row_hash :: "publish_env \<Rightarrow> prepared_row \<Rightarrow> string option \<Rightarrow> nat" where
  "row_hash env pr key = (case key of Some k \<Rightarrow> pe_hash_key env k | None \<Rightarrow> pr_partition_hash pr)"

definition plan_item ::
    "publish_env \<Rightarrow> topic_op \<Rightarrow> user_id option \<Rightarrow> prepared_row \<Rightarrow> string option \<Rightarrow> route_entry
      \<Rightarrow> (topic_id \<times> nat) \<times> string \<times> string option \<times> user_id option \<times> topic_op" where
  "plan_item env op u pr key e =
     ((entry_topic_id e, row_hash env pr key mod entry_partitions e), row_payload pr (entry_route e), key, u, op)"

definition row_plan ::
    "publish_env \<Rightarrow> topic_op \<Rightarrow> row \<Rightarrow> user_id option \<Rightarrow> prepared_row \<Rightarrow> string option \<Rightarrow> route_entry list \<Rightarrow> publish_plan" where
  "row_plan env op r u pr key es = map (plan_item env op u pr key) (filter (\<lambda>e. route_matches_row env e r) es)"

text \<open>
  After a loop over routes: the invariant holds, a prefix of the plan was published, all of it on
  success, and otherwise up to the entry whose store failed.
\<close>

definition loop_post ::
    "publish_env \<Rightarrow> (nat \<Rightarrow> bool \<times> int) \<Rightarrow> nat \<Rightarrow> publish_plan \<Rightarrow> topic_service \<Rightarrow> topic_error + nat \<Rightarrow> topic_service \<Rightarrow> bool" where
  "loop_post env feed n plan s res s' =
     (service_ok env s' \<and> ts_route_cache s' = ts_route_cache s \<and>
      (\<exists>k \<le> length plan. received s s' (plan_at (take k plan)) \<and>
        (case res of
           Inr x \<Rightarrow> k = length plan \<and> x = n + k \<and> advanced s s' (plan_at plan)
         | Inl err \<Rightarrow> err = StoreFailed \<and> k < length plan \<and> \<not> fst (feed (n + k)))))"

lemma plan_at_empty: "plan_at [] = (\<lambda>t p. [])"
  by (simp add: fun_eq_iff)

lemma loop_post_done: "service_ok env s \<Longrightarrow> loop_post env feed n [] s (Inr n) s"
  by (simp add: loop_post_def plan_at_empty)

lemma loop_post_fail:
  assumes "service_ok env s" "service_next s t p + 1 \<le> u64_max" "\<not> fst (feed n)"
  shows "loop_post env feed n (x # plan) s (Inl StoreFailed) (skipped t p 1 s)"
  using group_skipped [OF assms(1,2)] assms(3) unfolding loop_post_def
  by (intro conjI exI [of _ 0]) (simp_all add: plan_at_empty)

lemma loop_post_step:
  assumes adv: "advanced s s1 (plan_at [x])" and same: "ts_route_cache s1 = ts_route_cache s"
    and post: "loop_post env feed (Suc n) plan s1 res s'"
  shows "loop_post env feed n (x # plan) s res s'"
proof -
  from post obtain k where IH: "service_ok env s'" "ts_route_cache s' = ts_route_cache s1" "k \<le> length plan"
    "received s1 s' (plan_at (take k plan))"
    "case res of Inr y \<Rightarrow> k = length plan \<and> y = Suc n + k \<and> advanced s1 s' (plan_at plan)
     | Inl err \<Rightarrow> err = StoreFailed \<and> k < length plan \<and> \<not> fst (feed (Suc n + k))"
    unfolding loop_post_def by blast
  have join: "(\<lambda>t p. plan_at [x] t p @ plan_at l t p) = plan_at (x # l)" for l
    by (simp add: fun_eq_iff)
  have "received s s' (plan_at (take (Suc k) (x # plan)))"
    using received_trans [OF adv IH(4)] unfolding join by simp
  moreover have "advanced s s' (plan_at (x # plan))" if "advanced s1 s' (plan_at plan)"
    using advanced_trans [OF adv that] unfolding join .
  ultimately show ?thesis
    using IH same unfolding loop_post_def by (intro conjI exI [of _ "Suc k"]) (auto split: sum.splits)
qed

text \<open>One store that succeeds publishes the item of its route.\<close>

lemma publish_one:
  assumes "service_ok env s" "prepared_for es pr" "prepared_fits pr" "e \<in> set es"
    and room: "service_next s (entry_topic_id e) (row_hash env pr key mod entry_partitions e) + 1 \<le> u64_max"
    and s1: "s1 = snd (publish_locked env True (entry_topic_id e) (row_hash env pr key mod entry_partitions e)
      (row_payload pr (entry_route e)) key ts u op s)"
  shows "service_ok env s1" "advanced s s1 (plan_at [plan_item env op u pr key e])" "ts_route_cache s1 = ts_route_cache s"
proof -
  let ?t = "entry_topic_id e" and ?p = "row_hash env pr key mod entry_partitions e"
  let ?items = "[(row_payload pr (entry_route e), key)]"
  have s1': "s1 = appended env ?t ?p (group_messages ?t ?p (service_next s ?t ?p) ts u op ?items) s"
    by (simp add: s1 publish_locked_eq)
  have fits: "\<forall>x\<in>set ?items. payload_fits (fst x)" and room': "service_next s ?t ?p + length ?items \<le> u64_max"
    using row_payload_fits [OF assms(3,2,4)] room by simp_all
  note app = group_appended [OF assms(1) fits room' s1']
  have one: "(\<lambda>t' p'. if t' = ?t \<and> p' = ?p then map (\<lambda>(payload, key). (payload, key, u, op)) ?items else []) =
      plan_at [plan_item env op u pr key e]"
    by (auto simp: fun_eq_iff plan_item_def)
  show "service_ok env s1" by (rule app(1))
  show "advanced s s1 (plan_at [plan_item env op u pr key e])" using app(2) unfolding one .
  show "ts_route_cache s1 = ts_route_cache s" by (simp add: s1')
qed

lemma publish_loop_plan:
  assumes "service_ok env s" "\<And>t p. service_next s t p + length es \<le> u64_max"
    and "prepared_for es pr" "prepared_fits pr" "\<forall>e\<in>set es. 0 < entry_partitions e"
    and "publish_loop env feed tbl op r u pr key es n s = (res, s')"
  shows "loop_post env feed n (row_plan env op r u pr key es) s res s'"
  using assms
proof (induction es arbitrary: n s)
  case Nil
  then show ?case by (auto simp: row_plan_def loop_post_done)
next
  case (Cons e es)
  have prep: "prepared_for es pr" and parts: "\<forall>e\<in>set es. 0 < entry_partitions e"
    using Cons.prems by (simp_all add: prepared_for_def)
  show ?case
  proof (cases "route_matches_row env e r")
    case False
    have "service_next s t p + length es \<le> u64_max" for t p
      using Cons.prems(2) [of t p] by simp
    with False show ?thesis
      using Cons.IH [OF Cons.prems(1) _ prep Cons.prems(4) parts] Cons.prems(6) by (simp add: row_plan_def)
  next
    case True
    let ?t = "entry_topic_id e" and ?p = "row_hash env pr key mod entry_partitions e"
    let ?locked = "publish_locked env (fst (feed n)) ?t ?p (row_payload pr (entry_route e)) key (snd (feed n)) u op s"
    have plan: "row_plan env op r u pr key (e # es) = plan_item env op u pr key e # row_plan env op r u pr key es"
      using True by (simp add: row_plan_def)
    have call: "publish_loop env feed tbl op r u pr key (e # es) n s =
        (case ?locked of (Inl err, s1) \<Rightarrow> (Inl err, s1) | (Inr _, s1) \<Rightarrow> publish_loop env feed tbl op r u pr key es (Suc n) s1)"
      using True extract_payload_prepared [OF Cons.prems(3), of e env tbl] Cons.prems(5)
      by (simp add: row_hash_def Let_def)
    have room: "service_next s ?t ?p + 1 \<le> u64_max"
      using Cons.prems(2) [of ?t ?p] by simp
    show ?thesis
    proof (cases "fst (feed n)")
      case False
      then have "res = Inl StoreFailed" "s' = skipped ?t ?p 1 s"
        using Cons.prems(6) unfolding call by (simp_all add: publish_locked_eq)
      with False show ?thesis
        using loop_post_fail [OF Cons.prems(1) room] unfolding plan by simp
    next
      case ok: True
      define s1 where "s1 = snd (publish_locked env True ?t ?p (row_payload pr (entry_route e)) key (snd (feed n)) u op s)"
      note one = publish_one [OF Cons.prems(1,3,4) _ room s1_def, simplified]
      have "publish_loop env feed tbl op r u pr key es (Suc n) s1 = (res, s')"
        using Cons.prems(6) ok unfolding call by (simp add: publish_locked_eq s1_def)
      moreover have "service_next s1 t p + length es \<le> u64_max" for t p
        using one(2) Cons.prems(2) [of t p] length_plan_at [of "[plan_item env op u pr key e]" t p]
        unfolding advanced_def by simp
      ultimately have "loop_post env feed (Suc n) (row_plan env op r u pr key es) s1 res s'"
        by (intro Cons.IH [OF one(1) _ prep Cons.prems(4) parts])
      then show ?thesis
        unfolding plan by (rule loop_post_step [OF one(2,3)])
    qed
  qed
qed

definition message_plan ::
    "publish_env \<Rightarrow> nat \<Rightarrow> table_id \<Rightarrow> topic_op \<Rightarrow> row \<Rightarrow> user_id option \<Rightarrow> route_entry list \<Rightarrow> topic_error + publish_plan" where
  "message_plan env hs tbl op r u matching =
     (if matching = [] then Inr []
      else
        (case primary_key_columns_for env tbl of
           Inl err \<Rightarrow> Inl err
         | Inr cols \<Rightarrow>
             (case prepare_row env hs r tbl matching of
                Inl err \<Rightarrow> Inl err
              | Inr pr \<Rightarrow>
                  (case extract_key env pr cols of
                     Inl err \<Rightarrow> Inl err
                   | Inr key \<Rightarrow> Inr (row_plan env op r u pr key matching)))))"

lemma publish_message_plan:
  assumes ok: "service_ok env s" and fits: "env_fits env"
    and matching: "matching = get_matching_routes (ts_route_cache s) tbl op"
    and parts: "\<forall>e\<in>set matching. 0 < entry_partitions e"
    and room: "\<And>t p. service_next s t p + length matching \<le> u64_max"
    and run: "publish_message env hs feed tbl op r u s = (res, s')"
  shows "case message_plan env hs tbl op r u matching of
      Inl err \<Rightarrow> res = Inl err \<and> s' = s
    | Inr plan \<Rightarrow> loop_post env feed 0 plan s res s'"
proof (cases "matching = []")
  case True
  then show ?thesis
    using run ok by (auto simp: publish_message_def message_plan_def loop_post_done simp flip: matching)
next
  case False
  show ?thesis
  proof (cases "message_plan env hs tbl op r u matching")
    case (Inl err)
    then show ?thesis
      using run False by (auto simp: publish_message_def message_plan_def Let_def simp flip: matching split: sum.splits)
  next
    case (Inr plan)
    then obtain cols pr key where prep: "primary_key_columns_for env tbl = Inr cols"
      "prepare_row env hs r tbl matching = Inr pr" "extract_key env pr cols = Inr key"
      and plan: "plan = row_plan env op r u pr key matching"
      using False by (auto simp: message_plan_def split: sum.splits)
    have "publish_loop env feed tbl op r u pr key matching 0 s = (res, s')"
      using run False prep by (simp add: publish_message_def flip: matching)
    then show ?thesis
      using publish_loop_plan [OF ok room prepare_row_fits(2,1) [OF fits prep(2)] parts] Inr plan by simp
  qed
qed

section \<open>Publishing a batch\<close>

text \<open>
  After a batch every partition received a prefix of its share of the plan, and all of it on success.
\<close>

definition batch_post ::
    "publish_env \<Rightarrow> nat \<Rightarrow> publish_plan \<Rightarrow> topic_service \<Rightarrow> topic_error + nat \<Rightarrow> topic_service \<Rightarrow> bool" where
  "batch_post env n plan s res s' =
     (service_ok env s' \<and> ts_route_cache s' = ts_route_cache s \<and>
      (\<exists>new. received s s' new \<and> (\<forall>t p. \<exists>rest. plan_at plan t p = new t p @ rest)) \<and>
      (case res of
         Inr x \<Rightarrow> x = n + length plan \<and> advanced s s' (plan_at plan)
       | Inl err \<Rightarrow> err = StoreFailed))"

lemma batch_post_done: "service_ok env s \<Longrightarrow> batch_post env n [] s (Inr n) s"
  by (auto simp: batch_post_def plan_at_empty intro: exI [of _ "\<lambda>t p. []"])

lemma batch_post_fail:
  assumes "service_ok env s" "service_next s t p + k \<le> u64_max"
  shows "batch_post env n plan s (Inl StoreFailed) (skipped t p k s)"
  using group_skipped [OF assms] by (auto simp: batch_post_def intro: exI [of _ "\<lambda>t p. []"])

lemma batch_post_step:
  assumes adv: "advanced s s1 (plan_at first)" and same: "ts_route_cache s1 = ts_route_cache s"
    and post: "batch_post env (n + length first) plan s1 res s'"
  shows "batch_post env n (first @ plan) s res s'"
proof -
  from post obtain new where new: "received s1 s' new" "\<forall>t p. \<exists>rest. plan_at plan t p = new t p @ rest"
    unfolding batch_post_def by blast
  have "received s s' (\<lambda>t p. plan_at first t p @ new t p)"
    using received_trans [OF adv new(1)] .
  moreover have "\<forall>t p. \<exists>rest. plan_at (first @ plan) t p = (plan_at first t p @ new t p) @ rest"
    using new(2) by simp
  moreover have "advanced s s' (plan_at (first @ plan))" if "advanced s1 s' (plan_at plan)"
    using advanced_trans [OF adv that] by (simp add: fun_eq_iff [where f = "plan_at (first @ plan)"] advanced_def received_def)
  ultimately show ?thesis
    using post same unfolding batch_post_def by (auto split: sum.splits)
qed

text \<open>The plan matters only through what each partition receives and the number of messages.\<close>

lemma batch_post_cong:
  assumes "plan_at plan = plan_at plan'" "length plan = length plan'"
  shows "batch_post env n plan s res s' = batch_post env n plan' s res s'"
  unfolding batch_post_def assms ..

lemma batch_post_trans:
  assumes "batch_post env n plan s (Inr n1) s1" "batch_post env n1 plan' s1 res s'"
  shows "batch_post env n (plan @ plan') s res s'"
proof -
  have "n1 = n + length plan" "advanced s s1 (plan_at plan)" "ts_route_cache s1 = ts_route_cache s"
    using assms(1) by (simp_all add: batch_post_def)
  with assms(2) show ?thesis
    by (intro batch_post_step) simp_all
qed

lemma batch_post_more:
  assumes "batch_post env n plan s (Inl err) s'"
  shows "batch_post env n (plan @ plan') s (Inl err) s'"
proof -
  from assms obtain new where new: "received s s' new" "\<forall>t p. \<exists>rest. plan_at plan t p = new t p @ rest"
    unfolding batch_post_def by blast
  then have "\<forall>t p. \<exists>rest. plan_at (plan @ plan') t p = new t p @ rest"
    by (metis append.assoc plan_at_simps(3))
  with new(1) assms show ?thesis
    unfolding batch_post_def by auto
qed

lemma count_plan: "count (mset plan) ((t, p), c) = count (mset (plan_at plan t p)) c"
  by (induction plan) (auto simp: plan_at_def)

lemma plan_at_eq_length:
  assumes "plan_at plan = plan_at plan'"
  shows "length plan = length plan'"
proof -
  have "mset plan = mset plan'"
  proof (rule multiset_eqI)
    fix x show "count (mset plan) x = count (mset plan') x"
      using count_plan [of plan "fst (fst x)" "snd (fst x)" "snd x"]
        count_plan [of plan' "fst (fst x)" "snd (fst x)" "snd x"] assms by simp
  qed
  then show ?thesis by (rule mset_eq_length)
qed

text \<open>Grouping by partition: each partition appears once, with its rows in their order.\<close>

definition grouped :: "(batch_row \<Rightarrow> nat) \<Rightarrow> batch_row list \<Rightarrow> (nat \<times> batch_row list) list \<Rightarrow> bool" where
  "grouped f hits gs =
     (distinct (map fst gs) \<and> (\<forall>p g. (p, g) \<in> set gs \<longleftrightarrow> g = filter (\<lambda>b. f b = p) hits \<and> g \<noteq> []))"

lemma grouped_get:
  assumes "grouped f hits gs"
  shows "map_of gs p = (if filter (\<lambda>b. f b = p) hits = [] then None else Some (filter (\<lambda>b. f b = p) hits))"
proof (cases "map_of gs p")
  case None
  then have "(p, g) \<notin> set gs" for g by (force simp: map_of_eq_None_iff)
  with None show ?thesis using assms by (auto simp: grouped_def)
next
  case (Some g)
  then have "(p, g) \<in> set gs" by (rule map_of_SomeD)
  with Some show ?thesis using assms unfolding grouped_def by metis
qed

lemma push_group_grouped:
  assumes "grouped f hits gs"
  shows "grouped f (hits @ [b]) (push_group (f b) b gs)"
proof (cases "map_of gs (f b)")
  case None
  then have none: "filter (\<lambda>x. f x = f b) hits = []" and new: "f b \<notin> fst ` set gs"
    using grouped_get [OF assms, of "f b"] by (auto simp: map_of_eq_None_iff split: if_splits)
  have "push_group (f b) b gs = gs @ [(f b, [b])]"
    using None by (simp add: push_group_def)
  then show ?thesis
    using assms none new unfolding grouped_def by (auto simp: image_iff)
next
  case (Some g)
  then have g: "g = filter (\<lambda>x. f x = f b) hits" "g \<noteq> []"
    using grouped_get [OF assms, of "f b"] by (auto split: if_splits)
  let ?h = "\<lambda>(q, bs). if q = f b then (q, bs @ [b]) else (q, bs)"
  have push: "push_group (f b) b gs = map ?h gs"
    using Some by (simp add: push_group_def)
  have keys: "map fst (map ?h gs) = map fst gs"
    by (auto simp: comp_def)
  have mem: "(p, x) \<in> set (map ?h gs) \<longleftrightarrow> (\<exists>y. (p, y) \<in> set gs \<and> x = (if p = f b then y @ [b] else y))" for p x
    by (force split: if_splits)
  have "(p, x) \<in> set (map ?h gs) \<longleftrightarrow> x = filter (\<lambda>c. f c = p) (hits @ [b]) \<and> x \<noteq> []" for p x
    using assms g unfolding mem grouped_def by (cases "p = f b") auto
  then show ?thesis
    using assms unfolding push grouped_def keys by blast
qed

lemma groups_grouped:
  "grouped f hits (fold (\<lambda>b. push_group (f b) b) hits [])"
proof (induction hits rule: rev_induct)
  case (snoc b hits)
  then show ?case by (simp add: push_group_grouped)
qed (simp add: grouped_def)

lemma grouped_arranged:
  assumes "grouped f hits gs" "mset gs' = mset gs"
  shows "grouped f hits gs'"
proof -
  have "set gs' = set gs" "mset (map fst gs') = mset (map fst gs)"
    using assms(2) by (metis set_mset_mset, simp)
  then show ?thesis
    using assms(1) unfolding grouped_def by (metis mset_eq_imp_distinct_iff)
qed

definition entry_plan :: "publish_env \<Rightarrow> topic_op \<Rightarrow> user_id option \<Rightarrow> route_entry \<Rightarrow> batch_row list \<Rightarrow> publish_plan" where
  "entry_plan env op u e bs = map (\<lambda>b. plan_item env op u (br_prepared b) (br_key b) e) bs"

lemma batch_hash_row: "batch_hash env b = row_hash env (br_prepared b) (br_key b)"
  by (simp add: batch_hash_def row_hash_def)

lemma plan_at_entry:
  "plan_at (entry_plan env op u e bs) t p =
     (if t = entry_topic_id e
      then map (\<lambda>b. snd (plan_item env op u (br_prepared b) (br_key b) e))
             (filter (\<lambda>b. batch_hash env b mod entry_partitions e = p) bs)
      else [])"
  by (induction bs) (auto simp: entry_plan_def plan_item_def batch_hash_row)

lemma plan_at_groups:
  assumes "grouped (\<lambda>b. batch_hash env b mod entry_partitions e) hits gs"
  shows "plan_at (concat (map (\<lambda>(q, g). entry_plan env op u e g) gs)) = plan_at (entry_plan env op u e hits)"
proof (intro ext)
  fix t p
  let ?f = "\<lambda>b. batch_hash env b mod entry_partitions e"
  let ?item = "\<lambda>b. snd (plan_item env op u (br_prepared b) (br_key b) e)"
  have pick: "plan_at (concat (map (\<lambda>(q, g). entry_plan env op u e g) xs)) t p =
      (case map_of xs p of None \<Rightarrow> [] | Some g \<Rightarrow> plan_at (entry_plan env op u e g) t p)"
    if "distinct (map fst xs)" "\<forall>(q, g)\<in>set xs. \<forall>b\<in>set g. ?f b = q" for xs
    using that
  proof (induction xs)
    case (Cons x xs)
    have own: "filter (\<lambda>b. ?f b = p) (snd x) = (if fst x = p then snd x else [])"
      using Cons.prems(2) by (cases x) (auto simp: filter_empty_conv filter_id_conv)
    have rest: "map_of xs (fst x) = None"
      using Cons.prems(1) by (simp add: map_of_eq_None_iff)
    show ?case
      using Cons own rest by (cases x) (auto simp: plan_at_entry split: option.splits)
  qed simp
  have "\<forall>(q, g)\<in>set gs. \<forall>b\<in>set g. ?f b = q"
    using assms by (auto simp: grouped_def)
  then have "plan_at (concat (map (\<lambda>(q, g). entry_plan env op u e g) gs)) t p =
      (case map_of gs p of None \<Rightarrow> [] | Some g \<Rightarrow> plan_at (entry_plan env op u e g) t p)"
    using assms by (intro pick) (simp_all add: grouped_def)
  also have "\<dots> = plan_at (entry_plan env op u e hits) t p"
    unfolding grouped_get [OF assms] by (auto simp: plan_at_entry)
  finally show "plan_at (concat (map (\<lambda>(q, g). entry_plan env op u e g) gs)) t p = plan_at (entry_plan env op u e hits) t p" .
qed

definition batch_fits :: "route_entry list \<Rightarrow> batch_row list \<Rightarrow> bool" where
  "batch_fits es bs = (\<forall>b\<in>set bs. prepared_for es (br_prepared b) \<and> prepared_fits (br_prepared b))"

lemma collect_payloads:
  assumes "batch_fits es bs" "e \<in> set es"
  shows "collect_results (map (\<lambda>b. map_sum id (\<lambda>pl. (pl, br_key b))
             (extract_payload env (br_prepared b) (entry_route e) tbl)) bs) =
         Inr (map (\<lambda>b. (row_payload (br_prepared b) (entry_route e), br_key b)) bs)"
  using assms by (induction bs) (auto simp: batch_fits_def extract_payload_prepared [where es = es])

lemma group_plan_at:
  assumes "\<forall>b\<in>set g. batch_hash env b mod entry_partitions e = q"
  shows "(\<lambda>t p. if t = entry_topic_id e \<and> p = q
            then map (\<lambda>(payload, key). (payload, key, u, op))
                   (map (\<lambda>b. (row_payload (br_prepared b) (entry_route e), br_key b)) g)
            else []) = plan_at (entry_plan env op u e g)"
proof (intro ext)
  fix t p
  have "filter (\<lambda>b. batch_hash env b mod entry_partitions e = p) g = (if p = q then g else [])"
    using assms by (auto simp: filter_empty_conv filter_id_conv)
  then show "(if t = entry_topic_id e \<and> p = q
            then map (\<lambda>(payload, key). (payload, key, u, op))
                   (map (\<lambda>b. (row_payload (br_prepared b) (entry_route e), br_key b)) g)
            else []) = plan_at (entry_plan env op u e g) t p"
    by (auto simp: plan_at_entry plan_item_def)
qed

lemma publish_groups_post:
  assumes "service_ok env s" "\<And>t p. service_next s t p + sum_list (map (\<lambda>(q, g). length g) gs) \<le> u64_max"
    and "\<forall>(q, g)\<in>set gs. batch_fits es g \<and> (\<forall>b\<in>set g. batch_hash env b mod entry_partitions e = q)"
    and "e \<in> set es" "publish_groups env oks tbl op u ts e gs n s = (res, s')"
  shows "batch_post env n (concat (map (\<lambda>(q, g). entry_plan env op u e g) gs)) s res s'"
  using assms
proof (induction gs arbitrary: n s)
  case Nil
  then show ?case by (auto simp: batch_post_done)
next
  case (Cons qg gs)
  obtain q g where qg: "qg = (q, g)" by force
  let ?t = "entry_topic_id e" and ?items = "map (\<lambda>b. (row_payload (br_prepared b) (entry_route e), br_key b)) g"
  have g: "batch_fits es g" "\<forall>b\<in>set g. batch_hash env b mod entry_partitions e = q"
    using Cons.prems(3) by (simp_all add: qg)
  have fits: "\<forall>x\<in>set ?items. payload_fits (fst x)"
    using g(1) row_payload_fits Cons.prems(4) by (fastforce simp: batch_fits_def)
  have room: "service_next s ?t q + length ?items \<le> u64_max"
    using Cons.prems(2) [of ?t q] by (simp add: qg)
  have call: "publish_groups env oks tbl op u ts e (qg # gs) n s =
      (case publish_group_locked env (oks q) ?t q ?items ts u op s of
         (Inl err, s1) \<Rightarrow> (Inl err, s1)
       | (Inr k, s1) \<Rightarrow> publish_groups env oks tbl op u ts e gs (n + k) s1)"
    by (simp add: qg collect_payloads [OF g(1) Cons.prems(4)])
  show ?case
  proof (cases "oks q")
    case False
    then have "res = Inl StoreFailed" "s' = skipped ?t q (length ?items) s"
      using Cons.prems(5) unfolding call by (simp_all add: publish_group_eq)
    then show ?thesis
      using batch_post_fail [OF Cons.prems(1) room] by simp
  next
    case True
    define s1 where "s1 = appended env ?t q (group_messages ?t q (service_next s ?t q) ts u op ?items) s"
    note app = group_appended [OF Cons.prems(1) fits room s1_def, unfolded group_plan_at [OF g(2)]]
    have "publish_groups env oks tbl op u ts e gs (n + length (entry_plan env op u e g)) s1 = (res, s')"
      using Cons.prems(5) True unfolding call by (simp add: publish_group_eq s1_def entry_plan_def)
    moreover have "service_next s1 t p + sum_list (map (\<lambda>(q, g). length g) gs) \<le> u64_max" for t p
      using app(2) Cons.prems(2) [of t p] length_plan_at [of "entry_plan env op u e g" t p]
      unfolding advanced_def by (simp add: qg entry_plan_def)
    ultimately have "batch_post env (n + length (entry_plan env op u e g))
        (concat (map (\<lambda>(q, g). entry_plan env op u e g) gs)) s1 res s'"
      using Cons.prems(3,4) by (intro Cons.IH [OF app(1)]) simp_all
    then show ?thesis
      using batch_post_step [OF app(2)] by (simp add: qg s1_def)
  qed
qed

definition hits :: "publish_env \<Rightarrow> route_entry \<Rightarrow> batch_row list \<Rightarrow> batch_row list" where
  "hits env e bs = filter (\<lambda>b. route_matches_row env e (br_row b)) bs"

definition batch_plan :: "publish_env \<Rightarrow> topic_op \<Rightarrow> user_id option \<Rightarrow> batch_row list \<Rightarrow> route_entry list \<Rightarrow> publish_plan" where
  "batch_plan env op u bs es = concat (map (\<lambda>e. entry_plan env op u e (hits env e bs)) es)"

lemma entry_groups_post:
  assumes ok: "service_ok env s" and room: "\<And>t p. service_next s t p + length bs \<le> u64_max"
    and fits: "batch_fits es bs" and e: "e \<in> set es" and arrange: "mset gs' = mset gs"
    and gs: "partition_groups env e bs = Inr gs"
    and run: "publish_groups env oks tbl op u ts e gs' n s = (res, s')"
  shows "batch_post env n (entry_plan env op u e (hits env e bs)) s res s'"
proof -
  let ?f = "\<lambda>b. batch_hash env b mod entry_partitions e"
  have "gs = fold (\<lambda>b. push_group (?f b) b) (hits env e bs) []"
    using gs by (auto simp: partition_groups_def hits_def Let_def split: if_splits)
  then have "grouped ?f (hits env e bs) gs" using groups_grouped by simp
  then have gr: "grouped ?f (hits env e bs) gs'"
    using arrange by (rule grouped_arranged)
  note plan = plan_at_groups [OF gr, of op u]
  have "sum_list (map (\<lambda>(q, g). length g) gs') = length (concat (map (\<lambda>(q, g). entry_plan env op u e g) gs'))"
    by (auto simp: length_concat entry_plan_def comp_def intro!: arg_cong [where f = sum_list])
  also have "\<dots> = length (hits env e bs)"
    using plan_at_eq_length [OF plan] by (simp add: entry_plan_def)
  finally have len: "sum_list (map (\<lambda>(q, g). length g) gs') \<le> length bs"
    by (simp add: hits_def)
  have mem: "\<forall>(q, g)\<in>set gs'. batch_fits es g \<and> (\<forall>b\<in>set g. ?f b = q)"
    using gr fits by (auto simp: grouped_def batch_fits_def hits_def)
  have "service_next s t p + sum_list (map (\<lambda>(q, g). length g) gs') \<le> u64_max" for t p
    using room [of t p] len by linarith
  then have "batch_post env n (concat (map (\<lambda>(q, g). entry_plan env op u e g) gs')) s res s'"
    by (rule publish_groups_post [OF ok _ mem e run])
  then show ?thesis
    using batch_post_cong [OF plan plan_at_eq_length [OF plan]] by blast
qed

lemma publish_entries_post:
  assumes "service_ok env s" "\<And>t p. service_next s t p + length es * length bs \<le> u64_max"
    and "batch_fits all bs" "set es \<subseteq> set all" "\<forall>e\<in>set es. 0 < entry_partitions e" "\<And>gs. mset (arrange gs) = mset gs"
    and "publish_entries env oks arrange tbl op u ts bs es n s = (res, s')"
  shows "batch_post env n (batch_plan env op u bs es) s res s'"
  using assms
proof (induction es arbitrary: n s)
  case Nil
  then show ?case by (auto simp: batch_plan_def batch_post_done)
next
  case (Cons e es)
  obtain gs where gs: "partition_groups env e bs = Inr gs"
    using Cons.prems(5) by (simp add: partition_groups_def Let_def)
  obtain res1 s1 where first: "publish_groups env (oks n) tbl op u ts e (arrange gs) n s = (res1, s1)"
    by force
  have room: "service_next s t p + length bs \<le> u64_max" for t p
    using Cons.prems(2) [of t p] by simp
  have e: "e \<in> set all" using Cons.prems(4) by simp
  note post = entry_groups_post [OF Cons.prems(1) room Cons.prems(3) e Cons.prems(6) gs first]
  have plan: "batch_plan env op u bs (e # es) = entry_plan env op u e (hits env e bs) @ batch_plan env op u bs es"
    by (simp add: batch_plan_def)
  show ?case
  proof (cases res1)
    case (Inl err)
    then have "res = Inl err" "s' = s1" using Cons.prems(7) by (simp_all add: gs first)
    with post Inl show ?thesis unfolding plan by (simp add: batch_post_more)
  next
    case (Inr n1)
    then have run: "publish_entries env oks arrange tbl op u ts bs es n1 s1 = (res, s')"
      using Cons.prems(7) by (simp add: gs first)
    have adv: "service_ok env s1" "advanced s s1 (plan_at (entry_plan env op u e (hits env e bs)))"
      using post Inr by (simp_all add: batch_post_def)
    have short: "length (plan_at (entry_plan env op u e (hits env e bs)) t p) \<le> length bs" for t p
      using length_plan_at [of "entry_plan env op u e (hits env e bs)" t p]
      by (auto simp: entry_plan_def hits_def intro: order_trans)
    have "service_next s1 t p + length es * length bs \<le> u64_max" for t p
      using adv(2) Cons.prems(2) [of t p] short [of t p] unfolding advanced_def by simp
    then have "batch_post env n1 (batch_plan env op u bs es) s1 res s'"
      using Cons.prems(4,5) by (intro Cons.IH [OF adv(1) _ Cons.prems(3) _ _ Cons.prems(6) run]) simp_all
    with post Inr show ?thesis unfolding plan by (blast intro: batch_post_trans)
  qed
qed

text \<open>The rows of a batch, prepared one by one.\<close>

definition batch_rows ::
    "publish_env \<Rightarrow> (nat \<Rightarrow> nat) \<Rightarrow> table_id \<Rightarrow> route_entry list \<Rightarrow> string list \<Rightarrow> row list \<Rightarrow> batch_row list \<Rightarrow> bool" where
  "batch_rows env hs tbl matching cols rows bs =
     (length bs = length rows \<and>
      (\<forall>i < length rows. br_row (bs ! i) = rows ! i \<and>
         prepare_row env (hs i) (rows ! i) tbl matching = Inr (br_prepared (bs ! i)) \<and>
         extract_key env (br_prepared (bs ! i)) cols = Inr (br_key (bs ! i))))"

lemma collect_results_Inr:
  "collect_results xs = Inr ys \<Longrightarrow> length ys = length xs \<and> (\<forall>i < length xs. xs ! i = Inr (ys ! i))"
proof (induction xs arbitrary: ys)
  case (Cons x xs)
  then obtain v zs where "x = Inr v" "collect_results xs = Inr zs" "ys = v # zs"
    by (cases x; cases "collect_results xs") auto
  with Cons.IH [of zs] show ?case
    by (auto simp: nth_Cons split: nat.splits)
qed simp

lemma batch_rows_fit:
  assumes "env_fits env" "batch_rows env hs tbl matching cols rows bs"
  shows "batch_fits matching bs"
  unfolding batch_fits_def
proof
  fix b assume "b \<in> set bs"
  then obtain i where "i < length bs" "b = bs ! i" by (metis in_set_conv_nth)
  then have "prepare_row env (hs i) (rows ! i) tbl matching = Inr (br_prepared b)"
    using assms(2) by (simp add: batch_rows_def)
  then show "prepared_for matching (br_prepared b) \<and> prepared_fits (br_prepared b)"
    using prepare_row_fits [OF assms(1)] by blast
qed

lemma publish_batch_cases:
  assumes run: "publish_batch env hs oks arrange now tbl op rows u s = (res, s')"
    and matching: "matching = get_matching_routes (ts_route_cache s) tbl op"
  obtains (failed) err where "res = Inl err" "s' = s"
  | (idle) "rows = [] \<or> matching = []" "res = Inr 0" "s' = s"
  | (published) cols bs where "matching \<noteq> []" "primary_key_columns_for env tbl = Inr cols" "batch_rows env hs tbl matching cols rows bs"
      "publish_entries env oks arrange tbl op u now bs matching 0 s = (res, s')"
proof (cases "rows = [] \<or> matching = []")
  case True
  then have "publish_batch env hs oks arrange now tbl op rows u s = (Inr 0, s)"
    by (auto simp: publish_batch_def simp flip: matching)
  with run have "res = Inr 0" "s' = s" by simp_all
  with True show ?thesis by (rule idle)
next
  case False
  show ?thesis
  proof (cases "primary_key_columns_for env tbl")
    case (Inl err)
    then show ?thesis using run False by (auto simp: publish_batch_def simp flip: matching intro: failed)
  next
    case cols: (Inr cols)
    let ?prs = "collect_results (map (\<lambda>(i, r). prepare_row env (hs i) r tbl matching) (enumerate 0 rows))"
    show ?thesis
    proof (cases ?prs)
      case (Inl err)
      then show ?thesis using run False cols by (auto simp: publish_batch_def simp flip: matching intro: failed)
    next
      case prs: (Inr prs)
      show ?thesis
      proof (cases "collect_results (map (\<lambda>pr. extract_key env pr cols) prs)")
        case (Inl err)
        then show ?thesis using run False cols prs by (auto simp: publish_batch_def simp flip: matching intro: failed)
      next
        case keys: (Inr keys)
        let ?bs = "map2 (\<lambda>(r, pr) k. \<lparr>br_row = r, br_prepared = pr, br_key = k\<rparr>) (zip rows prs) keys"
        have "batch_rows env hs tbl matching cols rows ?bs"
          using collect_results_Inr [OF prs] collect_results_Inr [OF keys]
          by (auto simp: batch_rows_def nth_enumerate_eq)
        moreover have "publish_entries env oks arrange tbl op u now ?bs matching 0 s = (res, s')"
          using run False cols prs keys by (simp add: publish_batch_def flip: matching)
        ultimately show ?thesis using published False cols by blast
      qed
    qed
  qed
qed

lemma publish_batch_post:
  assumes ok: "service_ok env s" and fits: "env_fits env"
    and matching: "matching = get_matching_routes (ts_route_cache s) tbl op"
    and parts: "\<forall>e\<in>set matching. 0 < entry_partitions e"
    and room: "\<And>t p. service_next s t p + length matching * length rows \<le> u64_max"
    and arrange: "\<And>gs. mset (arrange gs) = mset gs"
    and bs: "batch_rows env hs tbl matching cols rows bs"
    and run: "publish_entries env oks arrange tbl op u now bs matching 0 s = (res, s')"
  shows "batch_post env 0 (batch_plan env op u bs matching) s res s'"
proof -
  have "length bs = length rows" using bs by (simp add: batch_rows_def)
  then show ?thesis
    using publish_entries_post [OF ok _ batch_rows_fit [OF fits bs] order_refl parts arrange run] room by simp
qed

text \<open>
  With distinct topics among the routes, the batch gives each partition what publishing the rows
  one at a time would.
\<close>

lemma row_plan_single:
  "row_plan env op (br_row b) u (br_prepared b) (br_key b) es = batch_plan env op u [b] es"
  by (induction es) (auto simp: row_plan_def batch_plan_def hits_def entry_plan_def)

lemma batch_plan_other_topic: "t \<notin> entry_topic_id ` set es \<Longrightarrow> plan_at (batch_plan env op u bs es) t p = []"
  by (induction es) (auto simp: batch_plan_def plan_at_entry)

lemma batch_plan_append:
  assumes "distinct (map entry_topic_id es)"
  shows "plan_at (batch_plan env op u (bs @ cs) es) t p =
    plan_at (batch_plan env op u bs es) t p @ plan_at (batch_plan env op u cs es) t p"
  using assms
proof (induction es)
  case (Cons e es)
  have cons: "plan_at (batch_plan env op u xs (e # es)) t p =
      plan_at (entry_plan env op u e (hits env e xs)) t p @ plan_at (batch_plan env op u xs es) t p" for xs
    by (simp add: batch_plan_def)
  show ?case
  proof (cases "t = entry_topic_id e")
    case True
    then have "plan_at (batch_plan env op u xs es) t p = []" for xs
      using Cons.prems by (intro batch_plan_other_topic) simp
    then show ?thesis unfolding cons by (simp add: plan_at_entry hits_def)
  next
    case False
    then show ?thesis using Cons unfolding cons by (simp add: plan_at_entry)
  qed
qed (simp add: batch_plan_def)

lemma batch_plan_rows:
  assumes "distinct (map entry_topic_id es)"
  shows "plan_at (concat (map (\<lambda>b. row_plan env op (br_row b) u (br_prepared b) (br_key b) es) bs)) =
    plan_at (batch_plan env op u bs es)"
proof (induction bs)
  case Nil
  have "plan_at (batch_plan env op u [] es) = plan_at []"
    by (induction es) (simp_all add: batch_plan_def hits_def entry_plan_def)
  then show ?case by simp
next
  case (Cons b bs)
  then show ?case
    using batch_plan_append [OF assms, of env op u "[b]" bs] by (simp add: fun_eq_iff row_plan_single)
qed

section \<open>Properties of publishing\<close>

text \<open>
  C26: Publishing a row appends to the logs exactly the planned messages. The plan has one message
  per matching route whose filter accepts the row, in cache order, in the partition chosen by the
  key's hash. If every store succeeds, the call returns the number of planned messages and each
  partition's log is extended by its share, with consecutive offsets from the next free one; if a
  store fails, a prefix of the plan was published; an error before that changes nothing. The
  service invariant holds afterwards.
\<close>

theorem publish_message_appends:
  assumes "service_ok env s" "env_fits env" "matching = get_matching_routes (ts_route_cache s) tbl op"
    and "\<forall>e\<in>set matching. 0 < entry_partitions e" "\<forall>t p. service_next s t p + length matching \<le> u64_max"
    and "publish_message env hs feed tbl op r u s = (res, s')"
  shows "service_ok env s' \<and>
    (case message_plan env hs tbl op r u matching of
       Inl err \<Rightarrow> res = Inl err \<and> s' = s
     | Inr plan \<Rightarrow>
         (\<exists>k. (\<forall>t p. \<exists>ms. service_log s' t p = service_log s t p @ ms \<and> map content ms = plan_at (take k plan) t p \<and>
                 map tm_offset ms = [service_next s t p..<service_next s t p + length ms]) \<and>
              (res = Inr (length plan) \<and> k = length plan \<or> res = Inl StoreFailed \<and> k < length plan \<and> \<not> fst (feed k))))"
proof -
  have room: "\<And>t p. service_next s t p + length matching \<le> u64_max" using assms(5) by blast
  note post = publish_message_plan [OF assms(1-4) room assms(6)]
  show ?thesis
  proof (cases "message_plan env hs tbl op r u matching")
    case (Inl err)
    then show ?thesis using post assms(1) by simp
  next
    case (Inr plan)
    with post obtain k where k: "service_ok env s'" "received s s' (plan_at (take k plan))"
      "case res of Inr x \<Rightarrow> k = length plan \<and> x = 0 + k \<and> advanced s s' (plan_at plan)
       | Inl err \<Rightarrow> err = StoreFailed \<and> k < length plan \<and> \<not> fst (feed (0 + k))"
      unfolding loop_post_def by auto
    have "res = Inr (length plan) \<and> k = length plan \<or> res = Inl StoreFailed \<and> k < length plan \<and> \<not> fst (feed k)"
      using k(3) by (cases res) auto
    then show ?thesis
      using k(1,2) unfolding received_def by (simp add: Inr) blast
  qed
qed


section \<open>A concrete service\<close>

lemma partition_ok_new [simp]: "partition_ok msize [] runtime_new"
  by (simp add: partition_ok_def runtime_new_def write_state_default_def next_of_def tail_mirrors_clear offsets_ascend_def)

lemma service_ok_new [simp]: "service_ok env (service_new store_empty os timeout)"
  by (simp add: service_ok_def service_new_def runtime_at_def partition_log_def) (simp add: store_empty_def)

lemma service_ok_cache [simp]: "service_ok env (s\<lparr>ts_route_cache := c\<rparr>) = service_ok env s"
  by (simp add: service_ok_def runtime_at_def)

definition example_publish_env :: publish_env where
  "example_publish_env =
     \<lparr>pe_routing = example_routing_env, pe_primary_keys = Some (\<lambda>_. Inr [''id'']),
      pe_scalar_json = (\<lambda>_. Some (CellOther ''7'')), pe_to_vec = (\<lambda>_ _. Some ''{}''), pe_key_text = (\<lambda>_. None),
      pe_inject_table = (\<lambda>_ _. None), pe_hash_key = length, pe_message_bytes = (\<lambda>m. length (tm_payload m))\<rparr>"

definition example_service :: topic_service where
  "example_service = service_add_topic example_publish_env (example_topic ''a'') (service_new store_empty [] 60)"

abbreviation example_table :: table_id where
  "example_table \<equiv> TableId ''app'' ''orders''"

abbreviation example_entry :: route_entry where
  "example_entry \<equiv> \<lparr>en_topic = example_topic ''a'', en_route_index = 0, en_compiled_filter = None\<rparr>"

lemma example_service_facts:
  "service_ok env example_service"
  "get_matching_routes (ts_route_cache example_service) example_table TopicInsert = [example_entry]"
  "service_next example_service t p = 0" "service_log example_service t p = []"
  "env_fits example_publish_env"
proof -
  have route: "entry_route example_entry = topic_route_new example_table TopicInsert"
    by (simp add: entry_route_def example_topic_def)
  show "service_ok env example_service"
    by (simp add: example_service_def service_add_topic_def)
  show "get_matching_routes (ts_route_cache example_service) example_table TopicInsert = [example_entry]"
    by (simp add: example_service_def service_add_topic_def matching_routes_at add_topic_sel(1) example_topic_entries
        example_publish_env_def route)
      (simp add: service_new_def route_cache_new_def routes_at_def topic_route_new_def)
  show "service_next example_service t p = 0" "service_log example_service t p = []"
    by (simp_all add: example_service_def service_add_topic_def service_new_def runtime_at_def runtime_new_def
        write_state_default_def next_of_def partition_log_def store_empty_def)
  show "env_fits example_publish_env"
    by (simp add: env_fits_def example_publish_env_def payload_fits_def tail_max_bytes_def u64_max_def)
qed

lemma example_plan:
  "message_plan example_publish_env h example_table TopicInsert [(''id'', v)] None [example_entry] =
     Inr [((''a'', 0), ''{}'', Some ''7'', None, TopicInsert)]"
proof -
  have route: "entry_route example_entry = topic_route_new example_table TopicInsert"
    by (simp add: entry_route_def example_topic_def)
  show ?thesis
    by (simp add: message_plan_def example_publish_env_def primary_key_columns_for_def prepare_row_def route
        topic_route_new_def from_row_def extract_key_def extract_primary_key_def row_plan_def route_matches_row_def
        plan_item_def row_hash_def row_payload_def)
      (simp add: entry_topic_id_def entry_partitions_def example_topic_def topic_new_def)
qed

theorem publish_message_appends_witness:
  "map content (service_log (snd (publish_message example_publish_env 0 (\<lambda>_. (True, 5)) example_table TopicInsert
     [(''id'', Int64V (Some 7))] None example_service)) ''a'' 0) = [(''{}'', Some ''7'', None, TopicInsert)]"
proof -
  obtain res s' where run: "publish_message example_publish_env 0 (\<lambda>_. (True, 5)) example_table TopicInsert
      [(''id'', Int64V (Some 7))] None example_service = (res, s')" by force
  have parts: "\<forall>e\<in>set [example_entry]. 0 < entry_partitions e"
    by (simp add: entry_partitions_def example_topic_def topic_new_def)
  have room: "\<forall>t p. service_next example_service t p + length [example_entry] \<le> u64_max"
    by (simp add: example_service_facts(3) u64_max_def)
  show ?thesis
    using publish_message_appends [OF example_service_facts(1,5) example_service_facts(2) [symmetric] parts room run]
    by (simp add: run example_plan example_service_facts(4))
qed

abbreviation example_rows :: "row list" where
  "example_rows \<equiv> [[(''id'', Int64V (Some 7))], [(''id'', Int64V (Some 8))]]"

lemma example_entry_sel:
  "entry_partitions example_entry = 1" "rt_payload_mode (entry_route example_entry) = KeyMode"
  "route_matches_row env example_entry r"
  by (simp_all add: entry_partitions_def entry_route_def route_matches_row_def example_topic_def topic_new_def topic_route_new_def)

lemma example_batch_result:
  "fst (publish_batch example_publish_env (\<lambda>_. 0) (\<lambda>_ _. True) rev 5 example_table TopicInsert example_rows None example_service) = Inr 2"
proof -
  have prep: "prepare_row example_publish_env h [(''id'', v)] example_table [example_entry] =
      Inr \<lparr>pr_key_payload = ''{}'', pr_json_map = [''id'' \<mapsto> CellOther ''7''], pr_full_payload = None, pr_partition_hash = 2\<rparr>" for h v
    by (simp add: prepare_row_def example_entry_sel from_row_def example_publish_env_def)
  have cols: "primary_key_columns_for example_publish_env t = Inr [''id'']" for t
    by (simp add: primary_key_columns_for_def example_publish_env_def)
  show ?thesis
    by (simp add: publish_batch_def Let_def example_service_facts(2) cols prep extract_key_def extract_primary_key_def
        partition_groups_def push_group_def example_entry_sel extract_payload_def publish_group_eq)
qed


end
