(* ===== verification/TopicReads.thy ===== *)
theory TopicReads
  imports TopicPublish
begin

text \<open>
  Reading a partition and restarting the service. A fetch is answered from the tail or the store
  and is in both cases the page of the durable log (the service is a \<open>log_reader\<close>); a restart
  restores the offset counters from the store.
\<close>

section \<open>Fetching\<close>

definition log_first :: "topic_service \<Rightarrow> topic_id \<Rightarrow> nat \<Rightarrow> nat" where
  "log_first s t p =
     (case service_log s t p of [] \<Rightarrow> ws_log_start (pr_write (runtime_at s t p)) | m # _ \<Rightarrow> tm_offset m)"

lemma store_earliest_log:
  assumes "store_wf msize st"
  shows "store_earliest_offset st t p = (case partition_log st t p of [] \<Rightarrow> None | m # _ \<Rightarrow> Some (tm_offset m))"
  by (simp add: store_earliest_offset_def store_fetch_page [OF assms] page_def split: list.splits)

lemma earliest_eq:
  assumes "service_ok env s"
  shows "earliest_available_offset True s t p = Inr (log_first s t p)"
  by (simp add: earliest_available_offset_def store_earliest_log [OF service_okD(1) [OF assms]] log_first_def
      runtime_at_def runtime_new_def write_state_default_def split: list.splits option.splits)

lemma latest_eq:
  assumes "service_ok env s" "latest_offset ok s t p = Inr l"
  shows "(case l of None \<Rightarrow> 0 | Some x \<Rightarrow> x + 1) = service_next s t p"
proof (cases "ws_next_offset (pr_write (runtime_at s t p))")
  case None
  then have "service_log s t p = []"
    using service_okD(4) [OF assms(1), of _ t p] by (cases "service_log s t p") (auto simp: next_of_def)
  then have "store_latest_offset (ts_message_store s) t p = None"
    by (simp add: latest_offset_log [OF service_okD(1) [OF assms(1)]])
  with None assms(2) show ?thesis
    by (auto simp: latest_offset_def runtime_at_def next_of_def split: option.splits if_splits)
next
  case (Some n)
  then show ?thesis
    using assms(2) by (auto simp: latest_offset_def runtime_at_def next_of_def runtime_new_def write_state_default_def
        split: option.splits if_splits)
qed

lemma tail_hit_not_early:
  assumes "service_ok env s" "try_fetch_from_tail s t p off limit = Some ms"
  shows "log_first s t p \<le> off" "ms = page (service_log s t p) off limit"
proof -
  have fetch: "tail_fetch (pr_tail (runtime_at s t p)) off limit = Some ms"
    using assms(2) by (auto simp: try_fetch_from_tail_def runtime_at_def split: option.splits)
  note mir = service_okD(3) [OF assms(1), of t p]
  show "ms = page (service_log s t p) off limit"
    by (rule tail_fetch_page [OF mir fetch])
  let ?tl = "pr_tail (runtime_at s t p)"
  have hit: "pt_messages ?tl \<noteq> []" "pt_start ?tl \<le> off \<or> off = pt_end ?tl"
    using fetch by (auto simp: tail_fetch_def split: if_splits)
  have offs: "map tm_offset (pt_messages ?tl) = [pt_start ?tl..<pt_end ?tl]" and le: "pt_start ?tl \<le> pt_end ?tl"
    using mir by (simp_all add: tail_mirrors_def tail_wf_def)
  obtain pre where log: "service_log s t p = pre @ pt_messages ?tl"
    using mir by (auto simp: tail_mirrors_def)
  have first: "tm_offset (hd (pt_messages ?tl)) = pt_start ?tl"
    using offs hit(1) by (cases "pt_messages ?tl") (auto dest!: upt_ConsD)
  have ascend: "offsets_ascend (service_log s t p)"
    using mir by (simp add: tail_mirrors_def)
  have "tm_offset (hd (service_log s t p)) \<le> pt_start ?tl"
  proof (cases pre)
    case (Cons x xs)
    then have "tm_offset x < tm_offset (hd (pt_messages ?tl))"
      using ascend hit(1) by (simp add: log offsets_ascend_def sorted_wrt_append)
    then show ?thesis using first Cons by (simp add: log)
  qed (simp add: log first)
  moreover have "log_first s t p = tm_offset (hd (service_log s t p))"
    using hit(1) by (cases "service_log s t p") (simp_all add: log_first_def log)
  ultimately show "log_first s t p \<le> off"
    using hit(2) le by linarith
qed

lemma fetch_messages_eq:
  assumes ok: "service_ok env s" and "0 < limit"
  shows "fetch_messages (\<lambda>_. True) s t p off limit =
    (if off < log_first s t p then Inl (OffsetOutOfRange off (log_first s t p) (service_next s t p))
     else Inr (page (service_log s t p) off limit))"
proof (cases "try_fetch_from_tail s t p off limit")
  case (Some ms)
  then show ?thesis
    using tail_hit_not_early [OF ok Some] assms(2) by (simp add: fetch_messages_def)
next
  case None
  have "\<exists>l. latest_offset True s t p = Inr l"
    by (simp add: latest_offset_def split: option.splits)
  then obtain l where l: "latest_offset True s t p = Inr l" ..
  have "(case l of Some x \<Rightarrow> x + 1 | None \<Rightarrow> 0) = service_next s t p"
    using latest_eq [OF ok l] by (simp add: option.case_eq_if)
  then show ?thesis
    using None assms(2) l
    by (simp add: fetch_messages_def earliest_eq [OF ok] store_fetch_page [OF service_okD(1) [OF ok]])
qed

lemma fetch_messages_page:
  assumes "service_ok env s" "fetch_messages oks s t p off limit = Inr ms"
  shows "ms = page (service_log s t p) off limit"
proof (cases "limit = 0")
  case True
  then show ?thesis
    using assms(2) by (simp add: fetch_messages_def page_def)
next
  case False
  show ?thesis
  proof (cases "try_fetch_from_tail s t p off limit")
    case (Some x)
    then show ?thesis
      using assms(2) False tail_hit_not_early(2) [OF assms(1) Some] by (simp add: fetch_messages_def)
  next
    case None
    with False show ?thesis
    using assms(2) store_fetch_page [OF service_okD(1) [OF assms(1)], of t p off limit]
    by (auto simp: fetch_messages_def split: sum.splits if_splits)
  qed
qed

text \<open>The service reads a partition as the tail and the store do.\<close>

interpretation service: log_reader "\<lambda>(s, t, p). service_log s t p"
    "\<lambda>(s, t, p) off limit. case fetch_messages oks s t p off limit of Inr ms \<Rightarrow> Some ms | Inl _ \<Rightarrow> None"
    "\<lambda>(s, t, p). service_ok env s"
  for env oks
proof (unfold_locales, goal_cases)
  case (1 x)
  then show ?case by (auto simp: service_okD(3) tail_mirrors_def dest!: service_okD(3) split: prod.splits)
next
  case (2 x off limit ms)
  then show ?case by (auto dest: fetch_messages_page split: prod.splits sum.splits)
qed

text \<open>
  C28: A fetch reads the durable log. With working storage, a fetch below the first available offset
  is refused with that offset and the next one to be written; any other fetch returns exactly the
  first messages at or after the requested offset, whether the tail or the store answers. Fetching
  on from the last message of a page continues without gap or repetition.
\<close>

theorem fetch_messages_reads_log:
  assumes "service_ok env s" "0 < n"
  shows "fetch_messages (\<lambda>_. True) s t p off n =
      (if off < log_first s t p then Inl (OffsetOutOfRange off (log_first s t p) (service_next s t p))
       else Inr (take n (filter (\<lambda>m. off \<le> tm_offset m) (service_log s t p)))) \<and>
    (\<forall>ms ks. fetch_messages oks s t p off n = Inr ms \<longrightarrow> ms \<noteq> [] \<longrightarrow>
       fetch_messages oks s t p (tm_offset (last ms) + 1) k = Inr ks \<longrightarrow>
       ms @ ks = take (length ms + k) (filter (\<lambda>m. off \<le> tm_offset m) (service_log s t p)))"
proof (intro conjI allI impI)
  show "fetch_messages (\<lambda>_. True) s t p off n =
      (if off < log_first s t p then Inl (OffsetOutOfRange off (log_first s t p) (service_next s t p))
       else Inr (take n (filter (\<lambda>m. off \<le> tm_offset m) (service_log s t p))))"
    using fetch_messages_eq [OF assms] by (simp add: page_def)
  fix ms ks
  assume "fetch_messages oks s t p off n = Inr ms" "ms \<noteq> []"
    "fetch_messages oks s t p (tm_offset (last ms) + 1) k = Inr ks"
  then show "ms @ ks = take (length ms + k) (filter (\<lambda>m. off \<le> tm_offset m) (service_log s t p))"
    using service.fetch_resume [where s = "(s, t, p)" and env = env and oks = oks and off = off and n = n and k = k, of ms ks] assms(1)
    by (simp add: page_def)
qed

section \<open>Restarting\<close>

text \<open>
  A restart is a new service over the existing stores, a refresh with the topics of the catalog and
  the restore of the offset counters.
\<close>

definition restarted ::
    "publish_env \<Rightarrow> (topic_id \<Rightarrow> nat \<Rightarrow> bool) \<Rightarrow> topic list \<Rightarrow> topic_message_store \<Rightarrow> offset_store \<Rightarrow> nat \<Rightarrow> topic_service" where
  "restarted env oks topics ms os timeout =
     restore_offset_counters oks topics (refresh_topics_cache env topics (service_new ms os timeout))"

definition has_partition :: "topic list \<Rightarrow> topic_id \<Rightarrow> nat \<Rightarrow> bool" where
  "has_partition topics t p = (\<exists>tp\<in>set topics. t = tp_topic_id tp \<and> p < tp_partitions tp)"

lemma restore_partition_sel [simp]:
  "ts_message_store (restore_partition oks t p s) = ts_message_store s"
  "ts_offset_store (restore_partition oks t p s) = ts_offset_store s"
  "ts_route_cache (restore_partition oks t p s) = ts_route_cache s"
  "ts_group_claim_state (restore_partition oks t p s) = ts_group_claim_state s"
  by (simp_all add: restore_partition_def seed_next_offset_def Let_def split: option.splits)

lemma restore_runtime:
  "runtime_at (restore_partition (\<lambda>_ _. True) t p s) t' p' =
     (if t' = t \<and> p' = p
      then (case store_latest_offset (ts_message_store s) t p of
              None \<Rightarrow> runtime_at s t p
            | Some l \<Rightarrow> (runtime_at s t p)\<lparr>pr_write := seed (l + 1) (pr_write (runtime_at s t p))\<rparr>)
      else runtime_at s t' p')"
  by (simp add: restore_partition_def seed_next_offset_def Let_def split: option.splits)

text \<open>The runtime a restored partition has: the next offset follows the last stored one.\<close>

definition restored_runtime :: "topic_message_store \<Rightarrow> topic_id \<Rightarrow> nat \<Rightarrow> partition_runtime" where
  "restored_runtime st t p =
     (case store_latest_offset st t p of
        None \<Rightarrow> runtime_new
      | Some l \<Rightarrow> runtime_new\<lparr>pr_write := seed (l + 1) (pr_write runtime_new)\<rparr>)"

lemma seed_twice: "seed n (seed n w) = seed n w"
  by (simp add: seed_def)

lemma restore_partitions:
  assumes "\<forall>t p. runtime_at s t p = (if (t, p) \<in> fin then restored_runtime (ts_message_store s) t p else runtime_new)"
    and "s' = fold (restore_partition (\<lambda>_ _. True) tid) ps s"
  shows "ts_message_store s' = ts_message_store s \<and> ts_route_cache s' = ts_route_cache s \<and> ts_offset_store s' = ts_offset_store s \<and>
    (\<forall>t p. runtime_at s' t p =
      (if (t, p) \<in> fin \<union> {tid} \<times> set ps then restored_runtime (ts_message_store s) t p else runtime_new))"
  using assms(1) unfolding assms(2)
proof (induction ps arbitrary: s fin)
  case (Cons q ps)
  let ?s = "restore_partition (\<lambda>_ _. True) tid q s"
  have "\<forall>t p. runtime_at ?s t p =
      (if (t, p) \<in> insert (tid, q) fin then restored_runtime (ts_message_store ?s) t p else runtime_new)"
    using Cons.prems by (auto simp: restore_runtime restored_runtime_def seed_twice split: option.splits)
  from Cons.IH [OF this] show ?case by (auto simp: insert_commute)
qed simp

lemma restore_topics:
  assumes "\<forall>t p. runtime_at s t p = (if (t, p) \<in> fin then restored_runtime (ts_message_store s) t p else runtime_new)"
  shows "ts_message_store (restore_offset_counters (\<lambda>_ _. True) topics s) = ts_message_store s \<and>
    ts_route_cache (restore_offset_counters (\<lambda>_ _. True) topics s) = ts_route_cache s \<and>
    ts_offset_store (restore_offset_counters (\<lambda>_ _. True) topics s) = ts_offset_store s \<and>
    (\<forall>t p. runtime_at (restore_offset_counters (\<lambda>_ _. True) topics s) t p =
      (if (t, p) \<in> fin \<or> has_partition topics t p
       then restored_runtime (ts_message_store s) t p else runtime_new))"
  using assms
proof (induction topics arbitrary: s fin)
  case (Cons tp topics)
  let ?s = "fold (restore_partition (\<lambda>_ _. True) (tp_topic_id tp)) [0..<tp_partitions tp] s"
  note one = restore_partitions [OF Cons.prems refl, of "tp_topic_id tp" "[0..<tp_partitions tp]"]
  have "restore_offset_counters (\<lambda>_ _. True) (tp # topics) s = restore_offset_counters (\<lambda>_ _. True) topics ?s"
    by (simp add: restore_offset_counters_def)
  moreover have "\<forall>t p. runtime_at ?s t p =
      (if (t, p) \<in> fin \<union> {tp_topic_id tp} \<times> {0..<tp_partitions tp} then restored_runtime (ts_message_store ?s) t p else runtime_new)"
    using one by simp
  from Cons.IH [OF this] one show ?case
    unfolding calculation by (auto simp: has_partition_def)
qed (simp add: restore_offset_counters_def has_partition_def)

lemma restarted_sel:
  "ts_message_store (restarted env (\<lambda>_ _. True) topics ms os timeout) = ms"
  "ts_offset_store (restarted env (\<lambda>_ _. True) topics ms os timeout) = os"
  "runtime_at (restarted env (\<lambda>_ _. True) topics ms os timeout) t p =
     (if has_partition topics t p then restored_runtime ms t p else runtime_new)"
proof -
  let ?s = "refresh_topics_cache env topics (service_new ms os timeout)"
  have base: "\<forall>t p. runtime_at ?s t p = (if (t, p) \<in> {} then restored_runtime (ts_message_store ?s) t p else runtime_new)"
    by (simp add: refresh_topics_cache_def service_new_def runtime_at_def)
  have "ts_message_store ?s = ms" "ts_offset_store ?s = os"
    by (simp_all add: refresh_topics_cache_def service_new_def)
  then show "ts_message_store (restarted env (\<lambda>_ _. True) topics ms os timeout) = ms"
    "ts_offset_store (restarted env (\<lambda>_ _. True) topics ms os timeout) = os"
    "runtime_at (restarted env (\<lambda>_ _. True) topics ms os timeout) t p =
     (if has_partition topics t p then restored_runtime ms t p else runtime_new)"
    using restore_topics [OF base, of topics] by (simp_all add: restarted_def)
qed

lemma restored_partition_ok:
  assumes "store_wf msize ms" "\<forall>m\<in>set (partition_log ms t p). tm_offset m < u64_max"
  shows "partition_ok msize (partition_log ms t p) (restored_runtime ms t p)"
    and "next_of (pr_write (restored_runtime ms t p)) =
      (if partition_log ms t p = [] then 0 else tm_offset (last (partition_log ms t p)) + 1)"
proof -
  let ?log = "partition_log ms t p"
  have ascend: "offsets_ascend ?log" by (rule partition_log_ascend [OF assms(1)])
  have last: "tm_offset m \<le> tm_offset (last ?log)" if "m \<in> set ?log" for m
  proof -
    have "?log = butlast ?log @ [last ?log]" using that by (cases ?log) auto
    then have "m \<in> set (butlast ?log) \<or> m = last ?log" using that by (metis Un_iff empty_set set_ConsD set_append empty_iff)
    moreover have "sorted_wrt (<) (map tm_offset (butlast ?log) @ [tm_offset (last ?log)])"
      using ascend \<open>?log = butlast ?log @ [last ?log]\<close> unfolding offsets_ascend_def by (metis list.simps(8,9) map_append)
    ultimately show ?thesis by (auto simp: sorted_wrt_append less_imp_le)
  qed
  show nxt: "next_of (pr_write (restored_runtime ms t p)) = (if ?log = [] then 0 else tm_offset (last ?log) + 1)"
    by (simp add: restored_runtime_def latest_offset_log [OF assms(1)] next_of_def seed_def runtime_new_def write_state_default_def)
  have rt: "pr_tail (restored_runtime ms t p) = tail_default" "ws_log_start (pr_write (restored_runtime ms t p)) = 0"
    "ws_retained_bytes (pr_write (restored_runtime ms t p)) = None"
    by (simp_all add: restored_runtime_def seed_def runtime_new_def write_state_default_def split: option.splits)
  have "\<forall>m\<in>set ?log. tm_offset m < next_of (pr_write (restored_runtime ms t p))"
    unfolding nxt using last by (auto simp: less_Suc_eq_le)
  moreover have "next_of (pr_write (restored_runtime ms t p)) \<le> u64_max"
    unfolding nxt using assms(2) by (auto simp: Suc_le_eq)
  ultimately show "partition_ok msize ?log (restored_runtime ms t p)"
    using tail_mirrors_clear [OF ascend] by (simp add: partition_ok_def rt)
qed

lemma restarted_ok:
  assumes "store_wf (pe_message_bytes env) ms"
    and "\<forall>t p. partition_log ms t p \<noteq> [] \<longrightarrow> has_partition topics t p"
    and "\<forall>t p. \<forall>m\<in>set (partition_log ms t p). tm_offset m < u64_max"
  shows "service_ok env (restarted env (\<lambda>_ _. True) topics ms os timeout)"
proof -
  have "partition_ok (pe_message_bytes env) (partition_log ms t p)
      (runtime_at (restarted env (\<lambda>_ _. True) topics ms os timeout) t p)" for t p
  proof (cases "has_partition topics t p")
    case True
    then show ?thesis using restored_partition_ok(1) [OF assms(1)] assms(3) by (simp add: restarted_sel(3))
  next
    case False
    then have "partition_log ms t p = []" using assms(2) by blast
    with False show ?thesis by (simp add: restarted_sel(3))
  qed
  then show ?thesis
    using assms(1) by (simp add: service_ok_def restarted_sel)
qed


lemma one_message_store:
  assumes "st = snd (put_message_with_retention_index msize True (example_message 0) store_empty)"
  shows "store_wf msize st"
    and "partition_log st t p = (if t = ''events'' \<and> p = 0 then [example_message 0] else [])"
proof -
  have empty: "partition_log store_empty t p = []" for t p
    by (simp add: partition_log_def store_empty_def)
  have "\<forall>x\<in>set (partition_log store_empty ''events'' 0). tm_offset x < tm_offset (example_message 0)"
    by (simp add: empty)
  note put = store_put_next [OF store_wf_empty _ _ this, of msize]
  have st: "st = store_put msize (example_message 0) store_empty"
    by (simp add: assms put_message_eq)
  show "store_wf msize st"
    unfolding st by (rule put(1)) (simp_all add: example_message_def)
  show "partition_log st t p = (if t = ''events'' \<and> p = 0 then [example_message 0] else [])"
    unfolding st using put(2) by (simp add: example_message_def empty)
qed

definition example_stored :: topic_message_store where
  "example_stored = snd (put_message_with_retention_index (pe_message_bytes example_publish_env) True (example_message 0) store_empty)"

lemma example_stored_facts:
  "store_wf (pe_message_bytes example_publish_env) example_stored"
  "partition_log example_stored t p = (if t = ''events'' \<and> p = 0 then [example_message 0] else [])"
  "\<forall>t p. partition_log example_stored t p \<noteq> [] \<longrightarrow> has_partition [example_topic ''events''] t p"
  "\<forall>t p. \<forall>m\<in>set (partition_log example_stored t p). tm_offset m < u64_max"
proof -
  note st = one_message_store [OF example_stored_def]
  show "store_wf (pe_message_bytes example_publish_env) example_stored"
    "partition_log example_stored t p = (if t = ''events'' \<and> p = 0 then [example_message 0] else [])"
    by (rule st)+
  show "\<forall>t p. partition_log example_stored t p \<noteq> [] \<longrightarrow> has_partition [example_topic ''events''] t p"
    by (simp add: st(2) has_partition_def example_topic_def topic_new_def)
  show "\<forall>t p. \<forall>m\<in>set (partition_log example_stored t p). tm_offset m < u64_max"
    by (simp add: st(2)) (simp add: example_message_def u64_max_def)
qed

abbreviation example_restarted :: topic_service where
  "example_restarted \<equiv> restarted example_publish_env (\<lambda>_ _. True) [example_topic ''events''] example_stored [] 60"


theorem fetch_messages_reads_log_witness:
  "fetch_messages (\<lambda>_. True) example_restarted ''events'' 0 0 5 = Inr [example_message 0]"
proof -
  have log: "service_log example_restarted ''events'' 0 = [example_message 0]"
    by (simp add: restarted_sel(1) example_stored_facts(2))
  then have first: "log_first example_restarted ''events'' 0 = 0"
    by (simp add: log_first_def example_message_def)
  show ?thesis
    using fetch_messages_reads_log [OF restarted_ok [OF example_stored_facts(1,3,4)], of 5 "[]" 60 "''events''" 0 0]
    by (simp add: log first)
qed

end
