(* ===== verification/TopicRetention.thy ===== *)
theory TopicRetention
  imports TopicReads
begin

text \<open>
  Retention of topic messages, from \<open>kalamdb-publisher/src/service/retention.rs\<close>: deletion by age
  and by size, in chunks, with the lemmas on the loop that deletes by size. The theory
  \<open>TopicRetentionSpec\<close> states what the whole operation guarantees.
\<close>

section \<open>Definitions\<close>

datatype retention_read = AgeScan | BytesRead | ByteScan | EarliestRead

definition stats_zero :: deletion_stats where
  "stats_zero = \<lparr>messages_deleted = 0, bytes_freed = 0\<rparr>"

definition retention_chunk :: nat where
  "retention_chunk = 512"

type_synonym retention_entries = "(topic_retention_index_key \<times> retention_entry) list"

text \<open>Deleting entries chunk by chunk; \<open>oks\<close> is the outcome of the delete after so many messages.\<close>

function delete_retention_batch ::
    "(nat \<Rightarrow> bool) \<Rightarrow> topic_id \<Rightarrow> nat \<Rightarrow> retention_entries \<Rightarrow> deletion_stats \<Rightarrow> topic_service
      \<Rightarrow> (topic_error + deletion_stats) \<times> topic_service" where
  "delete_retention_batch oks t p entries stats s =
     (if entries = [] then (Inr stats, s)
      else
        (case delete_retention_entries (oks (messages_deleted stats)) (take retention_chunk entries) (ts_message_store s) of
           (Inl _, st) \<Rightarrow> (Inl StoreFailed, s\<lparr>ts_message_store := st\<rparr>)
         | (Inr deleted, st) \<Rightarrow>
             if messages_deleted deleted = 0 then (Inr stats, s\<lparr>ts_message_store := st\<rparr>)
             else
               (let rt = runtime_at s t p;
                    s1 = put_runtime t p (rt\<lparr>pr_write := subtract_retained_bytes (bytes_freed deleted) (pr_write rt)\<rparr>)
                           (s\<lparr>ts_message_store := st\<rparr>)
                in delete_retention_batch oks t p (drop retention_chunk entries)
                     \<lparr>messages_deleted = messages_deleted stats + messages_deleted deleted,
                      bytes_freed = bytes_freed stats + bytes_freed deleted\<rparr> s1)))"
  by pat_completeness auto
termination
  by (relation "measure (\<lambda>(oks, t, p, entries, stats, s). length entries)") (auto simp: retention_chunk_def)

declare delete_retention_batch.simps [simp del]

definition retained_bytes_without_blocking_publish ::
    "bool \<Rightarrow> topic_id \<Rightarrow> nat \<Rightarrow> topic_service \<Rightarrow> (topic_error + nat) \<times> topic_service" where
  "retained_bytes_without_blocking_publish ok t p s =
     (let rt = runtime_at s t p
      in case ws_retained_bytes (pr_write rt) of
           Some b \<Rightarrow> (Inr b, s)
         | None \<Rightarrow>
             if ok then
               (let b = retained_bytes_for_partition (ts_message_store s) t p
                in (Inr b, put_runtime t p (rt\<lparr>pr_write := set_retained_bytes b (pr_write rt)\<rparr>) s))
             else (Inl ReadFailed, s))"

text \<open>The entries taken until what remains fits.\<close>

fun select_entries :: "nat \<Rightarrow> nat \<Rightarrow> nat \<Rightarrow> retention_entries \<Rightarrow> retention_entries" where
  "select_entries retained max_bytes selected [] = []"
| "select_entries retained max_bytes selected (e # es) =
     (let selected1 = sat_add selected (re_message_bytes (snd e))
      in if retained - selected1 \<le> max_bytes then [e] else e # select_entries retained max_bytes selected1 es)"

lemma delete_retention_batch_progress:
  "delete_retention_batch oks t p entries stats s = (Inr stats', s') \<Longrightarrow> messages_deleted stats \<le> messages_deleted stats'"
proof (induction oks t p entries stats s rule: delete_retention_batch.induct)
  case (1 oks t p entries stats s)
  show ?case
  proof (cases "entries = []")
    case True
    with "1.prems" show ?thesis by (simp add: delete_retention_batch.simps)
  next
    case False
    obtain r st where del: "delete_retention_entries (oks (messages_deleted stats)) (take retention_chunk entries)
        (ts_message_store s) = (r, st)" by force
    show ?thesis
    proof (cases r)
      case (Inl err)
      with "1.prems" False del show ?thesis by (simp add: delete_retention_batch.simps [of oks t p entries])
    next
      case (Inr d)
      with "1.prems" False del show ?thesis
        using "1.IH" [OF False del [symmetric] Inr _ refl refl]
        by (auto simp: delete_retention_batch.simps [of oks t p entries] Let_def split: if_splits)
    qed
  qed
qed

function byte_retention ::
    "(nat \<Rightarrow> bool) \<Rightarrow> (retention_read \<Rightarrow> bool) \<Rightarrow> topic_id \<Rightarrow> nat \<Rightarrow> nat \<Rightarrow> nat \<Rightarrow> deletion_stats \<Rightarrow> topic_service
      \<Rightarrow> (topic_error + deletion_stats) \<times> topic_service" where
  "byte_retention oks rd t p batch_size max_bytes stats s =
     (if batch_size \<le> messages_deleted stats then (Inr stats, s)
      else
        (case retained_bytes_without_blocking_publish (rd BytesRead) t p s of
           (Inl err, s1) \<Rightarrow> (Inl err, s1)
         | (Inr retained, s1) \<Rightarrow>
             if retained \<le> max_bytes then (Inr stats, s1)
             else if \<not> rd ByteScan then (Inl ReadFailed, s1)
             else
               (let entries = retention_entries_for_partition (ts_message_store s1) t p (batch_size - messages_deleted stats);
                    rt = runtime_at s1 t p
                in if entries = []
                   then (Inr stats, put_runtime t p (rt\<lparr>pr_write := set_retained_bytes 0 (pr_write rt)\<rparr>) s1)
                   else
                     (case delete_retention_batch oks t p (select_entries retained max_bytes 0 entries) stats s1 of
                        (Inl err, s2) \<Rightarrow> (Inl err, s2)
                      | (Inr stats1, s2) \<Rightarrow>
                          if messages_deleted stats1 = messages_deleted stats then (Inr stats1, s2)
                          else byte_retention oks rd t p batch_size max_bytes stats1 s2))))"
  by pat_completeness auto
termination
  by (relation "measure (\<lambda>(oks, rd, t, p, batch_size, max_bytes, stats, s). batch_size - messages_deleted stats)")
    (auto dest!: delete_retention_batch_progress [OF sym])

declare byte_retention.simps [simp del]

definition age_retention ::
    "(nat \<Rightarrow> bool) \<Rightarrow> (retention_read \<Rightarrow> bool) \<Rightarrow> topic_id \<Rightarrow> nat \<Rightarrow> nat \<Rightarrow> int option \<Rightarrow> topic_service
      \<Rightarrow> (topic_error + deletion_stats) \<times> topic_service" where
  "age_retention oks rd t p batch_size cutoff s =
     (case cutoff of
        None \<Rightarrow> (Inr stats_zero, s)
      | Some c \<Rightarrow>
          if \<not> rd AgeScan then (Inl ReadFailed, s)
          else delete_retention_batch oks t p (retention_entries_before (ts_message_store s) t p c batch_size) stats_zero s)"

definition trim_after_retention ::
    "(retention_read \<Rightarrow> bool) \<Rightarrow> topic_id \<Rightarrow> nat \<Rightarrow> deletion_stats \<Rightarrow> topic_service
      \<Rightarrow> (topic_error + deletion_stats) \<times> topic_service" where
  "trim_after_retention rd t p stats s =
     (if messages_deleted stats = 0 then (Inr stats, s)
      else if \<not> rd EarliestRead then (Inl ReadFailed, s)
      else
        (let rt = runtime_at s t p;
             log_start = (case store_earliest_offset (ts_message_store s) t p of
                            Some off \<Rightarrow> off
                          | None \<Rightarrow> (case ws_next_offset (pr_write rt) of Some n \<Rightarrow> n | None \<Rightarrow> 0))
         in (Inr stats,
             put_runtime t p (rt\<lparr>pr_write := set_log_start log_start (pr_write rt), pr_tail := trim_below log_start (pr_tail rt)\<rparr>) s)))"

definition enforce_retention ::
    "(nat \<Rightarrow> bool) \<Rightarrow> (retention_read \<Rightarrow> bool) \<Rightarrow> topic \<Rightarrow> nat \<Rightarrow> int option \<Rightarrow> int option \<Rightarrow> nat \<Rightarrow> topic_service
      \<Rightarrow> (topic_error + deletion_stats) \<times> topic_service" where
  "enforce_retention oks rd tp p cutoff max_bytes batch_size s =
     (let t = tp_topic_id tp
      in if batch_size = 0 then (Inl BatchSizeZero, s)
         else if tp_partitions tp \<le> p then (Inl (PartitionOutside p (tp_partitions tp)), s)
         else
           (let s0 = put_runtime t p (runtime_at s t p) s
            in case age_retention oks rd t p batch_size cutoff s0 of
                 (Inl err, s1) \<Rightarrow> (Inl err, s1)
               | (Inr stats, s1) \<Rightarrow>
                   (case (case max_bytes of
                            None \<Rightarrow> (Inr stats, s1)
                          | Some mb \<Rightarrow> byte_retention oks rd t p batch_size (nat (max mb 0)) stats s1) of
                      (Inl err, s2) \<Rightarrow> (Inl err, s2)
                    | (Inr stats2, s2) \<Rightarrow> trim_after_retention rd t p stats2 s2)))"

section \<open>Scans of a time-ordered log\<close>

definition time_ordered :: "topic_message list \<Rightarrow> bool" where
  "time_ordered log = sorted (map tm_timestamp_ms log)"

definition index_entry :: "(topic_message \<Rightarrow> nat) \<Rightarrow> topic_message \<Rightarrow> topic_retention_index_key \<times> retention_entry" where
  "index_entry msize m = (retention_key (indexed msize m), indexed msize m)"

lemma retention_key_less:
  "ts \<le> ts' \<Longrightarrow> off < off' \<Longrightarrow> (t, p, ts, off) < ((t, p, ts', off') :: topic_retention_index_key)"
  by (simp add: less_prod_simp)

lemma log_keys_sorted:
  assumes "offsets_ascend log" "time_ordered log" "\<forall>m\<in>set log. tm_topic_id m = t \<and> tm_partition_id m = p"
  shows "sorted_wrt (<) (map (fst \<circ> index_entry msize) log)"
  using assms
proof (induction log)
  case (Cons m log)
  have less: "retention_key (indexed msize m) < retention_key (indexed msize x)" if "x \<in> set log" for x
  proof -
    have off: "tm_offset m < tm_offset x" "tm_timestamp_ms m \<le> tm_timestamp_ms x"
      using Cons.prems(1,2) that by (simp_all add: offsets_ascend_def time_ordered_def)
    have here: "tm_topic_id m = t" "tm_partition_id m = p" "tm_topic_id x = t" "tm_partition_id x = p"
      using Cons.prems(3) that by simp_all
    show ?thesis unfolding retention_key_indexed here by (rule retention_key_less [OF off(2,1)])
  qed
  have "offsets_ascend log" "time_ordered log" "\<forall>x\<in>set log. tm_topic_id x = t \<and> tm_partition_id x = p"
    using Cons.prems by (simp_all add: offsets_ascend_def time_ordered_def)
  then have "sorted_wrt (<) (map (fst \<circ> index_entry msize) log)"
    by (rule Cons.IH)
  moreover have "\<forall>y\<in>set (map (fst \<circ> index_entry msize) log). (fst \<circ> index_entry msize) m < y"
    using less unfolding index_entry_def comp_def set_map fst_conv by blast
  ultimately show ?case unfolding list.map sorted_wrt.simps by blast
qed simp

lemma scan_time_ordered:
  assumes wf: "store_wf msize st" and time: "time_ordered (partition_log st t p)"
  shows "scan_retention_entries st t p None = map (index_entry msize) (partition_log st t p)"
proof (rule bt_eqI)
  have "bt_wf (ms_retention st)" using wf by (simp add: store_wf_def)
  then show es: "bt_wf (scan_retention_entries st t p None)"
    by (simp add: scan_retention_entries_def)
  have here: "\<forall>m\<in>set (partition_log st t p). tm_topic_id m = t \<and> tm_partition_id m = p"
    using partition_log_messages [OF wf] by blast
  show log: "bt_wf (map (index_entry msize) (partition_log st t p))"
    using log_keys_sorted [OF partition_log_ascend [OF wf] time here, of msize] by (simp add: bt_wf_def comp_def)
  have "set (scan_retention_entries st t p None) = set (map (index_entry msize) (partition_log st t p))"
    by (simp add: scan_entries_set [OF wf] index_entry_def)
  then show "bt_get (scan_retention_entries st t p None) k = bt_get (map (index_entry msize) (partition_log st t p)) k" for k
    using bt_wf_get_iff [OF es, of k] bt_wf_get_iff [OF log, of k] by (metis not_None_eq)
qed

section \<open>Deleting a prefix\<close>

text \<open>
  \<open>trimmed env t p k s s'\<close>: the first \<open>k\<close> messages of the partition are gone from the store and
  its index, the byte counter was adjusted, and nothing else changed. The tail still holds them.
\<close>

definition log_bytes :: "publish_env \<Rightarrow> topic_message list \<Rightarrow> nat" where
  "log_bytes env ms = sum_list (map (pe_message_bytes env) ms)"

abbreviation counter :: "topic_service \<Rightarrow> topic_id \<Rightarrow> nat \<Rightarrow> nat option" where
  "counter s t p \<equiv> ws_retained_bytes (pr_write (runtime_at s t p))"

definition counter_low :: "publish_env \<Rightarrow> topic_service \<Rightarrow> topic_id \<Rightarrow> nat \<Rightarrow> bool" where
  "counter_low env s t p = (\<forall>b. counter s t p = Some b \<longrightarrow> b \<le> log_bytes env (service_log s t p))"

definition counter_exact :: "publish_env \<Rightarrow> topic_service \<Rightarrow> topic_id \<Rightarrow> nat \<Rightarrow> bool" where
  "counter_exact env s t p = (counter s t p = Some (log_bytes env (service_log s t p)))"

definition trimmed :: "publish_env \<Rightarrow> topic_id \<Rightarrow> nat \<Rightarrow> nat \<Rightarrow> topic_service \<Rightarrow> topic_service \<Rightarrow> bool" where
  "trimmed env t p k s s' =
     (store_wf (pe_message_bytes env) (ts_message_store s') \<and> k \<le> length (service_log s t p) \<and>
      (\<forall>t' p'. service_log s' t' p' =
         (if t' = t \<and> p' = p then drop k (service_log s t p) else service_log s t' p')) \<and>
      (\<forall>t' p'. (t', p') \<noteq> (t, p) \<longrightarrow> runtime_at s' t' p' = runtime_at s t' p') \<and>
      pr_tail (runtime_at s' t p) = pr_tail (runtime_at s t p) \<and>
      ws_next_offset (pr_write (runtime_at s' t p)) = ws_next_offset (pr_write (runtime_at s t p)) \<and>
      ws_log_start (pr_write (runtime_at s' t p)) = ws_log_start (pr_write (runtime_at s t p)) \<and>
      (counter_low env s t p \<longrightarrow> counter_low env s' t p) \<and>
      (counter_exact env s t p \<longrightarrow> counter_exact env s' t p))"

lemma trimmed_refl: "store_wf (pe_message_bytes env) (ts_message_store s) \<Longrightarrow> trimmed env t p 0 s s"
  by (simp add: trimmed_def)

lemma trimmed_trans:
  assumes "trimmed env t p k s s1" "trimmed env t p j s1 s2"
  shows "trimmed env t p (k + j) s s2"
  using assms unfolding trimmed_def by (auto simp: add.commute)

lemma trimmed_counter:
  assumes "store_wf (pe_message_bytes env) (ts_message_store s)"
    and "ws_next_offset w = ws_next_offset (pr_write (runtime_at s t p))"
    and "ws_log_start w = ws_log_start (pr_write (runtime_at s t p))"
    and "ws_retained_bytes w = Some b" "b \<le> log_bytes env (service_log s t p)"
    and "counter_exact env s t p \<Longrightarrow> b = log_bytes env (service_log s t p)"
  shows "trimmed env t p 0 s (put_runtime t p ((runtime_at s t p)\<lparr>pr_write := w\<rparr>) s)"
  using assms by (auto simp: trimmed_def counter_low_def counter_exact_def)

text \<open>Deleting the index entries of the first messages.\<close>

lemma log_member:
  assumes "store_wf msize st" "m \<in> set (partition_log st t p)"
  shows "bt_get (ms_messages st) (message_id m) = Some m" "tm_topic_id m = t" "tm_partition_id m = p"
  using partition_log_messages [OF assms(1)] assms(2) by blast+

lemma log_ids_distinct:
  assumes "store_wf msize st"
  shows "distinct (map message_id (partition_log st t p))"
proof -
  have "distinct (map tm_offset (partition_log st t p))"
    using partition_log_ascend [OF assms, of t p] by (simp add: offsets_ascend_def strict_sorted_iff)
  moreover have "map tm_offset ms = map (snd \<circ> snd) (map message_id ms)" for ms
    by (simp add: message_id_def comp_def)
  ultimately show ?thesis
    by (metis distinct_map)
qed

lemma fold_store_delete_log:
  assumes "store_wf msize st" "distinct (map message_id ms)" "\<forall>m\<in>set ms. bt_get (ms_messages st) (message_id m) = Some m"
  shows "partition_log (fold store_delete ms st) t p = filter (\<lambda>x. message_id x \<notin> message_id ` set ms) (partition_log st t p)"
  using assms
proof (induction ms arbitrary: st)
  case (Cons m ms)
  have "store_wf msize (store_delete m st)"
    using Cons.prems by (intro store_wf_delete) simp_all
  moreover have "\<forall>x\<in>set ms. bt_get (ms_messages (store_delete m st)) (message_id x) = Some x"
  proof
    fix x assume x: "x \<in> set ms"
    then have "message_id x \<noteq> message_id m"
      using Cons.prems(2) by (metis distinct.simps(2) image_eqI list.simps(9) set_map)
    then show "bt_get (ms_messages (store_delete m st)) (message_id x) = Some x"
      using Cons.prems(3) x by simp
  qed
  ultimately have "partition_log (fold store_delete (m # ms) st) t p =
      filter (\<lambda>x. message_id x \<notin> message_id ` set ms) (partition_log (store_delete m st) t p)"
    using Cons.IH [of "store_delete m st"] Cons.prems(2) by simp
  then show ?case
    unfolding partition_log_delete [OF Cons.prems(1)] by (simp add: conj_commute)
qed simp

lemma filter_drop_prefix:
  assumes "distinct (map f xs)"
  shows "filter (\<lambda>x. f x \<notin> f ` set (take k xs)) xs = drop k xs"
proof -
  have "\<forall>x\<in>set (drop k xs). f x \<notin> f ` set (take k xs)"
  proof (intro ballI notI)
    fix x assume x: "x \<in> set (drop k xs)" "f x \<in> f ` set (take k xs)"
    have "distinct (map f (take k xs) @ map f (drop k xs))"
      using assms by (metis append_take_drop_id map_append)
    with x show False by auto
  qed
  then have "filter (\<lambda>x. f x \<notin> f ` set (take k xs)) (take k xs @ drop k xs) = drop k xs"
    unfolding filter_append by (simp add: filter_empty_conv filter_id_conv)
  then show ?thesis by simp
qed

lemma delete_prefix:
  assumes wf: "store_wf msize st" and st': "st' = fold store_delete (take k (partition_log st t p)) st"
  shows "store_wf msize st'"
    and "partition_log st' t' p' = (if t' = t \<and> p' = p then drop k (partition_log st t p) else partition_log st t' p')"
proof -
  let ?log = "partition_log st t p"
  note mem = log_member [OF wf, of _ t p]
  have dist: "distinct (map message_id (take k ?log))"
    using log_ids_distinct [OF wf] by (metis distinct_take take_map)
  have stored: "\<forall>m\<in>set (take k ?log). bt_get (ms_messages st) (message_id m) = Some m"
    using mem(1) by (meson in_set_takeD)
  show "store_wf msize st'"
    unfolding st' by (rule store_wf_delete_all [OF wf dist stored])
  note log' = fold_store_delete_log [OF wf dist stored, folded st']
  show "partition_log st' t' p' = (if t' = t \<and> p' = p then drop k ?log else partition_log st t' p')"
  proof (cases "t' = t \<and> p' = p")
    case True
    then show ?thesis
      using filter_drop_prefix [OF log_ids_distinct [OF wf], of k t p] by (simp add: log')
  next
    case False
    have "\<forall>x\<in>set (partition_log st t' p'). message_id x \<notin> message_id ` set (take k ?log)"
    proof (intro ballI notI)
      fix x assume x: "x \<in> set (partition_log st t' p')" "message_id x \<in> message_id ` set (take k ?log)"
      then obtain y where "y \<in> set ?log" "message_id x = message_id y" by (auto dest: in_set_takeD)
      then have "tm_topic_id x = t \<and> tm_partition_id x = p"
        using mem(2,3) [of y] unfolding message_id_def by (metis prod.inject)
      with False log_member(2,3) [OF wf x(1)] show False by simp
    qed
    then show ?thesis
      unfolding log' if_not_P [OF False] by (simp add: filter_id_conv)
  qed
qed

lemma log_bytes_split: "log_bytes env log = log_bytes env (take k log) + log_bytes env (drop k log)"
  unfolding log_bytes_def by (metis append_take_drop_id map_append sum_list_append)

lemma subtract_retained_bytes_sel [simp]:
  "ws_next_offset (subtract_retained_bytes b w) = ws_next_offset w"
  "ws_log_start (subtract_retained_bytes b w) = ws_log_start w"
  by (simp_all add: subtract_retained_bytes_def)

lemma trimmed_chunk:
  assumes wf: "store_wf (pe_message_bytes env) (ts_message_store s)" and j: "j \<le> length (service_log s t p)"
    and s1: "s1 = put_runtime t p ((runtime_at s t p)\<lparr>pr_write :=
        subtract_retained_bytes (log_bytes env (take j (service_log s t p))) (pr_write (runtime_at s t p))\<rparr>)
      (s\<lparr>ts_message_store := fold store_delete (take j (service_log s t p)) (ts_message_store s)\<rparr>)"
  shows "trimmed env t p j s s1"
proof -
  note del = delete_prefix [OF wf refl, of j t p]
  note split = log_bytes_split [of env "service_log s t p" j]
  have log: "service_log s1 t p = drop j (service_log s t p)"
    by (simp add: s1 del(2))
  have c: "counter s1 t p =
      (if log_bytes env (take j (service_log s t p)) = 0 then counter s t p
       else Some (case counter s t p of None \<Rightarrow> 0 | Some r \<Rightarrow> r - log_bytes env (take j (service_log s t p))))"
    by (simp add: s1 subtract_retained_bytes_def)
  have "counter_low env s1 t p" if "counter_low env s t p"
    using that split unfolding counter_low_def log c by (auto split: option.splits)
  moreover have "counter_exact env s1 t p" if "counter_exact env s t p"
    using that split unfolding counter_exact_def log c by auto
  ultimately show ?thesis
    using del j by (simp add: trimmed_def s1)
qed

lemma delete_index_entries:
  "delete_retention_entries ok (map (index_entry (pe_message_bytes env)) ms) st =
     (if ok then (Inr \<lparr>messages_deleted = length ms, bytes_freed = log_bytes env ms\<rparr>, fold store_delete ms st)
      else (Inl BackendError, st))"
  unfolding log_bytes_def index_entry_def [abs_def] by (rule delete_entries_eq)

lemma delete_batch_trimmed:
  assumes "store_wf (pe_message_bytes env) (ts_message_store s)" "k \<le> length (service_log s t p)"
    and "delete_retention_batch oks t p (map (index_entry (pe_message_bytes env)) (take k (service_log s t p))) stats s = (Inr stats', s')"
  shows "trimmed env t p k s s' \<and> messages_deleted stats' = messages_deleted stats + k"
  using assms
proof (induction k arbitrary: stats s rule: less_induct)
  case (less k)
  let ?log = "service_log s t p" and ?f = "index_entry (pe_message_bytes env)"
  show ?case
  proof (cases "k = 0")
    case True
    then show ?thesis
      using less.prems by (simp add: delete_retention_batch.simps trimmed_refl)
  next
    case False
    define j where "j = min retention_chunk k"
    have j: "0 < j" "j \<le> k" "k - j < k" using False by (simp_all add: j_def retention_chunk_def)
    have chunk: "take retention_chunk (map ?f (take k ?log)) = map ?f (take j ?log)"
      by (simp add: take_map j_def)
    have rest: "drop retention_chunk (map ?f (take k ?log)) = map ?f (take (k - j) (drop j ?log))"
      by (cases "retention_chunk \<le> k") (simp_all add: drop_map drop_take j_def min_def)
    have nonempty: "map ?f (take k ?log) \<noteq> []"
      using False less.prems(2) by auto
    have len: "length (take j ?log) = j" using j less.prems(2) by simp
    define s1 where "s1 = put_runtime t p ((runtime_at s t p)\<lparr>pr_write :=
        subtract_retained_bytes (log_bytes env (take j ?log)) (pr_write (runtime_at s t p))\<rparr>)
      (s\<lparr>ts_message_store := fold store_delete (take j ?log) (ts_message_store s)\<rparr>)"
    have one: "trimmed env t p j s s1"
      using less.prems(1,2) j s1_def by (intro trimmed_chunk) simp_all
    have log1: "service_log s1 t p = drop j ?log" and wf1: "store_wf (pe_message_bytes env) (ts_message_store s1)"
      using one by (simp_all add: trimmed_def)
    define stats1 where "stats1 = \<lparr>messages_deleted = messages_deleted stats + j,
      bytes_freed = bytes_freed stats + log_bytes env (take j ?log)\<rparr>"
    have "delete_retention_batch oks t p (map ?f (take (k - j) (drop j ?log))) stats1 s1 = (Inr stats', s')"
      using less.prems(3) nonempty j(1)
      unfolding delete_retention_batch.simps [of oks t p "map ?f (take k ?log)" stats s] chunk rest delete_index_entries len
      by (auto simp: Let_def s1_def stats1_def split: if_splits)
    then have "delete_retention_batch oks t p (map ?f (take (k - j) (service_log s1 t p))) stats1 s1 = (Inr stats', s')"
      unfolding log1 .
    moreover have "k - j \<le> length (service_log s1 t p)"
      using less.prems(2) by (simp add: log1)
    ultimately have "trimmed env t p (k - j) s1 s' \<and> messages_deleted stats' = messages_deleted stats1 + (k - j)"
      by (intro less.IH [OF j(3) wf1])
    then show ?thesis
      using trimmed_trans [OF one] j(2) by (fastforce simp: stats1_def)
  qed
qed

section \<open>Retention by size\<close>

text \<open>A counter that is exact, or will be read from the index when it is first needed.\<close>

definition counter_sound :: "publish_env \<Rightarrow> topic_service \<Rightarrow> topic_id \<Rightarrow> nat \<Rightarrow> bool" where
  "counter_sound env s t p = (counter s t p = None \<or> counter_exact env s t p)"

lemma retained_bytes_read:
  assumes wf: "store_wf (pe_message_bytes env) (ts_message_store s)"
    and run: "retained_bytes_without_blocking_publish ok t p s = (Inr b, s1)"
  shows "trimmed env t p 0 s s1" "counter s1 t p = Some b"
    and "counter_sound env s t p \<Longrightarrow> counter_exact env s1 t p \<and> b = log_bytes env (service_log s t p)"
proof -
  have load: "retained_bytes_for_partition (ts_message_store s) t p = log_bytes env (service_log s t p)"
    by (simp add: retained_bytes_eq [OF wf] log_bytes_def)
  show "trimmed env t p 0 s s1"
    using run wf trimmed_refl [OF wf, of t p] trimmed_counter [OF wf, of "set_retained_bytes (log_bytes env (service_log s t p)) (pr_write (runtime_at s t p))" t p]
    by (auto simp: retained_bytes_without_blocking_publish_def Let_def load set_retained_bytes_def split: option.splits if_splits)
  show "counter s1 t p = Some b"
    using run by (auto simp: retained_bytes_without_blocking_publish_def Let_def set_retained_bytes_def split: option.splits if_splits)
  show "counter_sound env s t p \<Longrightarrow> counter_exact env s1 t p \<and> b = log_bytes env (service_log s t p)"
    using run by (auto simp: retained_bytes_without_blocking_publish_def Let_def set_retained_bytes_def load
        counter_sound_def counter_exact_def split: option.splits if_splits)
qed

lemma select_entries_prefix:
  assumes "ms \<noteq> []" "max_bytes < retained - selected" "selected + log_bytes env ms \<le> u64_max"
  shows "\<exists>i. 0 < i \<and> i \<le> length ms \<and>
    select_entries retained max_bytes selected (map (index_entry (pe_message_bytes env)) ms) =
      map (index_entry (pe_message_bytes env)) (take i ms) \<and>
    max_bytes < retained - (selected + log_bytes env (take (i - 1) ms))"
  using assms
proof (induction ms arbitrary: selected)
  case (Cons m ms)
  let ?b = "pe_message_bytes env m"
  have entry: "re_message_bytes (snd (index_entry (pe_message_bytes env) m)) = ?b"
    by (simp add: index_entry_def)
  have sum: "sat_add selected ?b = selected + ?b"
    using Cons.prems(3) by (simp add: sat_add_exact log_bytes_def)
  show ?case
  proof (cases "retained - (selected + ?b) \<le> max_bytes \<or> ms = []")
    case True
    then show ?thesis
      using Cons.prems(2) by (intro exI [of _ 1]) (auto simp: entry sum Let_def log_bytes_def)
  next
    case False
    then obtain i where "0 < i" "i \<le> length ms"
      "select_entries retained max_bytes (selected + ?b) (map (index_entry (pe_message_bytes env)) ms) =
        map (index_entry (pe_message_bytes env)) (take i ms)"
      "max_bytes < retained - (selected + ?b + log_bytes env (take (i - 1) ms))"
      using Cons.IH [of "selected + ?b"] Cons.prems(3) by (auto simp: log_bytes_def)
    with False show ?thesis
      by (intro exI [of _ "Suc i"]) (auto simp: entry sum Let_def log_bytes_def take_Cons' add.assoc)
  qed
qed simp

lemma scan_limited:
  assumes "store_wf msize st" "time_ordered (partition_log st t p)"
  shows "retention_entries_for_partition st t p n = map (index_entry msize) (take n (partition_log st t p))"
proof -
  have "retention_entries_for_partition st t p n = take n (scan_retention_entries st t p None)"
    by (simp add: retention_entries_for_partition_def scan_retention_entries_def)
  then show ?thesis by (simp add: scan_time_ordered [OF assms] take_map)
qed

lemma time_ordered_drop: "time_ordered log \<Longrightarrow> time_ordered (drop k log)"
  by (simp add: time_ordered_def drop_map [symmetric] sorted_wrt_drop)

lemma log_bytes_drop_le: "log_bytes env (drop k log) \<le> log_bytes env log"
  using log_bytes_split [of env log k] by simp

lemma log_bytes_take_le: "log_bytes env (take k log) \<le> log_bytes env log"
  using log_bytes_split [of env log k] by simp

text \<open>
  After the byte loop: a prefix of \<open>k\<close> messages is gone. With a sound counter the loop stops only
  when the rest fits or the batch is used up, and it never deletes a message beyond need.
\<close>

definition byte_post ::
    "publish_env \<Rightarrow> topic_id \<Rightarrow> nat \<Rightarrow> nat \<Rightarrow> nat \<Rightarrow> nat \<Rightarrow> topic_service \<Rightarrow> deletion_stats \<Rightarrow> topic_service \<Rightarrow> bool" where
  "byte_post env t p batch_size max_bytes before s stats' s' =
     (\<exists>k. trimmed env t p k s s' \<and> messages_deleted stats' = before + k \<and> (0 < k \<longrightarrow> before + k \<le> batch_size) \<and>
        (counter_sound env s t p \<longrightarrow>
           (before + k < batch_size \<longrightarrow> log_bytes env (drop k (service_log s t p)) \<le> max_bytes) \<and>
           (0 < k \<longrightarrow> max_bytes < log_bytes env (drop (k - 1) (service_log s t p)))))"

lemma byte_post_stop:
  assumes "trimmed env t p 0 s s'" "messages_deleted stats' = before"
    and "counter_sound env s t p \<Longrightarrow> before < batch_size \<Longrightarrow> log_bytes env (service_log s t p) \<le> max_bytes"
  shows "byte_post env t p batch_size max_bytes before s stats' s'"
  using assms unfolding byte_post_def by (intro exI [of _ 0]) auto

lemma byte_post_step:
  assumes read: "trimmed env t p 0 s s1" and cut: "trimmed env t p i s1 s2" and "0 < i" "before + i \<le> batch_size"
    and need: "counter_sound env s t p \<Longrightarrow> counter_exact env s1 t p \<and> max_bytes < log_bytes env (drop (i - 1) (service_log s t p))"
    and post: "byte_post env t p batch_size max_bytes (before + i) s2 stats' s'"
  shows "byte_post env t p batch_size max_bytes before s stats' s'"
proof -
  from post obtain k where k: "trimmed env t p k s2 s'" "messages_deleted stats' = before + i + k"
    "0 < k \<longrightarrow> before + i + k \<le> batch_size"
    "counter_sound env s2 t p \<longrightarrow>
       (before + i + k < batch_size \<longrightarrow> log_bytes env (drop k (service_log s2 t p)) \<le> max_bytes) \<and>
       (0 < k \<longrightarrow> max_bytes < log_bytes env (drop (k - 1) (service_log s2 t p)))"
    unfolding byte_post_def by blast
  have log: "service_log s1 t p = service_log s t p" "service_log s2 t p = drop i (service_log s t p)"
    using read cut by (simp_all add: trimmed_def)
  have all: "trimmed env t p (i + k) s s'"
    using trimmed_trans [OF trimmed_trans [OF read cut] k(1)] by (simp add: add.commute)
  have sound: "counter_sound env s2 t p" if "counter_sound env s t p"
    using need [OF that] cut by (simp add: trimmed_def counter_sound_def)
  show ?thesis
    unfolding byte_post_def
  proof (intro exI [of _ "i + k"] conjI impI)
    show "trimmed env t p (i + k) s s'" by (rule all)
    show "messages_deleted stats' = before + (i + k)" using k(2) by simp
    show "before + (i + k) \<le> batch_size" using k(3) assms(4) by (cases "k = 0") simp_all
    assume c: "counter_sound env s t p"
    show "log_bytes env (drop (i + k) (service_log s t p)) \<le> max_bytes" if "before + (i + k) < batch_size"
      using k(4) sound [OF c] that by (simp add: log(2) add.commute add.left_commute)
    show "max_bytes < log_bytes env (drop (i + k - 1) (service_log s t p))"
    proof (cases "k = 0")
      case True
      then show ?thesis using need [OF c] by simp
    next
      case False
      then have "max_bytes < log_bytes env (drop (k - 1) (drop i (service_log s t p)))"
        using k(4) sound [OF c] by (simp add: log(2))
      moreover have "k - 1 + i = i + k - 1" using False by simp
      ultimately show ?thesis by (simp add: drop_drop)
    qed
  qed
qed

text \<open>One round of the loop: it stops, or it deletes at least one message and goes on.\<close>

lemma byte_retention_round:
  assumes wf: "store_wf (pe_message_bytes env) (ts_message_store s)" and time: "time_ordered (service_log s t p)"
    and small: "log_bytes env (service_log s t p) \<le> u64_max" and more: "messages_deleted stats < batch_size"
    and run: "byte_retention oks rd t p batch_size max_bytes stats s = (Inr stats', s')"
  obtains (stop) "byte_post env t p batch_size max_bytes (messages_deleted stats) s stats' s'"
  | (cut) i s1 s2 stats2 where "trimmed env t p 0 s s1" "trimmed env t p i s1 s2" "0 < i" "messages_deleted stats + i \<le> batch_size"
      "messages_deleted stats2 = messages_deleted stats + i"
      "counter_sound env s t p \<longrightarrow> counter_exact env s1 t p \<and> max_bytes < log_bytes env (drop (i - 1) (service_log s t p))"
      "byte_retention oks rd t p batch_size max_bytes stats2 s2 = (Inr stats', s')"
proof -
  note unfold = byte_retention.simps [of oks rd t p batch_size max_bytes stats s]
  obtain retained s1 where read: "retained_bytes_without_blocking_publish (rd BytesRead) t p s = (Inr retained, s1)"
    using run more by (auto simp: unfold split: prod.splits sum.splits)
  note r = retained_bytes_read [OF wf read]
  have log1: "service_log s1 t p = service_log s t p" and wf1: "store_wf (pe_message_bytes env) (ts_message_store s1)"
    using r(1) by (simp_all add: trimmed_def)
  let ?ms = "take (batch_size - messages_deleted stats) (service_log s t p)"
  have scan: "retention_entries_for_partition (ts_message_store s1) t p (batch_size - messages_deleted stats) =
      map (index_entry (pe_message_bytes env)) ?ms"
    using scan_limited [OF wf1, of t p "batch_size - messages_deleted stats"] time by (simp add: log1)
  consider "retained \<le> max_bytes" | "max_bytes < retained" "?ms = []" | "max_bytes < retained" "?ms \<noteq> []" by linarith
  then show ?thesis
  proof cases
    case 1
    then have "byte_post env t p batch_size max_bytes (messages_deleted stats) s stats' s'"
      using run more read r by (intro byte_post_stop) (auto simp: unfold)
    then show ?thesis by (rule stop)
  next
    case 2
    then have empty: "service_log s t p = []" using more by simp
    have "trimmed env t p 0 s1 (put_runtime t p ((runtime_at s1 t p)\<lparr>pr_write := set_retained_bytes 0 (pr_write (runtime_at s1 t p))\<rparr>) s1)"
      using wf1 by (intro trimmed_counter) (simp_all add: set_retained_bytes_def log1 empty log_bytes_def)
    then have "trimmed env t p 0 s s'" "stats' = stats"
      using run more read 2(1) trimmed_trans [OF r(1)] by (auto simp: unfold scan empty Let_def split: if_splits)
    then have "byte_post env t p batch_size max_bytes (messages_deleted stats) s stats' s'"
      by (intro byte_post_stop) (simp_all add: empty log_bytes_def)
    then show ?thesis by (rule stop)
  next
    case 3
    have fits: "0 + log_bytes env ?ms \<le> u64_max" and over: "max_bytes < retained - 0"
      using order_trans [OF log_bytes_take_le small] 3(1) by simp_all
    obtain i where i: "0 < i" "i \<le> length ?ms"
      "select_entries retained max_bytes 0 (map (index_entry (pe_message_bytes env)) ?ms) =
        map (index_entry (pe_message_bytes env)) (take i ?ms)"
      "max_bytes < retained - (0 + log_bytes env (take (i - 1) ?ms))"
      using select_entries_prefix [OF 3(2) over fits] by blast
    have ilen: "i \<le> length (service_log s1 t p)" "i \<le> batch_size - messages_deleted stats"
      using i(2) by (simp_all add: log1)
    then have takes: "take i ?ms = take i (service_log s1 t p)" "take (i - 1) ?ms = take (i - 1) (service_log s t p)"
      by (simp_all add: log1 min_absorb1)
    note sel = i(3) [unfolded takes(1)]
    obtain stats2 s2 where del: "delete_retention_batch oks t p (map (index_entry (pe_message_bytes env))
        (take i (service_log s1 t p))) stats s1 = (Inr stats2, s2)"
      using run more read 3 unfolding unfold
      by (auto simp: scan sel Let_def split: prod.splits sum.splits if_splits)
    note cut' = delete_batch_trimmed [OF wf1 ilen(1) del]
    have next_round: "byte_retention oks rd t p batch_size max_bytes stats2 s2 = (Inr stats', s')"
      using run more read 3 i(1) del cut' unfolding unfold
      by (auto simp: scan sel Let_def split: if_splits)
    have "counter_sound env s t p \<longrightarrow> counter_exact env s1 t p \<and> max_bytes < log_bytes env (drop (i - 1) (service_log s t p))"
      using r(3) i(4) [unfolded takes(2)] log_bytes_split [of env "service_log s t p" "i - 1"] by auto
    then show ?thesis
      using cut' i(1) more ilen(2) next_round by (intro cut [OF r(1)]) auto
  qed
qed

lemma byte_retention_post:
  assumes "store_wf (pe_message_bytes env) (ts_message_store s)" "time_ordered (service_log s t p)"
    and "log_bytes env (service_log s t p) \<le> u64_max"
    and "byte_retention oks rd t p batch_size max_bytes stats s = (Inr stats', s')"
  shows "byte_post env t p batch_size max_bytes (messages_deleted stats) s stats' s'"
  using assms
proof (induction "batch_size - messages_deleted stats" arbitrary: stats s rule: less_induct)
  case less
  show ?case
  proof (cases "batch_size \<le> messages_deleted stats")
    case True
    then show ?thesis
      using less.prems by (intro byte_post_stop) (simp_all add: byte_retention.simps [of oks rd t p batch_size max_bytes stats s] trimmed_refl)
  next
    case False
    then have "messages_deleted stats < batch_size" by simp
    with less.prems(1-3) show ?thesis
      using less.prems(4)
    proof (cases rule: byte_retention_round)
      case (cut i s1 s2 stats2)
      have log2: "service_log s2 t p = drop i (service_log s t p)" and wf2: "store_wf (pe_message_bytes env) (ts_message_store s2)"
        using cut(1,2) by (simp_all add: trimmed_def)
      have "byte_post env t p batch_size max_bytes (messages_deleted stats2) s2 stats' s'"
        using less.prems(2) cut(3-5) False order_trans [OF log_bytes_drop_le less.prems(3)]
        by (intro less.hyps [OF _ wf2 _ _ cut(7)]) (simp_all add: log2 time_ordered_drop)
      then show ?thesis
        using cut(4-6) by (intro byte_post_step [OF cut(1-3)]) simp_all
    qed
  qed
qed

end
