(* ===== verification/TopicRetentionSpec.thy ===== *)
theory TopicRetentionSpec
  imports TopicRetention
begin

text \<open>
  What retention guarantees: on a log whose timestamps ascend with its offsets it removes a prefix,
  keeps the service invariant, and stops exactly when the limits are met or the batch is used up.
  The last section shows the byte counter that a restart leaves too small.
\<close>

section \<open>Retention by age and the whole operation\<close>

lemma takeWhile_map_take: "takeWhile P (map f (take n xs)) = map f (take (length (takeWhile (P \<circ> f) (take n xs))) xs)"
proof -
  have "takeWhile P (map f (take n xs)) = map f (takeWhile (P \<circ> f) (take n xs))"
    by (simp add: takeWhile_map)
  also have "takeWhile (P \<circ> f) (take n xs) = take (length (takeWhile (P \<circ> f) (take n xs))) (take n xs)"
    by (rule takeWhile_eq_take)
  also have "\<dots> = take (length (takeWhile (P \<circ> f) (take n xs))) xs"
    using length_takeWhile_le [of "P \<circ> f" "take n xs"] by (simp add: min_absorb1)
  finally show ?thesis .
qed

lemma sorted_takeWhile_rest:
  assumes "sorted (map f xs)" "x \<in> set (drop (length (takeWhile (\<lambda>y. f y < c) xs)) xs)"
  shows "c \<le> (f x :: int)"
proof -
  let ?k = "length (takeWhile (\<lambda>y. f y < c) xs)"
  obtain y ys where y: "drop ?k xs = y # ys" using assms(2) by (cases "drop ?k xs") auto
  then have "dropWhile (\<lambda>y. f y < c) xs = y # ys" by (simp add: dropWhile_eq_drop)
  then have "c \<le> f y" by (metis hd_dropWhile list.distinct(1) list.sel(1) not_less)
  moreover have "sorted (map f (drop ?k xs))"
    using assms(1) by (simp add: drop_map [symmetric] sorted_wrt_drop)
  ultimately show ?thesis using assms(2) unfolding y by auto
qed

definition age_count :: "int option \<Rightarrow> nat \<Rightarrow> topic_message list \<Rightarrow> nat" where
  "age_count cutoff n log =
     (case cutoff of None \<Rightarrow> 0 | Some c \<Rightarrow> length (takeWhile (\<lambda>m. tm_timestamp_ms m < c) (take n log)))"

lemma age_retention_trimmed:
  assumes "store_wf (pe_message_bytes env) (ts_message_store s)" "time_ordered (service_log s t p)"
    and "age_retention oks rd t p n cutoff s = (Inr stats, s')"
  shows "trimmed env t p (age_count cutoff n (service_log s t p)) s s' \<and>
    messages_deleted stats = age_count cutoff n (service_log s t p)"
proof (cases cutoff)
  case None
  then show ?thesis
    using assms by (auto simp: age_retention_def age_count_def stats_zero_def trimmed_refl)
next
  case (Some c)
  let ?log = "service_log s t p" and ?f = "index_entry (pe_message_bytes env)"
  have "retention_entries_before (ts_message_store s) t p c n =
      takeWhile (\<lambda>(k, e). re_timestamp_ms e < c) (map ?f (take n ?log))"
    using scan_limited [OF assms(1,2), of n] by (simp add: retention_entries_before_def retention_entries_for_partition_def)
  also have "\<dots> = map ?f (take (age_count cutoff n ?log) ?log)"
    unfolding takeWhile_map_take by (simp add: Some age_count_def comp_def index_entry_def)
  finally have "delete_retention_batch oks t p (map ?f (take (age_count cutoff n ?log) ?log)) stats_zero s = (Inr stats, s')"
    using assms(3) Some by (simp add: age_retention_def split: if_splits)
  moreover have "age_count cutoff n ?log \<le> length ?log"
    using length_takeWhile_le [of "\<lambda>m. tm_timestamp_ms m < c" "take n ?log"] by (simp add: Some age_count_def)
  ultimately show ?thesis
    using delete_batch_trimmed [OF assms(1)] by (fastforce simp: stats_zero_def)
qed

lemma filter_from_drop:
  assumes "offsets_ascend log" "drop k log = m # ms"
  shows "filter (\<lambda>x. tm_offset m \<le> tm_offset x) log = drop k log"
proof -
  have log: "log = take k log @ m # ms" using assms(2) by (metis append_take_drop_id)
  have "\<forall>x\<in>set (take k log). tm_offset x < tm_offset m" "\<forall>x\<in>set ms. tm_offset m < tm_offset x"
    using assms(1) by (subst (asm) log, simp add: offsets_ascend_def sorted_wrt_append)+
  then have "filter (\<lambda>x. tm_offset m \<le> tm_offset x) (take k log @ m # ms) = m # ms"
    by (auto simp: filter_empty_conv filter_id_conv less_imp_le)
  then show ?thesis using log assms(2) by simp
qed

text \<open>Trimming the tail and moving the log start restore the invariant after a deleted prefix.\<close>

lemma trim_restores_ok:
  assumes ok: "service_ok env s" and cut: "trimmed env t p k s s1" and "0 < k"
    and stats: "messages_deleted stats = k" and run: "trim_after_retention rd t p stats s1 = (Inr stats', s')"
  shows "service_ok env s' \<and> stats' = stats \<and> ts_message_store s' = ts_message_store s1"
proof -
  let ?log = "service_log s t p" and ?w = "pr_write (runtime_at s1 t p)"
  define ls where "ls = (case drop k ?log of [] \<Rightarrow> next_of ?w | m # _ \<Rightarrow> tm_offset m)"
  have log1: "service_log s1 t p = drop k ?log" and wf1: "store_wf (pe_message_bytes env) (ts_message_store s1)"
    and others: "\<And>t' p'. (t', p') \<noteq> (t, p) \<Longrightarrow> service_log s1 t' p' = service_log s t' p' \<and> runtime_at s1 t' p' = runtime_at s t' p'"
    and tail: "pr_tail (runtime_at s1 t p) = pr_tail (runtime_at s t p)"
    and low: "counter_low env s t p \<Longrightarrow> counter_low env s1 t p"
    and nxt: "next_of ?w = service_next s t p" "ws_log_start ?w = ws_log_start (pr_write (runtime_at s t p))"
    using cut by (auto simp: trimmed_def next_of_def)
  note part = service_okD(2) [OF ok, of t p, unfolded partition_ok_def]
  have s': "stats' = stats" "s' = put_runtime t p ((runtime_at s1 t p)\<lparr>pr_write := set_log_start ls ?w,
      pr_tail := trim_below ls (pr_tail (runtime_at s1 t p))\<rparr>) s1"
    using run assms(3) stats
    by (auto simp: trim_after_retention_def store_earliest_log [OF wf1] log1 ls_def next_of_def Let_def
        split: if_splits list.splits option.splits)
  have ls: "ls \<le> u64_max" "ls \<le> service_next s t p" "\<forall>m\<in>set (drop k ?log). ls \<le> tm_offset m"
    "filter (\<lambda>m. ls \<le> tm_offset m) ?log = drop k ?log"
  proof -
    have asc: "offsets_ascend ?log" using part by (simp add: tail_mirrors_def)
    show eq: "filter (\<lambda>m. ls \<le> tm_offset m) ?log = drop k ?log"
      using part filter_from_drop [OF asc, of k] by (auto simp: ls_def nxt(1) filter_empty_conv split: list.splits)
    show "\<forall>m\<in>set (drop k ?log). ls \<le> tm_offset m" unfolding eq [symmetric] by simp
    show le: "ls \<le> service_next s t p"
    proof (cases "drop k ?log")
      case (Cons m ms)
      then have "m \<in> set ?log" by (metis in_set_dropD list.set_intros(1))
      then show ?thesis using part by (simp add: ls_def Cons less_imp_le)
    qed (simp add: ls_def nxt(1))
    then show "ls \<le> u64_max" using part by simp
  qed
  have "partition_ok (pe_message_bytes env) (service_log s' t p) (runtime_at s' t p)"
    using part tail_mirrors_trim [of ?log "pr_tail (runtime_at s t p)" ls] ls low nxt
    by (auto simp: partition_ok_def s'(2) log1 tail set_log_start_def counter_low_def log_bytes_def next_of_def
        split: if_splits dest: in_set_dropD)
  then show ?thesis
    using ok others wf1 s' by (auto simp: service_ok_def)
qed

lemma age_count_facts:
  assumes "time_ordered log"
  shows "age_count cutoff n log \<le> n" "age_count cutoff n log \<le> length log"
    and "cutoff = Some c \<Longrightarrow> age_count cutoff n log < n \<Longrightarrow> m \<in> set (drop (age_count cutoff n log) log) \<Longrightarrow> c \<le> tm_timestamp_ms m"
    and "0 < age_count cutoff n log \<Longrightarrow>
      \<exists>c. cutoff = Some c \<and> tm_timestamp_ms (log ! (age_count cutoff n log - 1)) < c"
proof -
  have le: "age_count cutoff n log \<le> min n (length log)"
    using length_takeWhile_le [of _ "take n log"] by (auto simp: age_count_def min.commute split: option.splits)
  then show "age_count cutoff n log \<le> n" "age_count cutoff n log \<le> length log" by simp_all
  show "c \<le> tm_timestamp_ms m"
    if "cutoff = Some c" "age_count cutoff n log < n" "m \<in> set (drop (age_count cutoff n log) log)"
  proof -
    let ?P = "\<lambda>m. tm_timestamp_ms m < c"
    have "takeWhile ?P (take n log) = takeWhile ?P log"
    proof (cases "n < length log")
      case True
      then have "takeWhile ?P (take n log) \<noteq> take n log"
        using that(1,2) by (metis age_count_def length_take less_irrefl min.absorb4 option.simps(5))
      then obtain x where "x \<in> set (take n log)" "\<not> ?P x" by (metis takeWhile_eq_all_conv)
      then have "takeWhile ?P (take n log @ drop n log) = takeWhile ?P (take n log)"
        by (rule takeWhile_append1)
      then show ?thesis by simp
    qed simp
    then show ?thesis
      using that assms sorted_takeWhile_rest [of tm_timestamp_ms log m c] by (simp add: age_count_def time_ordered_def)
  qed
  show "\<exists>c. cutoff = Some c \<and> tm_timestamp_ms (log ! (age_count cutoff n log - 1)) < c" if pos: "0 < age_count cutoff n log"
  proof -
    obtain c where c: "cutoff = Some c" using pos by (cases cutoff) (simp_all add: age_count_def)
    let ?tw = "takeWhile (\<lambda>m. tm_timestamp_ms m < c) (take n log)"
    have k: "age_count cutoff n log = length ?tw" by (simp add: age_count_def c)
    have "?tw ! (length ?tw - 1) \<in> set ?tw" using pos k by (intro nth_mem) simp
    then have "tm_timestamp_ms (?tw ! (length ?tw - 1)) < c" using set_takeWhileD by fast
    moreover have "length ?tw - 1 < length ?tw" "length ?tw - 1 < n" using pos le k by linarith+
    then have "?tw ! (length ?tw - 1) = log ! (length ?tw - 1)"
      by (simp add: takeWhile_nth)
    ultimately show ?thesis unfolding k by (simp add: c)
  qed
qed

text \<open>The stages of a successful retention.\<close>

lemma enforce_retention_stages:
  assumes "enforce_retention oks rd tp p cutoff max_bytes n s = (Inr stats, s')" "t = tp_topic_id tp"
  obtains s1 stats1 s2 stats2 where "age_retention oks rd t p n cutoff (put_runtime t p (runtime_at s t p) s) = (Inr stats1, s1)"
    "case max_bytes of None \<Rightarrow> stats2 = stats1 \<and> s2 = s1
     | Some mb \<Rightarrow> byte_retention oks rd t p n (nat mb) stats1 s1 = (Inr stats2, s2)"
    "trim_after_retention rd t p stats2 s2 = (Inr stats, s')"
proof -
  have nat: "nat (max mb 0) = nat mb" for mb by (simp add: max_def)
  obtain s1 stats1 where age: "age_retention oks rd t p n cutoff (put_runtime t p (runtime_at s t p) s) = (Inr stats1, s1)"
    using assms by (auto simp: enforce_retention_def Let_def split: if_splits prod.splits sum.splits)
  obtain s2 stats2 where "case max_bytes of None \<Rightarrow> stats2 = stats1 \<and> s2 = s1
     | Some mb \<Rightarrow> byte_retention oks rd t p n (nat mb) stats1 s1 = (Inr stats2, s2)"
    "trim_after_retention rd t p stats2 s2 = (Inr stats, s')"
    using assms age by (cases max_bytes) (auto simp: enforce_retention_def Let_def nat split: if_splits prod.splits sum.splits)
  with age show ?thesis by (rule that)
qed

lemma trimmed_zero_ok:
  assumes "service_ok env s" "trimmed env t p 0 s s'"
  shows "service_ok env s'"
proof -
  have "partition_ok (pe_message_bytes env) (service_log s' t' p') (runtime_at s' t' p')" for t' p'
    using service_okD(2) [OF assms(1), of t' p'] assms(2)
    by (cases "t' = t \<and> p' = p") (auto simp: trimmed_def partition_ok_def next_of_def counter_low_def log_bytes_def)
  then show ?thesis using assms(2) by (simp add: service_ok_def trimmed_def)
qed

lemma retention_finish:
  assumes "service_ok env s" "trimmed env t p k s s1" "messages_deleted stats1 = k"
    and "trim_after_retention rd t p stats1 s1 = (Inr stats, s')"
  shows "service_ok env s' \<and> stats = stats1 \<and> ts_message_store s' = ts_message_store s1"
proof (cases "k = 0")
  case True
  then have "stats = stats1" "s' = s1" using assms(3,4) by (simp_all add: trim_after_retention_def)
  then show ?thesis using trimmed_zero_ok [OF assms(1)] assms(2) True by simp
next
  case False
  then show ?thesis using trim_restores_ok [OF assms(1,2) _ assms(3,4)] by simp
qed

text \<open>The byte stage in the terms of the whole log: \<open>k1\<close> messages were deleted by age before.\<close>

lemma byte_stage:
  assumes wf: "store_wf (pe_message_bytes env) (ts_message_store s1)" and cut: "trimmed env t p k1 s s1"
    and time: "time_ordered (service_log s t p)" and small: "log_bytes env (service_log s t p) \<le> u64_max"
    and k1: "messages_deleted stats1 = k1" "k1 \<le> n"
    and run: "case max_bytes of None \<Rightarrow> stats2 = stats1 \<and> s2 = s1
     | Some mb \<Rightarrow> byte_retention oks rd t p n (nat mb) stats1 s1 = (Inr stats2, s2)"
  obtains k2 where "trimmed env t p (k1 + k2) s s2" "messages_deleted stats2 = k1 + k2" "k1 + k2 \<le> n"
    "counter_exact env s t p \<longrightarrow> (\<forall>mb. max_bytes = Some mb \<longrightarrow> k1 + k2 < n \<longrightarrow> log_bytes env (drop (k1 + k2) (service_log s t p)) \<le> nat mb)"
    "counter_exact env s t p \<longrightarrow> 0 < k2 \<longrightarrow> (\<exists>mb. max_bytes = Some mb \<and> nat mb < log_bytes env (drop (k1 + k2 - 1) (service_log s t p)))"
proof (cases max_bytes)
  case None
  then show ?thesis using run cut k1 by (intro that [of 0]) simp_all
next
  case (Some mb)
  have log1: "service_log s1 t p = drop k1 (service_log s t p)" and
    sound: "counter_exact env s t p \<Longrightarrow> counter_sound env s1 t p"
    using cut by (simp_all add: trimmed_def counter_sound_def)
  have "byte_post env t p n (nat mb) (messages_deleted stats1) s1 stats2 s2"
    using run Some time small order_trans [OF log_bytes_drop_le small]
    by (intro byte_retention_post [OF wf]) (simp_all add: log1 time_ordered_drop)
  then obtain k2 where k2: "trimmed env t p k2 s1 s2" "messages_deleted stats2 = k1 + k2" "0 < k2 \<longrightarrow> k1 + k2 \<le> n"
    "counter_sound env s1 t p \<longrightarrow> (k1 + k2 < n \<longrightarrow> log_bytes env (drop k2 (drop k1 (service_log s t p))) \<le> nat mb) \<and>
       (0 < k2 \<longrightarrow> nat mb < log_bytes env (drop (k2 - 1) (drop k1 (service_log s t p))))"
    unfolding byte_post_def k1(1) log1 by blast
  have last: "0 < k2 \<Longrightarrow> k2 - 1 + k1 = k1 + k2 - 1" by simp
  show ?thesis
    using trimmed_trans [OF cut k2(1)] k2(2-4) sound k1(2) last
    by (intro that [of k2]) (auto simp: Some add.commute)
qed

section \<open>Retention ends\<close>

lemma delete_retention_batch_returns:
  assumes "\<forall>k. oks k"
  shows "\<exists>stats' s'. delete_retention_batch oks t p entries stats s = (Inr stats', s')"
proof (induction "length entries" arbitrary: entries stats s rule: less_induct)
  case less
  show ?case
  proof (cases "entries = []")
    case False
    then have shorter: "length (drop retention_chunk entries) < length entries" by (simp add: retention_chunk_def)
    show ?thesis
      unfolding delete_retention_batch.simps [of oks t p entries]
      using False assms less [OF shorter] by (simp add: delete_retention_entries_def Let_def)
  qed (simp add: delete_retention_batch.simps)
qed

lemma byte_retention_returns:
  assumes "\<forall>k. oks k" "\<forall>r. rd r"
  shows "\<exists>stats' s'. byte_retention oks rd t p n mb stats s = (Inr stats', s')"
proof (induction "n - messages_deleted stats" arbitrary: stats s rule: less_induct)
  case less
  obtain retained s1 where bytes: "retained_bytes_without_blocking_publish True t p s = (Inr retained, s1)"
    by (cases "counter s t p") (simp_all add: retained_bytes_without_blocking_publish_def Let_def)
  define chosen where "chosen = select_entries retained mb 0
    (retention_entries_for_partition (ts_message_store s1) t p (n - messages_deleted stats))"
  obtain stats1 s2 where del: "delete_retention_batch oks t p chosen stats s1 = (Inr stats1, s2)"
    using delete_retention_batch_returns [OF assms(1)] by blast
  note more = delete_retention_batch_progress [OF del]
  have "\<exists>stats' s'. byte_retention oks rd t p n mb stats1 s2 = (Inr stats', s')"
    if "messages_deleted stats < n" "messages_deleted stats1 \<noteq> messages_deleted stats"
    using less [of stats1 s2] that more by simp
  then show ?case
    unfolding byte_retention.simps [of oks rd t p n mb stats]
    using assms(2) bytes del by (auto simp: Let_def chosen_def [symmetric])
qed

lemma enforce_retention_total:
  assumes "\<forall>k. oks k" "\<forall>r. rd r" "0 < n" "p < tp_partitions tp"
  shows "\<exists>stats s'. enforce_retention oks rd tp p cutoff max_bytes n s = (Inr stats, s')"
proof -
  define t where "t = tp_topic_id tp"
  define s0 where "s0 = put_runtime t p (runtime_at s t p) s"
  obtain stats1 s1 where age: "age_retention oks rd t p n cutoff s0 = (Inr stats1, s1)"
    using delete_retention_batch_returns [OF assms(1), of t p _ stats_zero s0] assms(2)
    by (cases cutoff) (simp_all add: age_retention_def, blast)
  obtain stats2 s2 where size: "(case max_bytes of None \<Rightarrow> (Inr stats1, s1)
      | Some mb \<Rightarrow> byte_retention oks rd t p n (nat (max mb 0)) stats1 s1) = (Inr stats2, s2)"
    using byte_retention_returns [OF assms(1,2), of t p n _ stats1 s1] by (cases max_bytes) (simp_all, blast)
  show ?thesis
    unfolding enforce_retention_def t_def [symmetric] Let_def s0_def [symmetric] age
    using assms size by (auto simp: trim_after_retention_def Let_def)
qed

text \<open>
  C31: With a store that answers, retention always ends, from every state of the service. A batch size
  of zero and a partition the topic does not have are refused with the state unchanged; every other
  request succeeds: the loop that deletes by size stops after at most a batch of messages.
\<close>

theorem enforce_retention_returns:
  assumes "\<forall>k. oks k" "\<forall>r. rd r"
  shows "if n = 0 then enforce_retention oks rd tp p cutoff max_bytes n s = (Inl BatchSizeZero, s)
    else if p < tp_partitions tp then \<exists>stats s'. enforce_retention oks rd tp p cutoff max_bytes n s = (Inr stats, s')
    else enforce_retention oks rd tp p cutoff max_bytes n s = (Inl (PartitionOutside p (tp_partitions tp)), s)"
proof (cases "n = 0 \<or> tp_partitions tp \<le> p")
  case True
  then show ?thesis by (auto simp: enforce_retention_def Let_def)
next
  case False
  then show ?thesis using enforce_retention_total [OF assms, of n p tp cutoff max_bytes s] by simp
qed

theorem enforce_retention_returns_witness:
  "\<exists>stats s'. enforce_retention (\<lambda>_. True) (\<lambda>_. True) (example_topic ''events'') 0 (Some 10) (Some 0) 5 example_restarted = (Inr stats, s')"
  using enforce_retention_returns [of "\<lambda>_. True" "\<lambda>_. True" 5 "example_topic ''events''" 0 "Some 10" "Some 0" example_restarted]
  by (simp add: example_topic_def topic_new_def)

section \<open>Retention drops a prefix\<close>



section \<open>The byte counter after a restart\<close>

text \<open>
  After a restart the byte counter misses what was stored before. The first message published to
  a partition sets the counter to its own size although the partition also holds the old messages;
  a later retention then sees a partition that fits any limit above that size and deletes nothing.
\<close>

lemma restart_byte_counter_too_small:
  assumes "store_wf (pe_message_bytes env) ms" "\<forall>t p. partition_log ms t p \<noteq> [] \<longrightarrow> has_partition topics t p"
    and "\<forall>t p. \<forall>m\<in>set (partition_log ms t p). Suc (tm_offset m) < u64_max" "has_partition topics t p"
    and "payload_fits payload"
    and "s = restarted env (\<lambda>_ _. True) topics ms os timeout"
    and "publish_locked env True t p payload key ts u op s = (res, s')"
    and "m = new_with_user t p (service_next s t p) payload key ts u op" "0 < pe_message_bytes env m" "pe_message_bytes env m \<le> u64_max"
  shows "service_log s' t p = partition_log ms t p @ [m] \<and> counter s' t p = Some (pe_message_bytes env m) \<and>
    retained_bytes_for_partition (ts_message_store s') t p = log_bytes env (partition_log ms t p) + pe_message_bytes env m \<and>
    (tp_topic_id tp = t \<longrightarrow> p < tp_partitions tp \<longrightarrow> int (pe_message_bytes env m) \<le> mb \<longrightarrow> 0 < n \<longrightarrow>
       enforce_retention oks rd tp p None (Some mb) n s' = (Inr stats_zero, put_runtime t p (runtime_at s' t p) s'))"
proof -
  have bound: "\<forall>t p. \<forall>m\<in>set (partition_log ms t p). tm_offset m < u64_max" using assms(3) by (meson Suc_lessD)
  have ok: "service_ok env s"
    unfolding assms(6) by (rule restarted_ok [OF assms(1,2) bound])
  have log: "service_log s t p = partition_log ms t p" by (simp add: assms(6) restarted_sel(1))
  have rt: "runtime_at s t p = restored_runtime ms t p" by (simp add: assms(6) restarted_sel(3) assms(4))
  have none: "counter s t p = None"
    by (simp add: rt restored_runtime_def seed_def runtime_new_def write_state_default_def split: option.splits)
  have room: "service_next s t p + 1 \<le> u64_max"
    unfolding rt restored_partition_ok(2) [OF assms(1) bound [THEN spec, THEN spec]]
    using assms(3) [rule_format, OF last_in_set, of t p] by (auto simp: u64_max_def less_eq_Suc_le)
  have s': "s' = appended env t p [m] s"
    using assms(7) unfolding publish_locked_eq by (simp add: assms(8) group_messages_Cons)
  have app: "service_ok env s'" "service_log s' t p = service_log s t p @ [m]"
    unfolding s' using appended_ok(1,2) [OF ok, of "[m]" t p] room assms(5) by (simp_all add: assms(8))
  have counter: "counter s' t p = Some (pe_message_bytes env m)"
    using assms(9,10) by (simp add: s' appended_def Let_def add_retained_bytes_def none sat_add_exact)
  moreover have "retained_bytes_for_partition (ts_message_store s') t p = log_bytes env (partition_log ms t p) + pe_message_bytes env m"
    by (simp add: retained_bytes_eq [OF service_okD(1) [OF app(1)]] app(2) log log_bytes_def)
  moreover have "enforce_retention oks rd tp p None (Some mb) n s' = (Inr stats_zero, put_runtime t p (runtime_at s' t p) s')"
    if "tp_topic_id tp = t" "p < tp_partitions tp" "int (pe_message_bytes env m) \<le> mb" "0 < n"
    using that counter by (simp add: enforce_retention_def age_retention_def stats_zero_def nat_le_eq_zle le_nat_iff
        byte_retention.simps [of _ _ _ _ _ _ "\<lparr>messages_deleted = 0, bytes_freed = 0\<rparr>"]
        retained_bytes_without_blocking_publish_def trim_after_retention_def)
  ultimately show ?thesis using app(2) by (simp add: log)
qed

end
