(* ===== verification/TopicConsume.thy ===== *)
theory TopicConsume
  imports TopicReads
begin

text \<open>
  Consumer groups, from \<open>kalamdb-publisher/src/service/consume.rs\<close>: a fetch reserves a window of
  offsets for the group, loads it, and turns the reservation into a lease; acknowledgements commit
  offsets. A fetch holds the lock of its group and partition, but other operations of the service run
  between its steps, and it starts over when they leave it nothing to deliver. The loop is bounded by
  fuel: \<open>None\<close> means that it did not return within that many rounds.
\<close>

section \<open>Committed offsets\<close>

type_synonym group_partition = "topic_id \<times> consumer_group_id \<times> nat"

definition durable_last_acked ::
    "bool \<Rightarrow> topic_service \<Rightarrow> topic_id \<Rightarrow> consumer_group_id \<Rightarrow> nat \<Rightarrow> topic_error + nat option" where
  "durable_last_acked ok s t g p =
     (if ok then Inr (map_option to_last_acked_offset (get_offset (ts_offset_store s) t g p)) else Inl ReadFailed)"

definition group_fetch_start ::
    "bool \<Rightarrow> topic_service \<Rightarrow> topic_id \<Rightarrow> consumer_group_id \<Rightarrow> nat \<Rightarrow> nat \<Rightarrow> topic_error + nat" where
  "group_fetch_start ok s t g p start_offset =
     (case durable_last_acked ok s t g p of
        Inl err \<Rightarrow> Inl err
      | Inr (Some last_acked) \<Rightarrow> Inr (sat_add last_acked 1)
      | Inr None \<Rightarrow> Inr start_offset)"

definition put_claims :: "group_partition \<Rightarrow> claim_state \<Rightarrow> topic_service \<Rightarrow> topic_service" where
  "put_claims key st s = s\<lparr>ts_group_claim_state := (ts_group_claim_state s)(key \<mapsto> st)\<rparr>"

definition drop_claims :: "group_partition \<Rightarrow> topic_service \<Rightarrow> topic_service" where
  "drop_claims key s = s\<lparr>ts_group_claim_state := (ts_group_claim_state s)(key := None)\<rparr>"

definition ack_offset ::
    "bool \<Rightarrow> int \<Rightarrow> topic_id \<Rightarrow> consumer_group_id \<Rightarrow> nat \<Rightarrow> nat \<Rightarrow> topic_service \<Rightarrow> (topic_error + unit) \<times> topic_service" where
  "ack_offset ok now t g p off s =
     (if \<not> ok then (Inl StoreFailed, s)
      else
        (let s1 = s\<lparr>ts_offset_store := store_ack_offset now t g p off (ts_offset_store s)\<rparr>;
             st = (case ts_group_claim_state s1 (t, g, p) of Some st \<Rightarrow> st | None \<Rightarrow> claim_state_new (sat_add off 1))
         in (Inr (), put_claims (t, g, p) (ack_up_to off st) s1)))"

definition reset_group_offset ::
    "bool \<Rightarrow> int \<Rightarrow> topic_id \<Rightarrow> consumer_group_id \<Rightarrow> nat \<Rightarrow> nat \<Rightarrow> topic_service \<Rightarrow> (topic_error + unit) \<times> topic_service" where
  "reset_group_offset ok now t g p next_offset s =
     (if \<not> ok then (Inl StoreFailed, s)
      else
        (Inr (), put_claims (t, g, p) (claim_state_new next_offset)
           (s\<lparr>ts_offset_store := store_reset_offset now t g p next_offset (ts_offset_store s)\<rparr>)))"

definition service_group_offsets ::
    "bool \<Rightarrow> topic_service \<Rightarrow> topic_id \<Rightarrow> consumer_group_id \<Rightarrow> topic_error + topic_offset list" where
  "service_group_offsets ok s t g = (if ok then Inr (get_group_offsets (ts_offset_store s) t g) else Inl ReadFailed)"

section \<open>The group fetch\<close>

text \<open>
  What a fetch meets: the outcome of each storage read, the clock at each point where it is read, and
  what other threads do to the service between its locked sections, in each round of its loop.
\<close>

datatype clock_point = ExpireClock | ReserveClock | FinishClock | FinalizeClock

datatype switch_point = BeforeRound | BeforeLoad | BeforeFilter | BeforeFinish

record fetch_world =
  fw_reads :: "nat \<Rightarrow> read_point \<Rightarrow> bool"
  fw_clock :: "nat \<Rightarrow> clock_point \<Rightarrow> nat"
  fw_others :: "nat \<Rightarrow> switch_point \<Rightarrow> topic_service \<Rightarrow> topic_service"

text \<open>How a round ends, and what the reservation at its beginning gives.\<close>

datatype round_outcome = Return "topic_error + topic_message list" | Again

datatype reserve_outcome =
    Stop round_outcome
  | Reserved (rv_earliest: nat) (rv_start: nat) (rv_limit: nat) (rv_reservation_id: nat)

definition group_window ::
    "(read_point \<Rightarrow> bool) \<Rightarrow> (clock_point \<Rightarrow> nat) \<Rightarrow> topic_id \<Rightarrow> consumer_group_id \<Rightarrow> nat \<Rightarrow> nat \<Rightarrow> nat \<Rightarrow> claim_state
      \<Rightarrow> topic_service \<Rightarrow> reserve_outcome \<times> topic_service" where
  "group_window rd clk t g p limit earliest st s =
     (case next_available_window limit st of
        (current_start, window_limit) \<Rightarrow>
          if window_limit = 0 then (Stop (Return (Inr [])), put_claims (t, g, p) st s)
          else if current_start < earliest then (Stop Again, put_claims (t, g, p) (st\<lparr>cs_cursor := earliest\<rparr>) s)
          else
            (case log_high_watermark (rd ReadWatermark) s t p earliest of
               Inl err \<Rightarrow> (Stop (Return (Inl err)), put_claims (t, g, p) st s)
             | Inr high_watermark \<Rightarrow>
                 (let available_limit = min window_limit (high_watermark - current_start)
                  in if available_limit = 0 then
                       (Stop (Return (Inr [])),
                        if earliest < current_start then put_claims (t, g, p) (st\<lparr>cs_cursor := current_start\<rparr>) s
                        else if cs_pending st = [] then drop_claims (t, g, p) s
                        else put_claims (t, g, p) st s)
                     else
                       (case reserve_window current_start available_limit (clk ReserveClock) st of
                          (reservation_id, st') \<Rightarrow>
                            (Reserved earliest current_start available_limit reservation_id, put_claims (t, g, p) st' s)))))"

definition group_reserve ::
    "(read_point \<Rightarrow> bool) \<Rightarrow> (clock_point \<Rightarrow> nat) \<Rightarrow> topic_id \<Rightarrow> consumer_group_id \<Rightarrow> nat \<Rightarrow> nat \<Rightarrow> nat
      \<Rightarrow> topic_service \<Rightarrow> reserve_outcome \<times> topic_service" where
  "group_reserve rd clk t g p start_offset limit s =
     (case earliest_available_offset (rd ReadEarliest) s t p of
        Inl err \<Rightarrow> (Stop (Return (Inl err)), s)
      | Inr earliest \<Rightarrow>
          (case group_fetch_start (rd ReadStart) s t g p start_offset of
             Inl err \<Rightarrow> (Stop (Return (Inl err)), s)
           | Inr initial_start \<Rightarrow>
               (let st = (case ts_group_claim_state s (t, g, p) of Some st \<Rightarrow> st | None \<Rightarrow> claim_state_new initial_start);
                    st1 = expire_stale_claims (clk ExpireClock) (ts_visibility_timeout s) st
                in case durable_last_acked (rd ReadAcked) s t g p of
                     Inl err \<Rightarrow> (Stop (Return (Inl err)), put_claims (t, g, p) st1 s)
                   | Inr acked \<Rightarrow>
                       group_window rd clk t g p limit earliest
                         (case acked of Some last_acked \<Rightarrow> ack_up_to last_acked st1 | None \<Rightarrow> st1) s)))"

text \<open>An empty load: the reservation is cancelled, and the cursor pinned at the end of the log or the claim state dropped.\<close>

definition group_empty ::
    "(read_point \<Rightarrow> bool) \<Rightarrow> topic_id \<Rightarrow> consumer_group_id \<Rightarrow> nat \<Rightarrow> nat \<Rightarrow> nat \<Rightarrow> nat
      \<Rightarrow> topic_service \<Rightarrow> round_outcome \<times> topic_service" where
  "group_empty rd t g p earliest fetch_start reservation_id s =
     (case log_high_watermark (rd RecheckWatermark) s t p earliest of
        Inl err \<Rightarrow> (Return (Inl err), s)
      | Inr high_watermark \<Rightarrow>
          (Return (Inr []),
           case ts_group_claim_state s (t, g, p) of
             None \<Rightarrow> s
           | Some st \<Rightarrow>
               (let st1 = cancel_reservation reservation_id st
                in if high_watermark \<le> fetch_start \<and> earliest < fetch_start
                   then put_claims (t, g, p) (st1\<lparr>cs_cursor := fetch_start\<rparr>) s
                   else if cs_pending st1 = [] then drop_claims (t, g, p) s
                   else put_claims (t, g, p) st1 s)))"

definition group_finish ::
    "(read_point \<Rightarrow> bool) \<Rightarrow> (clock_point \<Rightarrow> nat) \<Rightarrow> topic_id \<Rightarrow> consumer_group_id \<Rightarrow> nat \<Rightarrow> nat \<Rightarrow> nat \<Rightarrow> nat option
      \<Rightarrow> topic_message list \<Rightarrow> topic_service \<Rightarrow> round_outcome \<times> topic_service" where
  "group_finish rd clk t g p start_offset reservation_id last_acked messages s =
     (case group_fetch_start (rd RecheckStart) s t g p start_offset of
        Inl err \<Rightarrow> (Return (Inl err), s)
      | Inr initial_start \<Rightarrow>
          (let st = (case ts_group_claim_state s (t, g, p) of
                       Some st \<Rightarrow> st | None \<Rightarrow> claim_state_new (max initial_start (after_ack last_acked)));
               st1 = expire_stale_claims (clk FinishClock) (ts_visibility_timeout s) st;
               out = filter (\<lambda>m. deliver_from last_acked st1 \<le> tm_offset m \<and>
                       \<not> (\<exists>c\<in>set (cs_pending st1). pc_reservation_id c \<noteq> reservation_id \<and> claims_offset c (tm_offset m)))
                       messages;
               claim_start = Min (set (map tm_offset out));
               end_exclusive = Max (set (map (\<lambda>m. sat_add (tm_offset m) 1) out))
           in if out = [] then (Again, put_claims (t, g, p) (cancel_reservation reservation_id st1) s)
              else if has_reservation reservation_id st1 then
                (Return (Inr out),
                 put_claims (t, g, p) (finalize_reservation reservation_id claim_start end_exclusive (clk FinalizeClock) st1) s)
              else if overlaps_pending claim_start end_exclusive st1 then (Again, put_claims (t, g, p) st1 s)
              else
                (Return (Inr out),
                 put_claims (t, g, p) (register_delivered_claim claim_start end_exclusive (clk FinishClock) st1) s)))"

definition group_deliver ::
    "(read_point \<Rightarrow> bool) \<Rightarrow> (clock_point \<Rightarrow> nat) \<Rightarrow> (switch_point \<Rightarrow> topic_service \<Rightarrow> topic_service)
      \<Rightarrow> topic_id \<Rightarrow> consumer_group_id \<Rightarrow> nat \<Rightarrow> nat \<Rightarrow> reserve_outcome \<Rightarrow> topic_service \<Rightarrow> round_outcome \<times> topic_service" where
  "group_deliver rd clk others t g p start_offset rv s =
     (let s1 = others BeforeLoad s
      in case load_messages (rd ReadMessages) s1 t p (rv_start rv) (rv_limit rv) of
           Inl err \<Rightarrow> (Return (Inl err), s1)
         | Inr messages \<Rightarrow>
             (let s2 = others BeforeFilter s1
              in if messages = [] then group_empty rd t g p (rv_earliest rv) (rv_start rv) (rv_reservation_id rv) s2
                 else
                   (case durable_last_acked (rd RecheckAcked) s2 t g p of
                      Inl err \<Rightarrow> (Return (Inl err), s2)
                    | Inr last_acked \<Rightarrow>
                        (let reserved_end = sat_add (rv_start rv) (rv_limit rv);
                             from = (case ts_group_claim_state s2 (t, g, p) of
                                       Some st \<Rightarrow> deliver_from last_acked st | None \<Rightarrow> after_ack last_acked);
                             window_start = max (rv_start rv) from;
                             kept = filter (\<lambda>m. window_start \<le> tm_offset m \<and> tm_offset m < reserved_end) messages
                         in if kept = [] then
                              (Again, s2\<lparr>ts_group_claim_state := (ts_group_claim_state s2)
                                 ((t, g, p) := map_option (cancel_reservation (rv_reservation_id rv)) (ts_group_claim_state s2 (t, g, p)))\<rparr>)
                            else group_finish rd clk t g p start_offset (rv_reservation_id rv) last_acked kept (others BeforeFinish s2)))))"

definition group_round ::
    "(read_point \<Rightarrow> bool) \<Rightarrow> (clock_point \<Rightarrow> nat) \<Rightarrow> (switch_point \<Rightarrow> topic_service \<Rightarrow> topic_service)
      \<Rightarrow> topic_id \<Rightarrow> consumer_group_id \<Rightarrow> nat \<Rightarrow> nat \<Rightarrow> nat \<Rightarrow> topic_service \<Rightarrow> round_outcome \<times> topic_service" where
  "group_round rd clk others t g p start_offset limit s =
     (case group_reserve rd clk t g p start_offset limit s of
        (Stop r, s1) \<Rightarrow> (r, s1)
      | (rv, s1) \<Rightarrow> group_deliver rd clk others t g p start_offset rv s1)"

fun group_loop ::
    "nat \<Rightarrow> fetch_world \<Rightarrow> nat \<Rightarrow> topic_id \<Rightarrow> consumer_group_id \<Rightarrow> nat \<Rightarrow> nat \<Rightarrow> nat \<Rightarrow> topic_service
      \<Rightarrow> ((topic_error + topic_message list) \<times> topic_service) option" where
  "group_loop 0 w i t g p start_offset limit s = None"
| "group_loop (Suc n) w i t g p start_offset limit s =
     (case group_round (fw_reads w i) (fw_clock w i) (fw_others w i) t g p start_offset limit (fw_others w i BeforeRound s) of
        (Return r, s1) \<Rightarrow> Some (r, s1)
      | (Again, s1) \<Rightarrow> group_loop n w (Suc i) t g p start_offset limit s1)"

definition fetch_messages_for_group ::
    "nat \<Rightarrow> fetch_world \<Rightarrow> topic_id \<Rightarrow> consumer_group_id \<Rightarrow> nat \<Rightarrow> nat \<Rightarrow> nat \<Rightarrow> topic_service
      \<Rightarrow> ((topic_error + topic_message list) \<times> topic_service) option" where
  "fetch_messages_for_group fuel w t g p start_offset limit s =
     (if limit = 0 then Some (Inr [], s) else group_loop fuel w 0 t g p start_offset limit s)"

section \<open>Leases\<close>

definition committed :: "topic_service \<Rightarrow> topic_id \<Rightarrow> consumer_group_id \<Rightarrow> nat \<Rightarrow> nat option" where
  "committed s t g p = map_option to_last_acked_offset (get_offset (ts_offset_store s) t g p)"

lemma durable_eq: "durable_last_acked ok s t g p = (if ok then Inr (committed s t g p) else Inl ReadFailed)"
  by (simp add: durable_last_acked_def committed_def)

lemma committed_cong: "ts_offset_store s' = ts_offset_store s \<Longrightarrow> committed s' t g p = committed s t g p"
  by (simp add: committed_def)

definition pending_at :: "topic_service \<Rightarrow> group_partition \<Rightarrow> pending_claim list" where
  "pending_at s key = (case ts_group_claim_state s key of None \<Rightarrow> [] | Some st \<Rightarrow> cs_pending st)"

definition next_id_at :: "topic_service \<Rightarrow> group_partition \<Rightarrow> nat" where
  "next_id_at s key = (case ts_group_claim_state s key of None \<Rightarrow> 1 | Some st \<Rightarrow> cs_next_reservation_id st)"

text \<open>
  A history of deliveries, each with the time its fetch began: every delivered offset is committed, or
  a pending claim no older than the delivery covers it, or its lease is over.
\<close>

definition leased :: "nat option \<Rightarrow> nat \<Rightarrow> nat \<Rightarrow> (nat \<times> nat) list \<Rightarrow> pending_claim list \<Rightarrow> bool" where
  "leased acked timeout now H cs =
     (\<forall>(since, off)\<in>set H. off < after_ack acked \<or> (\<exists>c\<in>set cs. claims_offset c off \<and> since \<le> pc_claimed_at c) \<or> since + timeout < now)"

definition ids_fresh :: "claim_state \<Rightarrow> bool" where
  "ids_fresh st = (\<forall>c\<in>set (cs_pending st). pc_reservation_id c < cs_next_reservation_id st)"

definition group_inv :: "nat \<Rightarrow> (nat \<times> nat) list \<Rightarrow> topic_id \<Rightarrow> consumer_group_id \<Rightarrow> nat \<Rightarrow> topic_service \<Rightarrow> bool" where
  "group_inv now H t g p s =
     ((\<forall>c\<in>set (pending_at s (t, g, p)). pc_reservation_id c < next_id_at s (t, g, p)) \<and>
      leased (committed s t g p) (ts_visibility_timeout s) now H (pending_at s (t, g, p)))"

definition same_group :: "topic_id \<Rightarrow> consumer_group_id \<Rightarrow> nat \<Rightarrow> topic_service \<Rightarrow> topic_service \<Rightarrow> bool" where
  "same_group t g p s s' =
     (ts_group_claim_state s' (t, g, p) = ts_group_claim_state s (t, g, p) \<and> committed s' t g p = committed s t g p \<and>
      ts_visibility_timeout s' = ts_visibility_timeout s)"

fun delivered :: "round_outcome \<Rightarrow> topic_message list" where
  "delivered (Return (Inr ms)) = ms"
| "delivered _ = []"

lemma leasedD:
  assumes "leased a T now H cs" "(since, off) \<in> set H"
  obtains "off < after_ack a" | c where "c \<in> set cs" "claims_offset c off" "since \<le> pc_claimed_at c" | "since + T < now"
  using assms unfolding leased_def by blast

lemma leasedI:
  assumes "\<And>since off. (since, off) \<in> set H \<Longrightarrow> now \<le> since + T \<Longrightarrow> after_ack a \<le> off \<Longrightarrow>
    \<exists>c\<in>set cs. claims_offset c off \<and> since \<le> pc_claimed_at c"
  shows "leased a T now H cs"
  unfolding leased_def using assms by fastforce

lemma leased_later: "leased a T now H cs \<Longrightarrow> now \<le> now' \<Longrightarrow> set cs \<subseteq> set cs' \<Longrightarrow> leased a T now' H cs'"
  unfolding leased_def by fastforce

lemma expire_pending: "cs_pending (expire_stale_claims now T st) = filter (\<lambda>c. \<not> stale now T c) (cs_pending st)"
  by (simp add: expire_stale_claims_def Let_def split: option.splits)

lemma expire_sel [simp]:
  "cs_next_reservation_id (expire_stale_claims now T st) = cs_next_reservation_id st"
  "cs_last_acked (expire_stale_claims now T st) = cs_last_acked st"
  by (simp_all add: expire_stale_claims_def Let_def split: option.splits)

lemma ack_sel [simp]:
  "cs_next_reservation_id (ack_up_to off st) = cs_next_reservation_id st"
  "cs_pending (ack_up_to off st) = List.map_filter (ack_claim (sat_add off 1)) (cs_pending st)"
  by (simp_all add: ack_up_to_def Let_def)

lemma leased_expire:
  assumes "leased a T now H (cs_pending st)" "clk \<le> now"
  shows "leased a T now H (cs_pending (expire_stale_claims clk T st))"
proof (rule leasedI)
  fix since off
  assume H: "(since, off) \<in> set H" and open_lease: "now \<le> since + T" "after_ack a \<le> off"
  then obtain c where c: "c \<in> set (cs_pending st)" "claims_offset c off" "since \<le> pc_claimed_at c"
    by (auto elim: leasedD [OF assms(1)])
  moreover have "\<not> stale clk T c" using c(3) open_lease(1) assms(2) by (auto simp: stale_def)
  ultimately show "\<exists>c\<in>set (cs_pending (expire_stale_claims clk T st)). claims_offset c off \<and> since \<le> pc_claimed_at c"
    by (auto simp: expire_pending)
qed

lemma in_map_filter: "y \<in> set (List.map_filter f xs) \<longleftrightarrow> (\<exists>x\<in>set xs. f x = Some y)"
  by (induction xs) (auto simp: List.map_filter_simps split: option.splits)

lemma ack_claim_Some: "ack_claim nxt c = Some d \<Longrightarrow> pc_reservation_id d = pc_reservation_id c \<and> pc_claimed_at d = pc_claimed_at c"
  by (auto simp: ack_claim_def split: if_splits)

lemma ack_claim_keeps: "nxt \<le> off \<Longrightarrow> claims_offset c off \<Longrightarrow> \<exists>d. ack_claim nxt c = Some d \<and> claims_offset d off"
  by (auto simp: ack_claim_def claims_offset_def)

lemma leased_ack:
  assumes "leased a T now H (cs_pending st)" "sat_add off 1 \<le> after_ack a'" "after_ack a \<le> after_ack a'"
  shows "leased a' T now H (cs_pending (ack_up_to off st))"
proof (rule leasedI)
  fix since o'
  assume H: "(since, o') \<in> set H" and open_lease: "now \<le> since + T" "after_ack a' \<le> o'"
  then obtain c where c: "c \<in> set (cs_pending st)" "claims_offset c o'" "since \<le> pc_claimed_at c"
    using assms(3) by (auto elim: leasedD [OF assms(1)])
  obtain d where d: "ack_claim (sat_add off 1) c = Some d" "claims_offset d o'"
    using ack_claim_keeps [OF order_trans [OF assms(2) open_lease(2)] c(2)] by blast
  then have "d \<in> set (cs_pending (ack_up_to off st))" "since \<le> pc_claimed_at d"
    using c(1,3) ack_claim_Some [OF d(1)] by (auto simp: in_map_filter)
  with d(2) show "\<exists>c\<in>set (cs_pending (ack_up_to off st)). claims_offset c o' \<and> since \<le> pc_claimed_at c" by blast
qed

lemma ids_fresh_expire: "ids_fresh st \<Longrightarrow> ids_fresh (expire_stale_claims clk T st)"
  by (simp add: ids_fresh_def expire_pending)

lemma ids_fresh_ack: "ids_fresh st \<Longrightarrow> ids_fresh (ack_up_to off st)"
  by (auto simp: ids_fresh_def in_map_filter dest!: ack_claim_Some)

section \<open>One round keeps the leases\<close>

lemma put_claims_sel [simp]:
  "ts_group_claim_state (put_claims key st s) = (ts_group_claim_state s)(key \<mapsto> st)"
  "ts_offset_store (put_claims key st s) = ts_offset_store s" "ts_visibility_timeout (put_claims key st s) = ts_visibility_timeout s"
  "ts_message_store (put_claims key st s) = ts_message_store s" "ts_partitions (put_claims key st s) = ts_partitions s"
  "committed (put_claims key st s) = committed s"
  by (simp_all add: put_claims_def committed_def fun_eq_iff)

lemma drop_claims_sel [simp]:
  "ts_group_claim_state (drop_claims key s) = (ts_group_claim_state s)(key := None)"
  "ts_offset_store (drop_claims key s) = ts_offset_store s" "ts_visibility_timeout (drop_claims key s) = ts_visibility_timeout s"
  "ts_message_store (drop_claims key s) = ts_message_store s" "ts_partitions (drop_claims key s) = ts_partitions s"
  "committed (drop_claims key s) = committed s"
  by (simp_all add: drop_claims_def committed_def fun_eq_iff)

definition round_post ::
    "nat \<Rightarrow> nat \<Rightarrow> (nat \<times> nat) list \<Rightarrow> topic_id \<Rightarrow> consumer_group_id \<Rightarrow> nat \<Rightarrow> topic_service
      \<Rightarrow> topic_message list \<Rightarrow> topic_service \<Rightarrow> bool" where
  "round_post since now H t g p s ms s' =
     (committed s' t g p = committed s t g p \<and> ts_visibility_timeout s' = ts_visibility_timeout s \<and>
      next_id_at s' (t, g, p) \<le> next_id_at s (t, g, p) + 1 \<and>
      group_inv now (map (\<lambda>m. (since, tm_offset m)) ms @ H) t g p s' \<and>
      (\<forall>m\<in>set ms. after_ack (committed s t g p) \<le> tm_offset m \<and>
         (\<forall>earlier. (earlier, tm_offset m) \<in> set H \<longrightarrow> earlier + ts_visibility_timeout s < now)))"

text \<open>The claim state \<open>st\<close> may be put back (or dropped when nothing is pending) without a delivery.\<close>

definition claims_kept :: "nat \<Rightarrow> (nat \<times> nat) list \<Rightarrow> topic_id \<Rightarrow> consumer_group_id \<Rightarrow> nat \<Rightarrow> topic_service \<Rightarrow> claim_state \<Rightarrow> bool" where
  "claims_kept now H t g p s st =
     (ids_fresh st \<and> leased (committed s t g p) (ts_visibility_timeout s) now H (cs_pending st) \<and>
      cs_next_reservation_id st = next_id_at s (t, g, p))"

lemma put_claims_post:
  assumes "ids_fresh st" "leased (committed s t g p) (ts_visibility_timeout s) now H (cs_pending st)"
    and "cs_next_reservation_id st \<le> next_id_at s (t, g, p) + 1"
    and "committed s' t g p = committed s t g p" "ts_visibility_timeout s' = ts_visibility_timeout s"
  shows "round_post since now H t g p s [] (put_claims (t, g, p) st s')"
  using assms by (simp add: round_post_def group_inv_def pending_at_def next_id_at_def ids_fresh_def)

lemma kept_post:
  assumes "claims_kept now H t g p s st"
  shows "round_post since now H t g p s [] (put_claims (t, g, p) st s)"
    and "round_post since now H t g p s [] (put_claims (t, g, p) (st\<lparr>cs_cursor := x\<rparr>) s)"
    and "cs_pending st = [] \<Longrightarrow> round_post since now H t g p s [] (drop_claims (t, g, p) s)"
proof -
  show "round_post since now H t g p s [] (put_claims (t, g, p) st s)"
    "round_post since now H t g p s [] (put_claims (t, g, p) (st\<lparr>cs_cursor := x\<rparr>) s)"
    using assms by (auto intro!: put_claims_post simp: claims_kept_def ids_fresh_def)
  show "round_post since now H t g p s [] (drop_claims (t, g, p) s)" if "cs_pending st = []"
    using assms that by (simp add: round_post_def group_inv_def pending_at_def next_id_at_def claims_kept_def)
qed

lemma group_inv_kept:
  assumes "group_inv since H t g p s" "since \<le> now"
    and "st = (case ts_group_claim_state s (t, g, p) of Some st \<Rightarrow> st | None \<Rightarrow> claim_state_new start)"
  shows "claims_kept now H t g p s st"
proof -
  have "cs_pending st = pending_at s (t, g, p)" "cs_next_reservation_id st = next_id_at s (t, g, p)"
    by (simp_all add: assms(3) pending_at_def next_id_at_def claim_state_new_def split: option.splits)
  then show ?thesis
    using assms(1) leased_later [OF _ assms(2) order_refl] by (simp add: claims_kept_def group_inv_def ids_fresh_def)
qed

lemma claims_kept_expire:
  assumes "claims_kept now H t g p s st" "clk \<le> now"
  shows "claims_kept now H t g p s (expire_stale_claims clk (ts_visibility_timeout s) st)"
  using assms by (simp add: claims_kept_def ids_fresh_expire leased_expire)

lemma claims_kept_ack:
  assumes "claims_kept now H t g p s st" "committed s t g p = Some off"
  shows "claims_kept now H t g p s (ack_up_to off st)"
  using assms(1) leased_ack [of "Some off" _ _ _ st off "Some off"] unfolding claims_kept_def assms(2)
  by (simp add: ids_fresh_ack after_ack_def)

text \<open>The claim state with the new reservation of a round.\<close>

definition reserved_state :: "nat \<Rightarrow> nat \<Rightarrow> nat \<Rightarrow> claim_state \<Rightarrow> claim_state" where
  "reserved_state start n clk st = snd (reserve_window start n clk st)"

lemma group_window_post:
  assumes kept: "claims_kept now H t g p s st"
  shows "group_window rd clk t g p limit earliest st s = (Stop r, s') \<Longrightarrow> delivered r = [] \<and> round_post since now H t g p s [] s'"
    and "group_window rd clk t g p limit earliest st s = (Reserved e start n rid, s') \<Longrightarrow>
      rid = cs_next_reservation_id st \<and> s' = put_claims (t, g, p) (reserved_state start n (clk ReserveClock) st) s"
proof -
  obtain start' n' where w: "next_available_window limit st = (start', n')" by force
  show "group_window rd clk t g p limit earliest st s = (Stop r, s') \<Longrightarrow> delivered r = [] \<and> round_post since now H t g p s [] s'"
    unfolding group_window_def w
    by (auto simp: Let_def kept_post [OF kept] split: if_splits sum.splits prod.splits)
  show "group_window rd clk t g p limit earliest st s = (Reserved e start n rid, s') \<Longrightarrow>
      rid = cs_next_reservation_id st \<and> s' = put_claims (t, g, p) (reserved_state start n (clk ReserveClock) st) s"
    unfolding group_window_def w
    by (auto simp: Let_def reserved_state_def reserve_window_def split: if_splits sum.splits)
qed

lemma group_reserve_post:
  assumes "group_inv since H t g p s" "since \<le> now" "clk ExpireClock \<le> now"
    and "group_reserve rd clk t g p start_offset limit s = (rv, s')"
  obtains (stop) r where "rv = Stop r" "delivered r = []" "round_post since now H t g p s [] s'"
  | (reserved) st e start n where "claims_kept now H t g p s st" "rv = Reserved e start n (cs_next_reservation_id st)"
    "s' = put_claims (t, g, p) (reserved_state start n (clk ReserveClock) st) s"
proof -
  consider (early) err where "rv = Stop (Return (Inl err))" "s' = s"
    | (unread) start err where "rv = Stop (Return (Inl err))"
        "s' = put_claims (t, g, p) (expire_stale_claims (clk ExpireClock) (ts_visibility_timeout s)
          (case ts_group_claim_state s (t, g, p) of Some st \<Rightarrow> st | None \<Rightarrow> claim_state_new start)) s"
    | (window) start earliest where
        "group_window rd clk t g p limit earliest
          (let st1 = expire_stale_claims (clk ExpireClock) (ts_visibility_timeout s)
             (case ts_group_claim_state s (t, g, p) of Some st \<Rightarrow> st | None \<Rightarrow> claim_state_new start)
           in case committed s t g p of Some last_acked \<Rightarrow> ack_up_to last_acked st1 | None \<Rightarrow> st1) s = (rv, s')"
    using assms(4) by (auto simp: group_reserve_def durable_eq Let_def split: sum.splits if_splits)
  then show ?thesis
  proof cases
    case early
    have "round_post since now H t g p s [] s"
      using assms(1,2) leased_later [OF _ assms(2) order_refl] by (auto simp: round_post_def group_inv_def)
    with early(2) show ?thesis by (intro stop [OF early(1)]) simp_all
  next
    case unread
    show ?thesis
      using kept_post(1) [OF claims_kept_expire [OF group_inv_kept [OF assms(1,2) refl] assms(3)]] unread(2)
      by (intro stop [OF unread(1)]) simp_all
  next
    case window
    define st where "st = (let st1 = expire_stale_claims (clk ExpireClock) (ts_visibility_timeout s)
             (case ts_group_claim_state s (t, g, p) of Some st \<Rightarrow> st | None \<Rightarrow> claim_state_new start)
           in case committed s t g p of Some last_acked \<Rightarrow> ack_up_to last_acked st1 | None \<Rightarrow> st1)"
    have kept: "claims_kept now H t g p s st"
      using claims_kept_expire [OF group_inv_kept [OF assms(1,2) refl] assms(3)] claims_kept_ack
      by (cases "committed s t g p") (simp_all add: st_def Let_def)
    show ?thesis
    proof (cases rv)
      case (Stop r)
      show ?thesis using group_window_post(1) [OF kept window [folded st_def, unfolded Stop]] by (intro stop [OF Stop]) blast+
    next
      case (Reserved e start n rid)
      show ?thesis using group_window_post(2) [OF kept window [folded st_def, unfolded Reserved]] Reserved
        by (intro reserved [OF kept]) simp_all
    qed
  qed
qed

lemma reserved_state_sel [simp]:
  "cs_pending (reserved_state start n clk st) = cs_pending st @
     [\<lparr>pc_reservation_id = cs_next_reservation_id st, pc_start = start, pc_end = sat_add start n,
       pc_claimed_at = clk, pc_in_flight = True\<rparr>]"
  "cs_next_reservation_id (reserved_state start n clk st) = sat_add (cs_next_reservation_id st) 1"
  by (simp_all add: reserved_state_def reserve_window_def Let_def)

lemma finalize_first_last:
  "\<forall>c\<in>set cs. pc_reservation_id c \<noteq> pc_reservation_id r \<Longrightarrow>
     finalize_first (pc_reservation_id r) start ende now (cs @ [r]) =
       cs @ [r\<lparr>pc_start := start, pc_end := ende, pc_in_flight := False, pc_claimed_at := now\<rparr>]"
  by (induction cs) auto

lemma advance_sel [simp]:
  "cs_pending (advance_cursor_for_contiguous_claim a b st) = cs_pending st"
  "cs_next_reservation_id (advance_cursor_for_contiguous_claim a b st) = cs_next_reservation_id st"
  "cs_last_acked (advance_cursor_for_contiguous_claim a b st) = cs_last_acked st"
  by (simp_all add: advance_cursor_for_contiguous_claim_def)

text \<open>Taking the reservation back leaves the claims as they were before it.\<close>

lemma cancel_reserved:
  assumes "claims_kept now H t g p s st" "cs_next_reservation_id st < u64_max"
    and same: "committed s' t g p = committed s t g p" "ts_visibility_timeout s' = ts_visibility_timeout s"
  shows "cs_pending (cancel_reservation (cs_next_reservation_id st) (reserved_state start n clk st)) = cs_pending st"
    and "round_post since now H t g p s [] (put_claims (t, g, p) (cancel_reservation (cs_next_reservation_id st) (reserved_state start n clk st)) s')"
    and "round_post since now H t g p s []
      (put_claims (t, g, p) ((cancel_reservation (cs_next_reservation_id st) (reserved_state start n clk st))\<lparr>cs_cursor := x\<rparr>) s')"
proof -
  let ?st = "cancel_reservation (cs_next_reservation_id st) (reserved_state start n clk st)"
  have fresh: "\<forall>c\<in>set (cs_pending st). pc_reservation_id c < cs_next_reservation_id st"
    using assms(1) by (auto simp: claims_kept_def ids_fresh_def)
  then show pend: "cs_pending ?st = cs_pending st"
    by (auto simp: cancel_reservation_def intro!: filter_True)
  have nxt: "cs_next_reservation_id ?st = Suc (cs_next_reservation_id st)"
    using assms(2) by (simp add: cancel_reservation_def sat_add_def)
  have ids: "ids_fresh ?st" "ids_fresh (?st\<lparr>cs_cursor := x\<rparr>)"
    using fresh by (auto simp: ids_fresh_def pend nxt less_Suc_eq)
  have lease: "leased (committed s t g p) (ts_visibility_timeout s) now H (cs_pending st)"
    and room: "cs_next_reservation_id ?st \<le> next_id_at s (t, g, p) + 1"
    using assms(1) nxt by (simp_all add: claims_kept_def)
  show "round_post since now H t g p s [] (put_claims (t, g, p) ?st s')"
    "round_post since now H t g p s [] (put_claims (t, g, p) (?st\<lparr>cs_cursor := x\<rparr>) s')"
    by (rule put_claims_post [OF _ _ _ same]; use ids pend lease room in simp)+
qed

text \<open>What others do between the steps does not matter for the group.\<close>

lemma round_post_cong:
  assumes "same_group t g p s s2" "round_post since now H t g p s2 ms s'"
  shows "round_post since now H t g p s ms s'"
  using assms unfolding round_post_def same_group_def next_id_at_def by simp

lemma claims_kept_cong:
  assumes "same_group t g p s s2" "claims_kept now H t g p s st"
  shows "claims_kept now H t g p s2 st"
  using assms unfolding claims_kept_def same_group_def next_id_at_def by simp

text \<open>The lease that a finished round leaves.\<close>

lemma finish_lease:
  assumes out: "out \<noteq> []" "\<forall>m\<in>set out. tm_offset m < u64_max"
    and r: "r = \<lparr>pc_reservation_id = rid, pc_start = Min (set (map tm_offset out)),
      pc_end = Max (set (map (\<lambda>m. sat_add (tm_offset m) 1) out)), pc_claimed_at = clk, pc_in_flight = b\<rparr>"
    and m: "m \<in> set out"
  shows "claims_offset r (tm_offset m)"
proof -
  have "Min (set (map tm_offset out)) \<le> tm_offset m" using m by (auto intro: Min_le)
  moreover have "sat_add (tm_offset m) 1 \<le> Max (set (map (\<lambda>m. sat_add (tm_offset m) 1) out))"
    using m by (auto intro: Max_ge)
  moreover have "tm_offset m < sat_add (tm_offset m) 1" using out(2) m by (simp add: sat_add_def)
  ultimately show ?thesis by (simp add: r claims_offset_def)
qed

lemma reserved_post:
  assumes kept: "claims_kept now H t g p s0 st" and room: "cs_next_reservation_id st < u64_max"
    and same: "committed s t g p = committed s0 t g p" "ts_visibility_timeout s = ts_visibility_timeout s0"
    and claims: "ts_group_claim_state s (t, g, p) = Some (reserved_state start n clk st)"
  shows "round_post since now H t g p s0 [] s"
proof -
  have "ids_fresh (reserved_state start n clk st)"
    using kept room by (auto simp: claims_kept_def ids_fresh_def sat_add_def)
  moreover have "leased (committed s0 t g p) (ts_visibility_timeout s0) now H (cs_pending (reserved_state start n clk st))"
    using kept by (auto simp: claims_kept_def intro: leased_later)
  moreover have "next_id_at s (t, g, p) \<le> next_id_at s0 (t, g, p) + 1"
    using kept by (simp add: claims_kept_def next_id_at_def claims sat_add_def)
  ultimately show ?thesis
    by (simp add: round_post_def group_inv_def pending_at_def next_id_at_def claims ids_fresh_def same)
qed

text \<open>The claims at the end of a round: those of others, all older, and the reservation of the round.\<close>

lemma finish_claims:
  assumes kept: "claims_kept now H t g p s0 st" and room: "cs_next_reservation_id st < u64_max" and "clk \<le> now"
    and st1: "st1 = expire_stale_claims clk (ts_visibility_timeout s0) (reserved_state start n clk' st)"
    and rid: "rid = cs_next_reservation_id st"
  obtains others r0 where "cs_pending st1 = others @ [r0]" "pc_reservation_id r0 = rid"
    "leased (committed s0 t g p) (ts_visibility_timeout s0) now H others" "\<forall>c\<in>set others. pc_reservation_id c < rid"
    "cs_next_reservation_id st1 = Suc rid" "next_id_at s0 (t, g, p) = rid" "has_reservation rid st1"
proof (rule that)
  let ?others = "cs_pending (expire_stale_claims clk (ts_visibility_timeout s0) st)"
  show "cs_pending st1 = ?others @
      [\<lparr>pc_reservation_id = rid, pc_start = start, pc_end = sat_add start n, pc_claimed_at = clk', pc_in_flight = True\<rparr>]"
    by (simp add: st1 expire_pending stale_def rid)
  then show "has_reservation rid st1" by (simp add: has_reservation_def)
  show "leased (committed s0 t g p) (ts_visibility_timeout s0) now H ?others" "\<forall>c\<in>set ?others. pc_reservation_id c < rid"
    "next_id_at s0 (t, g, p) = rid"
    using claims_kept_expire [OF kept assms(3)] by (auto simp: claims_kept_def ids_fresh_def rid)
  show "cs_next_reservation_id st1 = Suc rid"
    using room by (simp add: st1 rid sat_add_def)
qed simp

lemma finish_cancelled:
  assumes pend: "cs_pending st1 = others @ [r0]" "pc_reservation_id r0 = rid"
    and lease: "leased (committed s0 t g p) (ts_visibility_timeout s0) now H others"
    and fresh: "\<forall>c\<in>set others. pc_reservation_id c < rid"
    and ids: "cs_next_reservation_id st1 = Suc rid" "next_id_at s0 (t, g, p) = rid"
    and same: "committed s t g p = committed s0 t g p" "ts_visibility_timeout s = ts_visibility_timeout s0"
  shows "round_post since now H t g p s0 [] (put_claims (t, g, p) (cancel_reservation rid st1) s)"
proof -
  have "cs_pending (cancel_reservation rid st1) = others"
    using fresh by (auto simp: cancel_reservation_def pend intro!: filter_True)
  then show ?thesis
    using lease fresh
    by (intro put_claims_post [OF _ _ _ same]) (auto simp: ids_fresh_def less_Suc_eq cancel_reservation_def ids)
qed

lemma finish_delivered:
  assumes pend: "cs_pending st1 = others @ [r0]" "pc_reservation_id r0 = rid" "has_reservation rid st1"
    and lease: "leased (committed s0 t g p) (ts_visibility_timeout s0) now H others"
    and fresh: "\<forall>c\<in>set others. pc_reservation_id c < rid"
    and ids: "cs_next_reservation_id st1 = Suc rid" "next_id_at s0 (t, g, p) = rid"
    and same: "committed s t g p = committed s0 t g p" "ts_visibility_timeout s = ts_visibility_timeout s0"
    and out: "\<forall>m\<in>set out. tm_offset m < u64_max \<and> after_ack (committed s0 t g p) \<le> tm_offset m \<and>
      \<not> (\<exists>c\<in>set others. claims_offset c (tm_offset m))" "out \<noteq> []" and late: "since \<le> clk"
    and st2: "st2 = finalize_reservation rid (Min (set (map tm_offset out)))
      (Max (set (map (\<lambda>m. sat_add (tm_offset m) 1) out))) clk st1"
  shows "round_post since now H t g p s0 out (put_claims (t, g, p) st2 s)"
proof -
  define r where "r = \<lparr>pc_reservation_id = rid, pc_start = Min (set (map tm_offset out)),
      pc_end = Max (set (map (\<lambda>m. sat_add (tm_offset m) 1) out)), pc_claimed_at = clk, pc_in_flight = False\<rparr>"
  have "\<forall>c\<in>set others. pc_reservation_id c \<noteq> pc_reservation_id r0" using fresh by (auto simp: pend)
  from finalize_first_last [OF this, unfolded pend(2)]
  have pend2: "cs_pending st2 = others @ [r]" "cs_next_reservation_id st2 = Suc rid"
    using pend(3) by (simp_all add: st2 finalize_reservation_def pend(1) ids r_def) (simp add: pend(2) [symmetric])
  have covers: "claims_offset r (tm_offset m)" if "m \<in> set out" for m
    by (rule finish_lease [OF out(2) _ r_def that]) (use out(1) in simp)
  have "leased (committed s0 t g p) (ts_visibility_timeout s0) now (map (\<lambda>m. (since, tm_offset m)) out @ H) (others @ [r])"
    using leased_later [OF lease order_refl, of "others @ [r]"] covers late by (auto simp: leased_def r_def)
  moreover have "earlier + ts_visibility_timeout s0 < now" if "m \<in> set out" "(earlier, tm_offset m) \<in> set H" for m earlier
    using out(1) that by (auto elim!: leasedD [OF lease])
  ultimately show ?thesis
    using fresh out(1) by (auto simp: round_post_def group_inv_def pending_at_def next_id_at_def [of "put_claims _ _ _"] pend2 same ids
        r_def less_Suc_eq)
qed

lemma group_finish_post:
  assumes kept: "claims_kept now H t g p s0 st" and room: "cs_next_reservation_id st < u64_max"
    and same: "committed s t g p = committed s0 t g p" "ts_visibility_timeout s = ts_visibility_timeout s0"
    and claims: "ts_group_claim_state s (t, g, p) = Some (reserved_state start n clk0 st)"
    and clock: "clk FinishClock \<le> now" "since \<le> clk FinalizeClock"
    and bound: "\<forall>m\<in>set messages. tm_offset m < u64_max"
    and fin: "group_finish rd clk t g p start_offset (cs_next_reservation_id st) (committed s t g p) messages s = (r, s')"
  shows "round_post since now H t g p s0 (delivered r) s'"
proof (cases "group_fetch_start (rd RecheckStart) s t g p start_offset")
  case (Inl err)
  then have "r = Return (Inl err)" "s' = s" using fin by (simp_all add: group_finish_def)
  then show ?thesis using reserved_post [OF kept room same claims] by simp
next
  case (Inr initial)
  define rid where "rid = cs_next_reservation_id st"
  define st1 where "st1 = expire_stale_claims (clk FinishClock) (ts_visibility_timeout s0) (reserved_state start n clk0 st)"
  obtain others r0 where c: "cs_pending st1 = others @ [r0]" "pc_reservation_id r0 = rid"
    "leased (committed s0 t g p) (ts_visibility_timeout s0) now H others" "\<forall>c\<in>set others. pc_reservation_id c < rid"
    "cs_next_reservation_id st1 = Suc rid" "next_id_at s0 (t, g, p) = rid" "has_reservation rid st1"
    by (rule finish_claims [OF kept room clock(1) st1_def rid_def])
  define out where "out = filter (\<lambda>m. deliver_from (committed s0 t g p) st1 \<le> tm_offset m \<and>
      \<not> (\<exists>c\<in>set (cs_pending st1). pc_reservation_id c \<noteq> rid \<and> claims_offset c (tm_offset m))) messages"
  have out: "\<forall>m\<in>set out. tm_offset m < u64_max \<and> after_ack (committed s0 t g p) \<le> tm_offset m \<and>
      \<not> (\<exists>c\<in>set others. claims_offset c (tm_offset m))"
    using bound c(4) by (fastforce simp: out_def c(1) deliver_from_def)
  have res: "(r, s') = (if out = [] then (Again, put_claims (t, g, p) (cancel_reservation rid st1) s)
      else (Return (Inr out), put_claims (t, g, p) (finalize_reservation rid (Min (set (map tm_offset out)))
        (Max (set (map (\<lambda>m. sat_add (tm_offset m) 1) out))) (clk FinalizeClock) st1) s))"
    using fin unfolding group_finish_def Inr claims same Let_def sum.case option.case st1_def [symmetric] rid_def [symmetric] out_def [symmetric]
    using c(7) by (simp split: if_splits)
  show ?thesis
  proof (cases "out = []")
    case True
    then show ?thesis using res finish_cancelled [OF c(1-6) same] by simp
  next
    case False
    then show ?thesis using res finish_delivered [OF c(1,2,7,3-6) same out False clock(2) refl] by simp
  qed
qed

lemma group_empty_post:
  assumes kept: "claims_kept now H t g p s0 st" and room: "cs_next_reservation_id st < u64_max"
    and same: "committed s t g p = committed s0 t g p" "ts_visibility_timeout s = ts_visibility_timeout s0"
    and claims: "ts_group_claim_state s (t, g, p) = Some (reserved_state start n clk0 st)"
    and run: "group_empty rd t g p earliest fetch_start (cs_next_reservation_id st) s = (r, s')"
  shows "round_post since now H t g p s0 (delivered r) s'"
proof (cases "log_high_watermark (rd RecheckWatermark) s t p earliest")
  case (Inl err)
  then have "r = Return (Inl err)" "s' = s" using run by (simp_all add: group_empty_def)
  then show ?thesis using reserved_post [OF kept room same claims] by simp
next
  case (Inr high)
  have "round_post since now H t g p s0 [] (drop_claims (t, g, p) s)"
    if "cs_pending (cancel_reservation (cs_next_reservation_id st) (reserved_state start n clk0 st)) = []"
    using that kept unfolding cancel_reserved(1) [OF kept room same]
    by (simp add: round_post_def group_inv_def pending_at_def next_id_at_def claims_kept_def same)
  then show ?thesis
    using run cancel_reserved(2,3) [OF kept room same] by (auto simp: group_empty_def Inr claims Let_def split: if_splits)
qed

lemma group_deliver_post:
  assumes kept: "claims_kept now H t g p s0 st" and room: "cs_next_reservation_id st < u64_max"
    and s: "s = put_claims (t, g, p) (reserved_state start n clk0 st) s0"
    and others: "\<And>pt s. same_group t g p s (others pt s)"
    and clock: "clk FinishClock \<le> now" "since \<le> clk FinalizeClock"
    and run: "group_deliver rd clk others t g p start_offset (Reserved e start n (cs_next_reservation_id st)) s = (r, s')"
  shows "round_post since now H t g p s0 (delivered r) s'"
proof -
  define s1 s2 s3 where "s1 = others BeforeLoad s" and "s2 = others BeforeFilter s1" and "s3 = others BeforeFinish s2"
  have base: "committed s t g p = committed s0 t g p" "ts_visibility_timeout s = ts_visibility_timeout s0"
    "ts_group_claim_state s (t, g, p) = Some (reserved_state start n clk0 st)"
    by (simp_all add: s)
  have g: "committed x t g p = committed s0 t g p" "ts_visibility_timeout x = ts_visibility_timeout s0"
    "ts_group_claim_state x (t, g, p) = Some (reserved_state start n clk0 st)" if "x \<in> {s1, s2, s3}" for x
    using that base others [of s BeforeLoad] others [of s1 BeforeFilter] others [of s2 BeforeFinish]
    by (auto simp: same_group_def s1_def [symmetric] s2_def [symmetric] s3_def [symmetric])
  have stopped: "round_post since now H t g p s0 [] x" if "x \<in> {s1, s2, s3}" for x
    by (rule reserved_post [OF kept room g [OF that]])
  show ?thesis
  proof (cases "load_messages (rd ReadMessages) s1 t p start n")
    case (Inl err)
    then have "r = Return (Inl err)" "s' = s1" using run by (simp_all add: group_deliver_def s1_def)
    then show ?thesis using stopped by simp
  next
    case (Inr messages)
    note run' = run [unfolded group_deliver_def reserve_outcome.sel, folded s1_def, unfolded Let_def Inr sum.case, folded s2_def, folded s3_def]
    show ?thesis
    proof (cases "messages = [] \<or> \<not> rd RecheckAcked")
      case True
      then show ?thesis
        using run' group_empty_post [OF kept room g [of s2]] stopped [of s2] by (auto simp: durable_eq split: if_splits)
    next
      case False
      define kept' where "kept' = filter (\<lambda>m. max start (deliver_from (committed s0 t g p) (reserved_state start n clk0 st)) \<le> tm_offset m \<and>
        tm_offset m < sat_add start n) messages"
      have bound: "\<forall>m\<in>set kept'. tm_offset m < u64_max"
        using sat_add_le_max [of start n] by (auto simp: kept'_def)
      have run'': "(if kept' = [] then (Again, put_claims (t, g, p) (cancel_reservation (cs_next_reservation_id st) (reserved_state start n clk0 st)) s2)
          else group_finish rd clk t g p start_offset (cs_next_reservation_id st) (committed s3 t g p) kept' s3) = (r, s')"
        using run' unfolding durable_eq put_claims_def kept'_def g(1,3) [of s2, simplified] g(1) [of s3, simplified]
          if_not_P [OF conjunct1 [OF False [unfolded de_Morgan_disj not_not]]] if_P [OF conjunct2 [OF False [unfolded de_Morgan_disj not_not]]]
          sum.case option.case option.map .
      show ?thesis
        using run'' cancel_reserved(2) [OF kept room g(1,2) [of s2]] group_finish_post [OF kept room g [of s3] clock bound]
        by (cases "kept' = []") auto
    qed
  qed
qed

lemma group_inv_later: "group_inv now H t g p s \<Longrightarrow> now \<le> now' \<Longrightarrow> group_inv now' H t g p s"
  by (auto simp: group_inv_def intro: leased_later)

lemma group_inv_same: "same_group t g p s s' \<Longrightarrow> group_inv now H t g p s' = group_inv now H t g p s"
  by (simp add: same_group_def group_inv_def pending_at_def next_id_at_def)

lemma group_round_post:
  assumes inv: "group_inv now H t g p s" and room: "next_id_at s (t, g, p) < u64_max"
    and others: "\<And>pt s. same_group t g p s (others pt s)"
    and clock: "\<And>c. since \<le> clk c \<and> clk c \<le> now"
    and run: "group_round rd clk others t g p start_offset limit s = (r, s')"
  shows "round_post since now H t g p s (delivered r) s'"
proof -
  obtain rv s1 where rv: "group_reserve rd clk t g p start_offset limit s = (rv, s1)" by force
  have "clk ExpireClock \<le> now" using clock by blast
  from inv order_refl this rv show ?thesis
  proof (rule group_reserve_post)
    fix r' assume "rv = Stop r'" "delivered r' = []" "round_post now now H t g p s [] s1"
    then show ?thesis using run rv by (simp add: group_round_def round_post_def)
  next
    fix st e start n
    assume kept: "claims_kept now H t g p s st" and rv': "rv = Reserved e start n (cs_next_reservation_id st)"
      and s1: "s1 = put_claims (t, g, p) (reserved_state start n (clk ReserveClock) st) s"
    have "cs_next_reservation_id st < u64_max" using kept room by (simp add: claims_kept_def)
    moreover have "group_deliver rd clk others t g p start_offset (Reserved e start n (cs_next_reservation_id st)) s1 = (r, s')"
      using run rv rv' by (simp add: group_round_def)
    ultimately show ?thesis
      using clock by (intro group_deliver_post [OF kept _ s1 others]) auto
  qed
qed

section \<open>Exclusive delivery\<close>

text \<open>What runs beside a fetch leaves the group alone, and the clock moves from \<open>now\<close> to at most \<open>now'\<close>.\<close>

definition undisturbed :: "topic_id \<Rightarrow> consumer_group_id \<Rightarrow> nat \<Rightarrow> nat \<Rightarrow> nat \<Rightarrow> fetch_world \<Rightarrow> bool" where
  "undisturbed t g p now now' w =
     (now \<le> now' \<and> (\<forall>i c. now \<le> fw_clock w i c \<and> fw_clock w i c \<le> now') \<and> (\<forall>i pt s. same_group t g p s (fw_others w i pt s)))"

lemma group_loop_post:
  assumes world: "undisturbed t g p since now w" and "group_inv now H t g p s" "next_id_at s (t, g, p) + n < u64_max"
    and "group_loop n w i t g p start_offset limit s = Some (res, s')"
  shows "group_inv now (map (\<lambda>m. (since, tm_offset m)) (delivered (Return res)) @ H) t g p s' \<and>
    (\<forall>m\<in>set (delivered (Return res)). after_ack (committed s t g p) \<le> tm_offset m \<and>
       (\<forall>earlier. (earlier, tm_offset m) \<in> set H \<longrightarrow> earlier + ts_visibility_timeout s < now))"
  using assms(2-4)
proof (induction n arbitrary: i s)
  case (Suc n)
  let ?s = "fw_others w i BeforeRound s"
  have same: "same_group t g p s ?s" using world by (simp add: undisturbed_def)
  have inv: "group_inv now H t g p ?s" using Suc.prems(1) group_inv_same [OF same] by simp
  have room: "next_id_at ?s (t, g, p) + Suc n < u64_max"
    using Suc.prems(2) same by (simp add: next_id_at_def same_group_def)
  obtain r s1 where r: "group_round (fw_reads w i) (fw_clock w i) (fw_others w i) t g p start_offset limit ?s = (r, s1)" by force
  have post: "round_post since now H t g p ?s (delivered r) s1"
    by (rule group_round_post [OF inv _ _ _ r]) (use room world in \<open>simp_all add: undisturbed_def\<close>)
  show ?case
  proof (cases r)
    case (Return x)
    then show ?thesis using Suc.prems(3) r post same by (simp add: round_post_def same_group_def)
  next
    case Again
    then have "group_loop n w (Suc i) t g p start_offset limit s1 = Some (res, s')" using Suc.prems(3) r by simp
    with Suc.IH [of s1 "Suc i"] post room Again show ?thesis
      using same by (simp add: round_post_def same_group_def)
  qed
qed simp

text \<open>
  The life of a group on a partition: fetches and acknowledgements of its consumers, and any other
  operations that leave the group alone. The list holds every delivery, with the time its fetch began.
\<close>

inductive group_run :: "topic_id \<Rightarrow> consumer_group_id \<Rightarrow> nat \<Rightarrow> topic_service \<Rightarrow> nat \<Rightarrow> (nat \<times> nat) list \<Rightarrow> bool"
  for t g p where
  start: "ts_group_claim_state s (t, g, p) = None \<Longrightarrow> group_run t g p s now []"
| fetch: "group_run t g p s now H \<Longrightarrow> undisturbed t g p now now' w \<Longrightarrow> next_id_at s (t, g, p) + n < u64_max \<Longrightarrow>
    fetch_messages_for_group n w t g p start_offset limit s = Some (res, s') \<Longrightarrow>
    group_run t g p s' now' (map (\<lambda>m. (now, tm_offset m)) (delivered (Return res)) @ H)"
| ack: "group_run t g p s now H \<Longrightarrow> ack_offset ok ts t g p off s = (res, s') \<Longrightarrow> group_run t g p s' now H"
| other: "group_run t g p s now H \<Longrightarrow> same_group t g p s s' \<Longrightarrow> now \<le> now' \<Longrightarrow> group_run t g p s' now' H"

lemma fetch_for_group_post:
  assumes "undisturbed t g p since now w" "group_inv since H t g p s" "next_id_at s (t, g, p) + n < u64_max"
    and "fetch_messages_for_group n w t g p start_offset limit s = Some (res, s')"
  shows "group_inv now (map (\<lambda>m. (since, tm_offset m)) (delivered (Return res)) @ H) t g p s' \<and>
    (\<forall>m\<in>set (delivered (Return res)). after_ack (committed s t g p) \<le> tm_offset m \<and>
       (\<forall>earlier. (earlier, tm_offset m) \<in> set H \<longrightarrow> earlier + ts_visibility_timeout s < now))"
proof -
  have inv: "group_inv now H t g p s"
    using group_inv_later [OF assms(2)] assms(1) by (simp add: undisturbed_def)
  show ?thesis
    using group_loop_post [OF assms(1) inv assms(3)] assms(4) inv
    by (auto simp: fetch_messages_for_group_def split: if_splits)
qed

lemma committed_ack:
  assumes "ack_offset True ts t g p off s = (res, s')"
  shows "committed s' t g p = Some (max off (case committed s t g p of None \<Rightarrow> 0 | Some a \<Rightarrow> a))"
  using assms by (auto simp: ack_offset_def committed_def get_offset_def store_ack_offset_def put_claims_def Let_def offset_ack_def
      topic_offset_new_def split: option.splits)

lemma after_ack_max: "sat_add off 1 \<le> after_ack (Some (max off a))" "after_ack a' \<le> after_ack (Some (max off (case a' of None \<Rightarrow> 0 | Some a \<Rightarrow> a)))"
  by (auto simp: after_ack_def sat_add_def split: option.splits)

lemma group_inv_ack:
  assumes "group_inv now H t g p s" "ack_offset ok ts t g p off s = (res, s')"
  shows "group_inv now H t g p s'"
proof (cases ok)
  case True
  define st where "st = (case ts_group_claim_state s (t, g, p) of Some st \<Rightarrow> st | None \<Rightarrow> claim_state_new (sat_add off 1))"
  have kept: "claims_kept now H t g p s st" using group_inv_kept [OF assms(1) order_refl st_def] .
  have s': "ts_group_claim_state s' (t, g, p) = Some (ack_up_to off st)" "ts_visibility_timeout s' = ts_visibility_timeout s"
    using assms(2) True by (auto simp: ack_offset_def Let_def st_def)
  have com: "committed s' t g p = Some (max off (case committed s t g p of None \<Rightarrow> 0 | Some a \<Rightarrow> a))"
    using assms(2) True by (intro committed_ack) simp
  have "leased (committed s' t g p) (ts_visibility_timeout s) now H (cs_pending (ack_up_to off st))"
    using kept unfolding com by (intro leased_ack [OF _ after_ack_max]) (simp add: claims_kept_def)
  moreover have "ids_fresh (ack_up_to off st)" using kept by (intro ids_fresh_ack) (simp add: claims_kept_def)
  ultimately show ?thesis
    by (simp add: group_inv_def s' pending_at_def next_id_at_def ids_fresh_def)
next
  case False
  then show ?thesis using assms by (simp add: ack_offset_def)
qed

lemma group_run_inv: "group_run t g p s now H \<Longrightarrow> group_inv now H t g p s"
proof (induction rule: group_run.induct)
  case (start s now)
  then show ?case by (simp add: group_inv_def pending_at_def leased_def)
next
  case (fetch s now H now' w n start_offset limit res s')
  then show ?case using fetch_for_group_post by blast
next
  case (ack s now H ok ts off res s')
  then show ?case using group_inv_ack by blast
next
  case (other s now H s' now')
  then show ?case using group_inv_later [of now H t g p s'] group_inv_same by blast
qed

end
