(* ===== verification/TopicConsumeSpec.thy ===== *)
theory TopicConsumeSpec
  imports TopicConsume
begin

text \<open>
  What a group fetch delivers when nothing interferes: exactly the first run of messages that are
  available to the group, after at most two rounds of its loop. The last section shows the loop
  running forever at a hole in the log.
\<close>

section \<open>Reads of an undisturbed fetch\<close>

definition gap_free :: "topic_service \<Rightarrow> topic_id \<Rightarrow> nat \<Rightarrow> bool" where
  "gap_free s t p = (map tm_offset (service_log s t p) = [log_first s t p..<service_next s t p])"

text \<open>All reads succeed, the clock stands still and nobody else acts.\<close>

definition quiet :: "nat \<Rightarrow> fetch_world \<Rightarrow> bool" where
  "quiet now w =
     (\<forall>i. fw_reads w i = (\<lambda>_. True) \<and> fw_clock w i = (\<lambda>_. now) \<and> fw_others w i = (\<lambda>_ s. s))"

lemma next_bounds:
  assumes "service_ok env s"
  shows "service_next s t p \<le> u64_max" "log_first s t p \<le> service_next s t p"
  using service_okD(2) [OF assms, of t p]
  by (auto simp: partition_ok_def log_first_def intro: less_imp_le split: list.splits)

lemma watermark_eq:
  assumes "service_ok env s"
  shows "log_high_watermark True s t p (log_first s t p) = Inr (service_next s t p)"
proof -
  have "\<exists>l. latest_offset True s t p = Inr l" by (simp add: latest_offset_def split: option.splits)
  then obtain l where l: "latest_offset True s t p = Inr l" ..
  then show ?thesis
    using latest_eq [OF assms l] next_bounds [OF assms, of t p]
    by (cases l) (auto simp: log_high_watermark_def sat_add_def)
qed

lemma load_eq:
  assumes "service_ok env s"
  shows "load_messages True s t p off limit = Inr (page (service_log s t p) off limit)"
  using store_fetch_page [OF service_okD(1) [OF assms], of t p off limit] tail_hit_not_early(2) [OF assms, of t p off limit]
  by (auto simp: load_messages_def split: option.splits)

lemma put_claims_service [simp]:
  "runtime_at (put_claims key st s) t p = runtime_at s t p"
  "service_ok env (put_claims key st s) = service_ok env s"
  "log_first (put_claims key st s) t p = log_first s t p"
proof -
  show rt: "runtime_at (put_claims key st s) t p = runtime_at s t p" for t p by (simp add: runtime_at_def)
  show "service_ok env (put_claims key st s) = service_ok env s" "log_first (put_claims key st s) t p = log_first s t p"
    by (simp_all add: service_ok_def log_first_def rt split: list.splits)
qed

lemma page_contiguous:
  assumes "map tm_offset log = [f..<e]" "f \<le> a"
  shows "page log a n = take n (drop (a - f) log)" "map tm_offset (drop (a - f) log) = [a..<e]"
  using assms by (simp_all add: page_def drop_contiguous [symmetric]) (simp add: drop_map [symmetric])

lemma in_take_upt: "x \<in> set (take k [i..<j]) \<Longrightarrow> i \<le> x \<and> x < i + k \<and> x < j"
  by (cases "i + k \<le> j") (auto simp: take_upt)

text \<open>The first run of available messages of a contiguous log, from the window that was found.\<close>

lemma run_page:
  assumes log: "map tm_offset log = [f..<e]" and a: "f \<le> a"
    and before: "\<forall>off. f \<le> off \<longrightarrow> off < a \<longrightarrow> \<not> A off" and inside: "\<forall>off. a \<le> off \<longrightarrow> off < a + k \<longrightarrow> A off"
    and after: "k = limit \<or> k < limit \<and> (e \<le> a + k \<or> \<not> A (a + k))" and k: "0 < k"
  shows "take limit (takeWhile (\<lambda>m. A (tm_offset m)) (dropWhile (\<lambda>m. \<not> A (tm_offset m)) log)) = page log a (min k (e - a))"
proof -
  define n ys where "n = min k (e - a)" and "ys = drop (a - f) log"
  have ys: "map tm_offset ys = [a..<e]" and page: "page log a n = take n ys"
    unfolding ys_def using page_contiguous [OF log a] by simp_all
  have pre: "\<not> A (tm_offset m)" if "m \<in> set (take (a - f) log)" for m
  proof -
    have "tm_offset m \<in> set (take (a - f) (map tm_offset log))" using that by (auto simp: take_map)
    then show ?thesis using before in_take_upt [of "tm_offset m" "a - f" f e] a by (simp add: log)
  qed
  have "dropWhile (\<lambda>m. \<not> A (tm_offset m)) log = dropWhile (\<lambda>m. \<not> A (tm_offset m)) ys"
    using dropWhile_append2 [of "take (a - f) log" "\<lambda>m. \<not> A (tm_offset m)" ys] pre by (simp add: ys_def)
  also have "\<dots> = ys"
    using ys inside k by (cases ys) (auto dest!: upt_ConsD)
  finally have run: "dropWhile (\<lambda>m. \<not> A (tm_offset m)) log = ys" .
  have inrun: "A (tm_offset m)" if "m \<in> set (take n ys)" for m
  proof -
    have "tm_offset m \<in> set (take n (map tm_offset ys))" using that by (auto simp: take_map)
    then show ?thesis using inside in_take_upt [of "tm_offset m" n a e] by (auto simp: ys n_def)
  qed
  have split: "takeWhile (\<lambda>m. A (tm_offset m)) ys = take n ys @ takeWhile (\<lambda>m. A (tm_offset m)) (drop n ys)"
    using takeWhile_append2 [of "take n ys" "\<lambda>m. A (tm_offset m)" "drop n ys"] inrun by simp
  have "length ys = e - a" using ys by (metis length_map length_upt)
  then have len: "length (take n ys) = n" by (simp add: n_def)
  have "take limit (takeWhile (\<lambda>m. A (tm_offset m)) ys) = take n ys"
  proof (cases "n = limit")
    case True
    then show ?thesis using len by (simp add: split)
  next
    case False
    then have "n < limit" "e \<le> a + n \<or> \<not> A (a + n)" using after by (auto simp: n_def min_def split: if_splits)
    moreover have "map tm_offset (drop n ys) = [a + n..<e]" by (simp add: drop_map [symmetric] ys)
    ultimately have "takeWhile (\<lambda>m. A (tm_offset m)) (drop n ys) = []"
      by (cases "drop n ys") (auto dest!: upt_ConsD)
    then show ?thesis using len \<open>n < limit\<close> by (simp add: split)
  qed
  then show ?thesis by (simp add: run page n_def [symmetric])
qed

section \<open>The claim state a round works with\<close>

definition claims_ready :: "claim_state \<Rightarrow> bool" where
  "claims_ready st =
     (after_ack (cs_last_acked st) \<le> cs_cursor st \<and>
      (\<forall>c\<in>set (cs_pending st). pc_start c < pc_end c \<and> (pc_in_flight c \<or> after_ack (cs_last_acked st) \<le> pc_start c)))"

text \<open>The claims of the group after the expiry and the acknowledgement that open each round.\<close>

definition settled :: "nat \<Rightarrow> topic_service \<Rightarrow> topic_id \<Rightarrow> consumer_group_id \<Rightarrow> nat \<Rightarrow> nat \<Rightarrow> claim_state" where
  "settled now s t g p start_offset =
     (let st = (case ts_group_claim_state s (t, g, p) of Some st \<Rightarrow> st
                | None \<Rightarrow> claim_state_new (case committed s t g p of Some a \<Rightarrow> sat_add a 1 | None \<Rightarrow> start_offset));
          st1 = expire_stale_claims now (ts_visibility_timeout s) st
      in case committed s t g p of Some a \<Rightarrow> ack_up_to a st1 | None \<Rightarrow> st1)"

lemma reserve_eq:
  assumes "service_ok env s"
  shows "group_reserve (\<lambda>_. True) (\<lambda>_. now) t g p start_offset limit s =
    group_window (\<lambda>_. True) (\<lambda>_. now) t g p limit (log_first s t p) (settled now s t g p start_offset) s"
  by (cases "committed s t g p")
    (simp_all add: group_reserve_def earliest_eq [OF assms] group_fetch_start_def durable_eq settled_def Let_def split: option.splits)

lemma fold_earliest:
  "fold (\<lambda>c e. if P c then Some (case e of None \<Rightarrow> f c | Some x \<Rightarrow> min x (f c)) else e) cs e = Some x \<Longrightarrow>
     e = Some x \<or> (\<exists>c\<in>set cs. P c \<and> (f c :: nat) = x)"
  by (induction cs arbitrary: e) (fastforce split: if_splits option.splits simp: min_def)+

lemma claims_ready_expire:
  assumes "claims_ready st"
  shows "claims_ready (expire_stale_claims now T st)"
proof -
  have reset: "after_ack (cs_last_acked st) \<le> x"
    if "fold (\<lambda>c e. if stale now T c then Some (case e of None \<Rightarrow> pc_start c | Some x \<Rightarrow> min x (pc_start c)) else e)
      (cs_pending st) None = Some x" for x
    using fold_earliest [OF that] assms by (auto simp: claims_ready_def stale_def)
  then show ?thesis
    using assms by (auto simp: claims_ready_def expire_pending) (auto simp: expire_stale_claims_def Let_def split: option.splits)
qed

lemma ack_last: "cs_last_acked (ack_up_to a st) = Some (case cs_last_acked st of Some x \<Rightarrow> max x a | None \<Rightarrow> a)"
  "cs_cursor (ack_up_to a st) = max (cs_cursor st) (sat_add a 1)"
  by (simp_all add: ack_up_to_def Let_def)

lemma after_ack_last: "after_ack (cs_last_acked (ack_up_to a st)) = max (after_ack (cs_last_acked st)) (sat_add a 1)"
  by (auto simp: ack_last after_ack_def max_def sat_add_def split: option.splits)

lemma ack_claim_ready:
  assumes "ack_claim nxt c = Some d" "pc_start c < pc_end c" "pc_in_flight c \<or> l \<le> pc_start c"
  shows "pc_start d < pc_end d \<and> (pc_in_flight d \<or> max l nxt \<le> pc_start d)"
proof -
  consider "d = c" "pc_in_flight c" | "d = c" "nxt \<le> pc_start c" | "d = c\<lparr>pc_start := nxt\<rparr>" "pc_start c < nxt" "nxt < pc_end c"
    using assms(1) by (simp add: ack_claim_def split: if_splits)
  then show ?thesis using assms(2,3) by cases auto
qed

lemma claims_ready_ack:
  assumes "claims_ready st"
  shows "claims_ready (ack_up_to a st)"
  unfolding claims_ready_def after_ack_last ack_last(2) ack_sel(2)
  using assms ack_claim_ready by (fastforce simp: claims_ready_def in_map_filter)

lemma settled_facts:
  assumes "\<forall>st. ts_group_claim_state s (t, g, p) = Some st \<longrightarrow> claims_ready st"
  shows "claims_ready (settled now s t g p start_offset)"
    and "after_ack (committed s t g p) \<le> cs_cursor (settled now s t g p start_offset)"
    and "\<forall>c\<in>set (cs_pending (settled now s t g p start_offset)). \<not> stale now (ts_visibility_timeout s) c"
    and "cs_next_reservation_id (settled now s t g p start_offset) = next_id_at s (t, g, p)"
proof -
  define st where "st = (case ts_group_claim_state s (t, g, p) of Some st \<Rightarrow> st
      | None \<Rightarrow> claim_state_new (case committed s t g p of Some a \<Rightarrow> sat_add a 1 | None \<Rightarrow> start_offset))"
  have "claims_ready st"
    using assms by (auto simp: st_def claims_ready_def claim_state_new_def after_ack_def split: option.splits)
  then show "claims_ready (settled now s t g p start_offset)"
    by (simp add: settled_def Let_def st_def [symmetric] claims_ready_expire claims_ready_ack split: option.splits)
  show "after_ack (committed s t g p) \<le> cs_cursor (settled now s t g p start_offset)"
    by (simp add: settled_def Let_def ack_last after_ack_def split: option.splits)
  show "\<forall>c\<in>set (cs_pending (settled now s t g p start_offset)). \<not> stale now (ts_visibility_timeout s) c"
    by (auto simp: settled_def Let_def expire_pending in_map_filter ack_claim_def stale_def split: option.splits if_splits)
  show "cs_next_reservation_id (settled now s t g p start_offset) = next_id_at s (t, g, p)"
    by (simp add: settled_def Let_def next_id_at_def claim_state_new_def split: option.splits)
qed

lemma expire_none:
  assumes "\<forall>c\<in>set (cs_pending st). \<not> stale now T c"
  shows "expire_stale_claims now T st = st"
proof -
  have "fold (\<lambda>c e. if stale now T c then Some (case e of None \<Rightarrow> pc_start c | Some x \<Rightarrow> min x (pc_start c)) else e)
      (cs_pending st) None = None"
    using fold_earliest [of "stale now T" pc_start "cs_pending st" None] assms by fastforce
  then show ?thesis
    using assms by (simp add: expire_stale_claims_def Let_def)
qed

lemma ack_again:
  assumes "st = (ack_up_to a st0)\<lparr>cs_cursor := x\<rparr>" "sat_add a 1 \<le> x"
  shows "ack_up_to a st = st"
proof -
  have "List.map_filter (ack_claim n) (List.map_filter (ack_claim n) cs) = List.map_filter (ack_claim n) cs" for n cs
    by (induction cs) (auto simp: List.map_filter_simps ack_claim_def split: option.splits if_splits)
  then show ?thesis
    using assms by (auto simp: ack_up_to_def Let_def split: option.splits intro!: claim_state.equality)
qed

lemma settled_again:
  assumes ready: "\<forall>st. ts_group_claim_state s (t, g, p) = Some st \<longrightarrow> claims_ready st"
    and st: "st = settled now s t g p start_offset" and x: "cs_cursor st \<le> x"
  shows "settled now (put_claims (t, g, p) (st\<lparr>cs_cursor := x\<rparr>) s) t g p start_offset = st\<lparr>cs_cursor := x\<rparr>"
proof -
  have fresh: "expire_stale_claims now (ts_visibility_timeout s) (st\<lparr>cs_cursor := x\<rparr>) = st\<lparr>cs_cursor := x\<rparr>"
    using settled_facts(3) [OF ready] by (intro expire_none) (simp add: st)
  have "ack_up_to a (st\<lparr>cs_cursor := x\<rparr>) = st\<lparr>cs_cursor := x\<rparr>" if "committed s t g p = Some a" for a
    using x that settled_facts(2) [OF ready, of now start_offset]
    by (intro ack_again [OF _ order_trans [OF _ x]]) (auto simp: st settled_def Let_def after_ack_def)
  then show ?thesis
    using fresh by (simp add: settled_def Let_def split: option.splits)
qed

section \<open>A round that nothing disturbs\<close>

lemma reserved_last_acked: "cs_last_acked (reserved_state start n clk st) = cs_last_acked st"
  by (simp add: reserved_state_def reserve_window_def Let_def)

lemma reserved_cursor: "cs_cursor (reserved_state start n clk st) = cs_cursor st"
  by (simp add: reserved_state_def reserve_window_def Let_def)

lemma quiet_finish:
  assumes ready: "claims_ready st" "after_ack (committed s t g p) \<le> cs_cursor st" "cs_cursor st \<le> a"
    and still: "\<forall>c\<in>set (cs_pending st). \<not> stale now (ts_visibility_timeout s) c"
    and free: "\<forall>m\<in>set out. a \<le> tm_offset m \<and> \<not> (\<exists>c\<in>set (cs_pending st). claims_offset c (tm_offset m))" "out \<noteq> []"
    and s': "s' = put_claims (t, g, p) (reserved_state a n now st) s" and rid: "rid = cs_next_reservation_id st"
  shows "group_finish (\<lambda>_. True) (\<lambda>_. now) t g p start_offset rid (committed s t g p) out s' =
    (Return (Inr out), put_claims (t, g, p) (finalize_reservation rid (Min (set (map tm_offset out)))
      (Max (set (map (\<lambda>m. sat_add (tm_offset m) 1) out))) now (reserved_state a n now st)) s')"
proof -
  let ?st = "reserved_state a n now st"
  have st: "expire_stale_claims now (ts_visibility_timeout s) ?st = ?st"
    using still by (intro expire_none) (auto simp: stale_def)
  have "deliver_from (committed s t g p) ?st \<le> a"
    using ready by (simp add: deliver_from_def reserved_last_acked claims_ready_def)
  then have "filter (\<lambda>m. deliver_from (committed s t g p) ?st \<le> tm_offset m \<and>
      \<not> (\<exists>c\<in>set (cs_pending ?st). pc_reservation_id c \<noteq> rid \<and> claims_offset c (tm_offset m))) out = out"
    using free(1) by (intro filter_True) (auto simp: rid)
  moreover have "has_reservation rid ?st" by (simp add: has_reservation_def rid)
  moreover have "\<exists>x. group_fetch_start True s' t g p start_offset = Inr x"
    by (simp add: group_fetch_start_def durable_eq split: option.splits)
  ultimately show ?thesis
    using free(2) by (auto simp: group_finish_def Let_def s' st)
qed

lemma quiet_deliver:
  assumes ok: "service_ok env s" and log: "map tm_offset (service_log s t p) = [f..<e]" "e \<le> u64_max" "f \<le> a" "a + n \<le> e" "0 < n"
    and ready: "claims_ready st" "after_ack (committed s t g p) \<le> cs_cursor st" "cs_cursor st \<le> a"
    and still: "\<forall>c\<in>set (cs_pending st). \<not> stale now (ts_visibility_timeout s) c"
    and free: "\<And>off c. a \<le> off \<Longrightarrow> off < a + n \<Longrightarrow> c \<in> set (cs_pending st) \<Longrightarrow> \<not> claims_offset c off"
    and s': "s' = put_claims (t, g, p) (reserved_state a n now st) s" and rid: "rid = cs_next_reservation_id st"
    and out: "out = page (service_log s t p) a n"
  shows "group_deliver (\<lambda>_. True) (\<lambda>_. now) (\<lambda>_ s. s) t g p start_offset (Reserved x a n rid) s' =
    (Return (Inr out), put_claims (t, g, p) (finalize_reservation rid (Min (set (map tm_offset out)))
      (Max (set (map (\<lambda>m. sat_add (tm_offset m) 1) out))) now (reserved_state a n now st)) s')"
    and "map tm_offset out = [a..<a + n]"
proof -
  let ?st = "reserved_state a n now st"
  show offs: "map tm_offset out = [a..<a + n]"
    using page_contiguous [OF log(1,3)] log(4) by (simp add: out take_map [symmetric] take_upt)
  then have range: "\<forall>m\<in>set out. a \<le> tm_offset m \<and> tm_offset m < a + n"
    by (metis atLeastLessThan_iff image_eqI set_map set_upt)
  have ne: "out \<noteq> []" using arg_cong [OF offs, of length] log(5) by auto
  have load: "load_messages True s' t p a n = Inr out"
    using load_eq [of env s' t p a n] ok by (simp add: s' out)
  have "deliver_from (committed s t g p) ?st \<le> a"
    using ready by (simp add: deliver_from_def reserved_last_acked claims_ready_def)
  then have "filter (\<lambda>m. max a (deliver_from (committed s t g p) ?st) \<le> tm_offset m \<and> tm_offset m < sat_add a n) out = out"
    using range log(2,4) by (intro filter_True) (auto simp: sat_add_def)
  moreover have "group_finish (\<lambda>_. True) (\<lambda>_. now) t g p start_offset rid (committed s t g p) out s' =
    (Return (Inr out), put_claims (t, g, p) (finalize_reservation rid (Min (set (map tm_offset out)))
      (Max (set (map (\<lambda>m. sat_add (tm_offset m) 1) out))) now ?st) s')"
    by (rule quiet_finish [OF ready still _ ne s' rid]) (use range free in blast)
  moreover have "ts_group_claim_state s' (t, g, p) = Some ?st" "committed s' t g p = committed s t g p"
    by (simp_all add: s')
  ultimately show "group_deliver (\<lambda>_. True) (\<lambda>_. now) (\<lambda>_ s. s) t g p start_offset (Reserved x a n rid) s' =
    (Return (Inr out), put_claims (t, g, p) (finalize_reservation rid (Min (set (map tm_offset out)))
      (Max (set (map (\<lambda>m. sat_add (tm_offset m) 1) out))) now ?st) s')"
    using ne unfolding group_deliver_def reserve_outcome.sel Let_def load durable_eq by simp
qed

text \<open>What a fetch leaves behind: the stores are unchanged and what it delivered is leased from now on.\<close>

definition leases :: "nat \<Rightarrow> group_partition \<Rightarrow> topic_service \<Rightarrow> topic_message list \<Rightarrow> topic_service \<Rightarrow> bool" where
  "leases now key s ms s' =
     (ts_message_store s' = ts_message_store s \<and> ts_offset_store s' = ts_offset_store s \<and>
      (\<forall>key'. key' \<noteq> key \<longrightarrow> ts_group_claim_state s' key' = ts_group_claim_state s key') \<and>
      (\<forall>m\<in>set ms. \<exists>c\<in>set (pending_at s' key). claims_offset c (tm_offset m) \<and> pc_claimed_at c = now \<and> \<not> pc_in_flight c))"

lemma finalized_leases:
  assumes "has_reservation rid st" "out \<noteq> []" "\<forall>m\<in>set out. tm_offset m < u64_max"
    and "st' = finalize_reservation rid (Min (set (map tm_offset out))) (Max (set (map (\<lambda>m. sat_add (tm_offset m) 1) out))) now st"
    and "s' = put_claims key st s"
  shows "leases now key s out (put_claims key st' s')"
proof -
  have fin: "\<exists>c\<in>set (finalize_first rid a b now cs). pc_start c = a \<and> pc_end c = b \<and> pc_claimed_at c = now \<and> \<not> pc_in_flight c"
    if "\<exists>c\<in>set cs. pc_reservation_id c = rid" for a b cs
    using that by (induction cs) auto
  obtain c where c: "c \<in> set (cs_pending st')" "pc_start c = Min (set (map tm_offset out))"
    "pc_end c = Max (set (map (\<lambda>m. sat_add (tm_offset m) 1) out))" "pc_claimed_at c = now" "\<not> pc_in_flight c"
    using fin [OF assms(1) [unfolded has_reservation_def]] assms(1,4) by (auto simp: finalize_reservation_def)
  have "claims_offset c (tm_offset m)" if "m \<in> set out" for m
    using finish_lease [OF assms(2,3) refl that] c(2,3) by (simp add: claims_offset_def)
  then show ?thesis
    using c by (auto simp: leases_def pending_at_def assms(5))
qed

lemma quiet_round:
  assumes ok: "service_ok env s" and gap: "gap_free s t p"
    and ready: "\<forall>st. ts_group_claim_state s (t, g, p) = Some st \<longrightarrow> claims_ready st"
    and st: "st = settled now s t g p start_offset" and small: "length (cs_pending st) < max_pending_claims"
    and win: "next_available_window limit st = (a, k)" "log_first s t p \<le> a" "0 < limit"
    and out: "out = page (service_log s t p) a (min k (service_next s t p - a))"
  obtains s' where "group_round (\<lambda>_. True) (\<lambda>_. now) (\<lambda>_ s. s) t g p start_offset limit s = (Return (Inr out), s')"
    "leases now (t, g, p) s out s'"
proof -
  note w = next_window_facts [OF win(1) small]
  define n where "n = min k (service_next s t p - a)"
  have k: "0 < k" using w(3) win(3) by (cases k) auto
  have res: "group_reserve (\<lambda>_. True) (\<lambda>_. now) t g p start_offset limit s =
      (if n = 0 then (Stop (Return (Inr [])),
         if log_first s t p < a then put_claims (t, g, p) (st\<lparr>cs_cursor := a\<rparr>) s
         else if cs_pending st = [] then drop_claims (t, g, p) s else put_claims (t, g, p) st s)
       else (Reserved (log_first s t p) a n (cs_next_reservation_id st), put_claims (t, g, p) (reserved_state a n now st) s))"
    unfolding reserve_eq [OF ok] group_window_def st [symmetric] win(1)
    using k win(2) by (auto simp: watermark_eq [OF ok] Let_def n_def reserve_window_def reserved_state_def)
  show ?thesis
  proof (cases "n = 0")
    case True
    then show ?thesis
      by (intro that) (auto simp: group_round_def res out n_def [symmetric] page_def leases_def)
  next
    case False
    note f = settled_facts [OF ready, of now start_offset, folded st]
    have a: "a + n \<le> service_next s t p" using False by (auto simp: n_def min_def)
    have free: "\<not> claims_offset c off" if "a \<le> off" "off < a + n" "c \<in> set (cs_pending st)" for off c
      using w(5) [OF that(1) _ that(3)] that(2) by (simp add: n_def)
    note del = quiet_deliver [OF ok gap [unfolded gap_free_def] next_bounds(1) [OF ok] win(2) a _ f(1,2) w(1) f(3) free refl refl
        out [folded n_def]]
    have offs: "map tm_offset out = [a..<a + n]" using del(2) False by simp
    have "length out = n" using arg_cong [OF offs, of length] by simp
    then have ne: "out \<noteq> []" using False by auto
    have "\<forall>m\<in>set out. tm_offset m < u64_max"
      using offs a next_bounds(1) [OF ok, of t p] by (metis atLeastLessThan_iff image_eqI less_le_trans set_map set_upt)
    note lease = finalized_leases [OF _ ne this refl refl, of "cs_next_reservation_id st" "reserved_state a n now st" now "(t, g, p)" s]
    show ?thesis
      using False del(1) by (intro that [OF _ lease]) (simp_all add: group_round_def res has_reservation_def)
  qed
qed

section \<open>Claim states stay ready\<close>

definition ready_at :: "topic_service \<Rightarrow> group_partition \<Rightarrow> bool" where
  "ready_at s key = (\<forall>st. ts_group_claim_state s key = Some st \<longrightarrow> claims_ready st)"

lemma ready_at_put [simp]: "ready_at (put_claims key st s) key = claims_ready st"
  by (simp add: ready_at_def)

lemma ready_at_drop [simp]: "ready_at (drop_claims key s) key"
  by (simp add: ready_at_def)

lemma claims_ready_cursor: "claims_ready st \<Longrightarrow> cs_cursor st \<le> x \<Longrightarrow> claims_ready (st\<lparr>cs_cursor := x\<rparr>)"
  by (simp add: claims_ready_def)

lemma claims_ready_reserved:
  assumes "claims_ready st" "cs_cursor st \<le> a" "0 < n" "a < u64_max"
  shows "claims_ready (reserved_state a n clk st)"
  using assms by (auto simp: claims_ready_def reserved_last_acked reserved_cursor sat_add_def)

lemma claims_ready_cancel: "claims_ready st \<Longrightarrow> claims_ready (cancel_reservation rid st)"
  by (simp add: claims_ready_def cancel_reservation_def)

lemma finalize_first_ready:
  assumes "\<forall>c\<in>set cs. pc_start c < pc_end c \<and> (pc_in_flight c \<or> l \<le> pc_start c)" "a < b" "l \<le> a"
  shows "\<forall>c\<in>set (finalize_first rid a b clk cs). pc_start c < pc_end c \<and> (pc_in_flight c \<or> l \<le> pc_start c)"
  using assms(1)
proof (induction cs)
  case (Cons c cs)
  then show ?case using assms(2,3) by simp
qed simp

lemma advance_cursor: "cs_cursor st \<le> cs_cursor (advance_cursor_for_contiguous_claim a b st)"
  by (simp add: advance_cursor_for_contiguous_claim_def)

lemma claims_ready_advance: "claims_ready st \<Longrightarrow> claims_ready (advance_cursor_for_contiguous_claim a b st)"
  using advance_cursor [of st a b] order_trans unfolding claims_ready_def advance_sel by blast

lemma claims_ready_finalize:
  assumes "claims_ready st" "a < b" "after_ack (cs_last_acked st) \<le> a"
  shows "claims_ready (finalize_reservation rid a b clk st)"
proof (cases "has_reservation rid st")
  case True
  let ?st = "st\<lparr>cs_pending := finalize_first rid a b clk (cs_pending st)\<rparr>"
  have "claims_ready ?st"
    unfolding claims_ready_def claim_state.simps
    using assms(1) [unfolded claims_ready_def] finalize_first_ready [OF conjunct2 [OF assms(1) [unfolded claims_ready_def]] assms(2,3)]
    by (intro conjI) auto
  from claims_ready_advance [OF this] show ?thesis
    unfolding finalize_reservation_def if_P [OF True] .
next
  case False
  then show ?thesis using assms(1) by (simp only: finalize_reservation_def if_False)
qed

lemma claims_ready_register:
  assumes "claims_ready st" "a < b" "after_ack (cs_last_acked st) \<le> a"
  shows "claims_ready (register_delivered_claim a b clk st)"
  unfolding register_delivered_claim_def Let_def
  by (rule claims_ready_advance) (use assms in \<open>auto simp: claims_ready_def\<close>)

lemma high_watermark_bound:
  assumes "log_high_watermark ok s t p earliest = Inr high" "earliest \<le> a" "0 < high - a"
  shows "a < u64_max"
proof -
  have "high = earliest \<or> high \<le> u64_max"
    using assms(1) sat_add_le_max by (auto simp: log_high_watermark_def split: sum.splits option.splits)
  then show ?thesis using assms(2,3) by linarith
qed

lemma reserve_window_eq: "reserve_window a n clk st = (cs_next_reservation_id st, reserved_state a n clk st)"
  by (simp add: reserved_state_def reserve_window_def Let_def)

lemma group_window_cases:
  assumes run: "group_window rd clk t g p limit earliest st s = (rv, s')" and win: "next_available_window limit st = (a, k)"
  obtains (same) r where "rv = Stop r" "s' = put_claims (t, g, p) st s"
  | (moved) r x where "rv = Stop r" "s' = put_claims (t, g, p) (st\<lparr>cs_cursor := x\<rparr>) s" "a \<le> x"
  | (dropped) r where "rv = Stop r" "s' = drop_claims (t, g, p) s"
  | (reserved) n where "rv = Reserved earliest a n (cs_next_reservation_id st)" "0 < n" "a < u64_max"
      "s' = put_claims (t, g, p) (reserved_state a n (clk ReserveClock) st) s"
proof (cases "k = 0 \<or> a < earliest \<or> (\<exists>err. log_high_watermark (rd ReadWatermark) s t p earliest = Inl err)")
  case True
  then show ?thesis
    using run that(1) that(2) [of _ earliest] unfolding group_window_def win by (auto split: if_splits)
next
  case False
  then obtain high where high: "log_high_watermark (rd ReadWatermark) s t p earliest = Inr high"
    by (cases "log_high_watermark (rd ReadWatermark) s t p earliest") auto
  define n where "n = min k (high - a)"
  have run': "(if n = 0 then (Stop (Return (Inr [])),
        if earliest < a then put_claims (t, g, p) (st\<lparr>cs_cursor := a\<rparr>) s
        else if cs_pending st = [] then drop_claims (t, g, p) s else put_claims (t, g, p) st s)
      else (Reserved earliest a n (cs_next_reservation_id st), put_claims (t, g, p) (reserved_state a n (clk ReserveClock) st) s)) = (rv, s')"
    using run False unfolding group_window_def win reserve_window_eq prod.case Let_def high sum.case n_def [symmetric]
    by (simp split del: if_split)
  show ?thesis
  proof (cases "n = 0")
    case True
    then show ?thesis
      using run' that(1,3) that(2) [of _ a] by (auto split: if_splits)
  next
    case False
    have "a < u64_max"
      using high_watermark_bound [OF high] \<open>\<not> (k = 0 \<or> a < earliest \<or> _)\<close> False by (simp add: n_def)
    then show ?thesis using run' False by (intro that(4) [of n]) simp_all
  qed
qed

lemma window_not_before_cursor:
  assumes "next_available_window limit st = (a, k)"
  shows "cs_cursor st \<le> a"
proof (cases "length (cs_pending st) < max_pending_claims")
  case True
  then show ?thesis by (rule next_window_facts(1) [OF assms])
next
  case False
  then show ?thesis using assms by (simp add: next_available_window_def)
qed

lemma group_window_ready:
  assumes ready: "claims_ready st" and run: "group_window rd clk t g p limit earliest st s = (rv, s')"
  shows "ready_at s' (t, g, p) \<and> (\<forall>e a n rid. rv = Reserved e a n rid \<longrightarrow>
    (\<exists>st'. ts_group_claim_state s' (t, g, p) = Some st' \<and> cs_cursor st' \<le> a))"
proof -
  obtain a k where win: "next_available_window limit st = (a, k)" by force
  note cursor = window_not_before_cursor [OF win]
  from run win show ?thesis
  proof (cases rule: group_window_cases)
    case (moved r x)
    then show ?thesis using claims_ready_cursor [OF ready order_trans [OF cursor]] by simp
  next
    case (reserved n)
    then show ?thesis using claims_ready_reserved [OF ready cursor] cursor by (simp add: reserved_cursor)
  qed (simp_all add: ready)
qed

lemma ready_at_same: "same_group t g p s s' \<Longrightarrow> ready_at s' (t, g, p) = ready_at s (t, g, p)"
  by (simp add: same_group_def ready_at_def)

lemma claims_ready_default:
  assumes "ready_at s key"
  shows "claims_ready (case ts_group_claim_state s key of Some st \<Rightarrow> st | None \<Rightarrow> claim_state_new x)"
  using assms by (auto simp: ready_at_def claims_ready_def claim_state_new_def after_ack_def split: option.splits)

lemma group_reserve_ready:
  assumes ready: "ready_at s (t, g, p)" and run: "group_reserve rd clk t g p start_offset limit s = (rv, s')"
  shows "ready_at s' (t, g, p) \<and> (\<forall>e a n rid. rv = Reserved e a n rid \<longrightarrow>
    (\<exists>st'. ts_group_claim_state s' (t, g, p) = Some st' \<and> cs_cursor st' \<le> a))"
proof -
  let ?st = "\<lambda>start. expire_stale_claims (clk ExpireClock) (ts_visibility_timeout s)
    (case ts_group_claim_state s (t, g, p) of Some st \<Rightarrow> st | None \<Rightarrow> claim_state_new start)"
  have st: "claims_ready (?st start)" for start
    by (rule claims_ready_expire [OF claims_ready_default [OF ready]])
  then have acked: "claims_ready (case x of Some last_acked \<Rightarrow> ack_up_to last_acked (?st start) | None \<Rightarrow> ?st start)" for start x
    by (simp add: claims_ready_ack split: option.splits)
  show ?thesis
  proof (cases "\<exists>err. earliest_available_offset (rd ReadEarliest) s t p = Inl err \<or>
      group_fetch_start (rd ReadStart) s t g p start_offset = Inl err \<or> durable_last_acked (rd ReadAcked) s t g p = Inl err")
    case True
    then show ?thesis using run ready st by (auto simp: group_reserve_def Let_def split: sum.splits)
  next
    case False
    then obtain earliest start x where "earliest_available_offset (rd ReadEarliest) s t p = Inr earliest"
      "group_fetch_start (rd ReadStart) s t g p start_offset = Inr start" "durable_last_acked (rd ReadAcked) s t g p = Inr x"
      by (metis sum.exhaust_sel)
    then show ?thesis
      using run group_window_ready [OF acked] unfolding group_reserve_def Let_def by simp
  qed
qed

lemma group_finish_ready:
  assumes ready: "ready_at s (t, g, p)" and bound: "\<forall>m\<in>set messages. tm_offset m < u64_max"
    and run: "group_finish rd clk t g p start_offset rid acked messages s = (r, s')"
  shows "ready_at s' (t, g, p)"
proof (cases "group_fetch_start (rd RecheckStart) s t g p start_offset")
  case (Inl err)
  then show ?thesis using run ready by (simp add: group_finish_def)
next
  case (Inr start)
  define st1 where "st1 = expire_stale_claims (clk FinishClock) (ts_visibility_timeout s)
    (case ts_group_claim_state s (t, g, p) of Some st \<Rightarrow> st | None \<Rightarrow> claim_state_new (max start (after_ack acked)))"
  define out where "out = filter (\<lambda>m. deliver_from acked st1 \<le> tm_offset m \<and>
    \<not> (\<exists>c\<in>set (cs_pending st1). pc_reservation_id c \<noteq> rid \<and> claims_offset c (tm_offset m))) messages"
  define a b where "a = Min (set (map tm_offset out))" and "b = Max (set (map (\<lambda>m. sat_add (tm_offset m) 1) out))"
  have st1: "claims_ready st1"
    unfolding st1_def by (rule claims_ready_expire [OF claims_ready_default [OF ready]])
  have ab: "a < b" "after_ack (cs_last_acked st1) \<le> a" if "out \<noteq> []"
  proof -
    have m: "hd out \<in> set out" using that by simp
    have "\<forall>m\<in>set out. tm_offset m < u64_max" using bound by (simp add: out_def)
    from finish_lease [OF that this refl m, of 0 0 False] show "a < b" by (simp add: claims_offset_def a_def b_def)
    have from_here: "\<forall>m\<in>set out. deliver_from acked st1 \<le> tm_offset m" by (simp add: out_def)
    have "deliver_from acked st1 \<le> a"
      unfolding a_def using that from_here by (subst Min_ge_iff) auto
    then show "after_ack (cs_last_acked st1) \<le> a" by (simp add: deliver_from_def)
  qed
  note run' = run [unfolded group_finish_def Inr sum.case Let_def, folded st1_def, folded out_def, folded a_def b_def]
  show ?thesis
  proof (cases "out = []")
    case True
    then show ?thesis using run' claims_ready_cancel [OF st1] by auto
  next
    case False
    then show ?thesis
      using run' st1 claims_ready_finalize [OF st1 ab [OF False]] claims_ready_register [OF st1 ab [OF False]] by (auto split: if_splits)
  qed
qed

lemma group_empty_ready:
  assumes ready: "ready_at s (t, g, p)" and cursor: "\<forall>st. ts_group_claim_state s (t, g, p) = Some st \<longrightarrow> cs_cursor st \<le> a"
    and run: "group_empty rd t g p earliest a rid s = (r, s')"
  shows "ready_at s' (t, g, p)"
proof (cases "ts_group_claim_state s (t, g, p)")
  case None
  then show ?thesis using run by (auto simp: group_empty_def ready_at_def split: sum.splits)
next
  case (Some st)
  have st: "claims_ready (cancel_reservation rid st)" using ready Some by (simp add: ready_at_def claims_ready_cancel)
  moreover have "cs_cursor (cancel_reservation rid st) \<le> a" using cursor Some by (simp add: cancel_reservation_def)
  ultimately show ?thesis
    using run ready claims_ready_cursor [OF st] by (auto simp: group_empty_def Some Let_def split: sum.splits if_splits)
qed

lemma group_deliver_ready:
  assumes ready: "ready_at s (t, g, p)" and cursor: "\<forall>st. ts_group_claim_state s (t, g, p) = Some st \<longrightarrow> cs_cursor st \<le> a"
    and others: "\<And>pt s. same_group t g p s (others pt s)"
    and run: "group_deliver rd clk others t g p start_offset (Reserved e a n rid) s = (r, s')"
  shows "ready_at s' (t, g, p)"
proof -
  define s1 s2 s3 where "s1 = others BeforeLoad s" and "s2 = others BeforeFilter s1" and "s3 = others BeforeFinish s2"
  note o = others [of s BeforeLoad, folded s1_def] others [of s1 BeforeFilter, folded s2_def] others [of s2 BeforeFinish, folded s3_def]
  have r: "ready_at s1 (t, g, p)" "ready_at s2 (t, g, p)" "ready_at s3 (t, g, p)"
    using ready o [THEN ready_at_same] by simp_all
  have c2: "\<forall>st. ts_group_claim_state s2 (t, g, p) = Some st \<longrightarrow> cs_cursor st \<le> a"
    using cursor o by (simp add: same_group_def)
  note run' = run [unfolded group_deliver_def reserve_outcome.sel Let_def, folded s1_def, folded s2_def, folded s3_def]
  show ?thesis
  proof (cases "load_messages (rd ReadMessages) s1 t p a n")
    case (Inl err)
    then show ?thesis using run' r by simp
  next
    case (Inr messages)
    show ?thesis
    proof (cases "messages = [] \<or> \<not> rd RecheckAcked")
      case True
      then show ?thesis using run' group_empty_ready [OF r(2) c2] r(2) by (auto simp: Inr durable_eq split: if_splits)
    next
      case False
      define kept where "kept = filter (\<lambda>m. max a (case ts_group_claim_state s2 (t, g, p) of
          Some st \<Rightarrow> deliver_from (committed s2 t g p) st | None \<Rightarrow> after_ack (committed s2 t g p)) \<le> tm_offset m \<and>
        tm_offset m < sat_add a n) messages"
      have run'': "(if kept = [] then (Again, s2\<lparr>ts_group_claim_state := (ts_group_claim_state s2)((t, g, p) :=
            map_option (cancel_reservation rid) (ts_group_claim_state s2 (t, g, p)))\<rparr>)
          else group_finish rd clk t g p start_offset rid (committed s2 t g p) kept s3) = (r, s')"
        using run' False unfolding Inr sum.case durable_eq kept_def by simp
      have bound: "\<forall>m\<in>set kept. tm_offset m < u64_max"
        using sat_add_le_max [of a n] by (auto simp: kept_def)
      have "ready_at (s2\<lparr>ts_group_claim_state := (ts_group_claim_state s2)((t, g, p) :=
          map_option (cancel_reservation rid) (ts_group_claim_state s2 (t, g, p)))\<rparr>) (t, g, p)"
        using r(2) by (auto simp: ready_at_def claims_ready_cancel)
      then show ?thesis
        using run'' group_finish_ready [OF r(3) bound] by (auto split: if_splits)
    qed
  qed
qed

lemma group_loop_ready:
  assumes others: "\<And>i pt s. same_group t g p s (fw_others w i pt s)"
    and "ready_at s (t, g, p)" "group_loop n w i t g p start_offset limit s = Some (res, s')"
  shows "ready_at s' (t, g, p)"
  using assms(2,3)
proof (induction n arbitrary: i s)
  case (Suc n)
  let ?s = "fw_others w i BeforeRound s"
  have ready: "ready_at ?s (t, g, p)" using Suc.prems(1) ready_at_same [OF others] by simp
  obtain rv s1 where rv: "group_reserve (fw_reads w i) (fw_clock w i) t g p start_offset limit ?s = (rv, s1)" by force
  note res = group_reserve_ready [OF ready rv]
  obtain r s2 where r: "group_round (fw_reads w i) (fw_clock w i) (fw_others w i) t g p start_offset limit ?s = (r, s2)" by force
  have "ready_at s2 (t, g, p)"
  proof (cases rv)
    case (Stop x)
    then show ?thesis using res r rv by (simp add: group_round_def)
  next
    case (Reserved e a k rid)
    then have cursor: "\<forall>st. ts_group_claim_state s1 (t, g, p) = Some st \<longrightarrow> cs_cursor st \<le> a" using res by auto
    have "group_deliver (fw_reads w i) (fw_clock w i) (fw_others w i) t g p start_offset (Reserved e a k rid) s1 = (r, s2)"
      using r rv Reserved by (simp add: group_round_def)
    then show ?thesis by (rule group_deliver_ready [OF conjunct1 [OF res] cursor others])
  qed
  then show ?case using Suc r by (cases r) auto
qed simp

lemma group_run_ready: "group_run t g p s now H \<Longrightarrow> ready_at s (t, g, p)"
proof (induction rule: group_run.induct)
  case (fetch s now H now' w n start_offset limit res s')
  then show ?case
    using group_loop_ready [of t g p w s n 0 start_offset limit res s']
    by (auto simp: fetch_messages_for_group_def undisturbed_def split: if_splits)
next
  case (ack s now H ok ts off res s')
  then show ?case
    using claims_ready_ack [OF claims_ready_default [OF ack.IH]] by (auto simp: ack_offset_def Let_def split: if_splits)
next
  case (other s now H s' now')
  then show ?case using ready_at_same by blast
qed (simp add: ready_at_def)

section \<open>The first available run\<close>

definition available :: "claim_state \<Rightarrow> topic_message \<Rightarrow> bool" where
  "available st m = (cs_cursor st \<le> tm_offset m \<and> \<not> (\<exists>c\<in>set (cs_pending st). claims_offset c (tm_offset m)))"

definition first_run :: "nat \<Rightarrow> claim_state \<Rightarrow> topic_message list \<Rightarrow> topic_message list" where
  "first_run limit st log = take limit (takeWhile (available st) (dropWhile (\<lambda>m. \<not> available st m) log))"

lemma window_run:
  assumes log: "map tm_offset log = [f..<e]" "e \<le> u64_max" and ready: "claims_ready st" and "0 < limit"
    and win: "next_available_window limit st = (a, k)" "length (cs_pending st) < max_pending_claims" "f \<le> a"
  shows "first_run limit st log = page log a (min k (e - a))"
proof -
  define A where "A off = (cs_cursor st \<le> off \<and> \<not> (\<exists>c\<in>set (cs_pending st). claims_offset c off))" for off
  note w = next_window_facts [OF win(1,2)]
  have before: "\<forall>off. f \<le> off \<longrightarrow> off < a \<longrightarrow> \<not> A off"
    using w(4) by (auto simp: A_def)
  have inside: "\<forall>off. a \<le> off \<longrightarrow> off < a + k \<longrightarrow> A off"
    using w(1,5) by (fastforce simp: A_def)
  have "e \<le> a + k \<or> \<not> A (a + k)" if "k < limit"
    using w(6) [OF that] log(2) ready by (auto simp: A_def claims_ready_def claims_offset_def)
  then have after: "k = limit \<or> k < limit \<and> (e \<le> a + k \<or> \<not> A (a + k))"
    using w(2) by linarith
  have "0 < k" using w(3) assms(4) by (cases k) auto
  note run_page [OF log(1) win(3) before inside after this]
  moreover have "available st = (\<lambda>m. A (tm_offset m))" by (simp add: fun_eq_iff available_def A_def)
  ultimately show ?thesis by (simp add: first_run_def)
qed

lemma first_run_cursor:
  assumes "\<forall>m\<in>set log. cs_cursor st \<le> tm_offset m \<and> x \<le> tm_offset m"
  shows "first_run limit (st\<lparr>cs_cursor := x\<rparr>) log = first_run limit st log"
proof -
  have same: "available (st\<lparr>cs_cursor := x\<rparr>) m = available st m" if "m \<in> set log" for m
    using assms that by (simp add: available_def)
  then have "dropWhile (\<lambda>m. \<not> available (st\<lparr>cs_cursor := x\<rparr>) m) log = dropWhile (\<lambda>m. \<not> available st m) log"
    by (intro dropWhile_cong) simp_all
  then show ?thesis
    unfolding first_run_def using same by (auto intro!: arg_cong [of _ _ "take limit"] takeWhile_cong dest: set_dropWhileD)
qed

lemma quiet_round_run:
  assumes ok: "service_ok env s" and gap: "gap_free s t p" and "0 < limit"
    and ready: "\<forall>st. ts_group_claim_state s (t, g, p) = Some st \<longrightarrow> claims_ready st"
    and st: "st = settled now s t g p start_offset" and small: "length (cs_pending st) < max_pending_claims"
    and first: "log_first s t p \<le> fst (next_available_window limit st)"
  obtains s' where "group_round (\<lambda>_. True) (\<lambda>_. now) (\<lambda>_ s. s) t g p start_offset limit s = (Return (Inr (first_run limit st (service_log s t p))), s')"
    "leases now (t, g, p) s (first_run limit st (service_log s t p)) s'"
proof -
  obtain a k where win: "next_available_window limit st = (a, k)" by force
  have a: "log_first s t p \<le> a" using first win by simp
  have "claims_ready st" using settled_facts(1) [OF ready] by (simp add: st)
  note run = window_run [OF gap [unfolded gap_free_def] next_bounds(1) [OF ok] this assms(3) win small a]
  show ?thesis
    by (rule quiet_round [OF ok gap ready st small win a assms(3) refl, folded run]) (rule that)
qed

text \<open>A cursor before the first stored message takes one more round.\<close>

lemma quiet_behind:
  assumes ok: "service_ok env s" and gap: "gap_free s t p" and "0 < limit"
    and ready: "\<forall>st. ts_group_claim_state s (t, g, p) = Some st \<longrightarrow> claims_ready st"
    and st: "st = settled now s t g p start_offset" and small: "length (cs_pending st) < max_pending_claims"
    and behind: "fst (next_available_window limit st) < log_first s t p"
  obtains s1 s' where "group_round (\<lambda>_. True) (\<lambda>_. now) (\<lambda>_ s. s) t g p start_offset limit s = (Again, s1)"
    "group_round (\<lambda>_. True) (\<lambda>_. now) (\<lambda>_ s. s) t g p start_offset limit s1 = (Return (Inr (first_run limit st (service_log s t p))), s')"
    "leases now (t, g, p) s (first_run limit st (service_log s t p)) s'"
proof -
  obtain a l where win: "next_available_window limit st = (a, l)" by force
  define st1 s1 where "st1 = st\<lparr>cs_cursor := log_first s t p\<rparr>" and "s1 = put_claims (t, g, p) st1 s"
  note facts = next_window_facts [OF win small]
  have "0 < l" using facts(3) assms(3) by (cases l) auto
  then have one: "group_round (\<lambda>_. True) (\<lambda>_. now) (\<lambda>_ s. s) t g p start_offset limit s = (Again, s1)"
    using behind win by (simp add: group_round_def reserve_eq [OF ok] st [symmetric] group_window_def s1_def st1_def)
  have cursor: "cs_cursor st \<le> log_first s t p" using facts(1) behind win by simp
  have ready1: "\<forall>st. ts_group_claim_state s1 (t, g, p) = Some st \<longrightarrow> claims_ready st"
    using settled_facts(1) [OF ready, of now start_offset, folded st] cursor by (auto simp: s1_def st1_def claims_ready_def)
  have st1: "st1 = settled now s1 t g p start_offset"
    using settled_again [OF ready st cursor] by (simp add: s1_def st1_def)
  have small1: "length (cs_pending st1) < max_pending_claims" using small by (simp add: st1_def)
  obtain a1 l1 where win1: "next_available_window limit st1 = (a1, l1)" by force
  have first1: "log_first s1 t p \<le> fst (next_available_window limit st1)"
    using next_window_facts(1) [OF win1 small1] by (simp add: win1) (simp add: st1_def s1_def)
  have gap1: "gap_free s1 t p" and ok1: "service_ok env s1" using assms(1,2) by (simp_all add: s1_def gap_free_def)
  have "\<forall>m\<in>set (service_log s t p). log_first s t p \<le> tm_offset m"
    using assms(2) unfolding gap_free_def by (metis atLeastLessThan_iff image_eqI set_map set_upt)
  then have "\<forall>m\<in>set (service_log s t p). cs_cursor st \<le> tm_offset m \<and> log_first s t p \<le> tm_offset m"
    using cursor by (meson order_trans)
  note run = first_run_cursor [OF this, of limit, folded st1_def]
  show ?thesis
    by (rule quiet_round_run [OF ok1 gap1 assms(3) ready1 st1 small1 first1, unfolded s1_def put_claims_sel run, folded s1_def])
      (rule that [OF one], auto simp: leases_def s1_def)
qed

lemma quiet_fetch:
  assumes "service_ok env s" "gap_free s t p" "quiet now w" "0 < limit" "2 \<le> n"
    and claims: "\<forall>st. ts_group_claim_state s (t, g, p) = Some st \<longrightarrow> claims_ready st"
    and "st = settled now s t g p start_offset"
    and "ms = (if max_pending_claims \<le> length (cs_pending st) then [] else first_run limit st (service_log s t p))"
  shows "\<exists>s'. fetch_messages_for_group n w t g p start_offset limit s = Some (Inr ms, s') \<and> leases now (t, g, p) s ms s'"
proof -
  have w: "fw_reads w i = (\<lambda>_. True)" "fw_clock w i = (\<lambda>_. now)" "fw_others w i = (\<lambda>_ s. s)" for i
    using assms(3) by (simp_all add: quiet_def)
  obtain k where n: "n = Suc (Suc k)" using assms(5) by (metis add_2_eq_Suc le_Suc_ex)
  obtain a l where win: "next_available_window limit st = (a, l)" by force
  note res = reserve_eq [OF assms(1), of now t g p start_offset limit, folded assms(7)]
  show ?thesis
  proof (cases "max_pending_claims \<le> length (cs_pending st)")
    case True
    then have "group_round (\<lambda>_. True) (\<lambda>_. now) (\<lambda>_ s. s) t g p start_offset limit s = (Return (Inr []), put_claims (t, g, p) st s)"
      by (simp add: group_round_def res group_window_def next_available_window_def)
    then show ?thesis
      using True assms(4,8) by (simp add: fetch_messages_for_group_def n w leases_def)
  next
    case False
    then have small: "length (cs_pending st) < max_pending_claims" and ms: "ms = first_run limit st (service_log s t p)"
      using assms(8) by simp_all
    show ?thesis
    proof (cases "log_first s t p \<le> a")
      case True
      show ?thesis
        by (rule quiet_round_run [OF assms(1,2,4) claims assms(7) small]) (use True win assms(4) in \<open>auto simp: fetch_messages_for_group_def n w ms\<close>)
    next
      case behind: False
      obtain s1 s' where "group_round (\<lambda>_. True) (\<lambda>_. now) (\<lambda>_ s. s) t g p start_offset limit s = (Again, s1)"
        "group_round (\<lambda>_. True) (\<lambda>_. now) (\<lambda>_ s. s) t g p start_offset limit s1 = (Return (Inr ms), s')"
        "leases now (t, g, p) s ms s'"
        using quiet_behind [OF assms(1,2,4) claims assms(7) small] behind win ms by (metis fst_conv not_le)
      then show ?thesis using assms(4) by (simp add: fetch_messages_for_group_def n w)
    qed
  qed
qed

section \<open>A hole in the log\<close>

text \<open>
  A failed write leaves a hole in the offsets. When the window of a fetch lies in the hole but
  messages follow, the load is not empty, nothing in it belongs to the window, and the round starts
  over from the same state: the fetch never returns, and it holds the lock of the group meanwhile.
\<close>

definition stuck_at :: "nat \<Rightarrow> topic_id \<Rightarrow> consumer_group_id \<Rightarrow> nat \<Rightarrow> topic_service \<Rightarrow> bool" where
  "stuck_at a t g p s =
     (after_ack (committed s t g p) = a \<and> committed s t g p \<noteq> None \<and>
      (\<forall>st. ts_group_claim_state s (t, g, p) = Some st \<longrightarrow> cs_pending st = [] \<and> cs_cursor st = a \<and> after_ack (cs_last_acked st) \<le> a))"

lemma stuck_settled:
  assumes "stuck_at a t g p s"
  shows "cs_pending (settled now s t g p start) = []" "cs_cursor (settled now s t g p start) = a"
    "after_ack (cs_last_acked (settled now s t g p start)) = a"
proof -
  obtain c where c: "committed s t g p = Some c" "sat_add c 1 = a"
    using assms by (auto simp: stuck_at_def after_ack_def)
  define st where "st = (case ts_group_claim_state s (t, g, p) of Some st \<Rightarrow> st | None \<Rightarrow> claim_state_new a)"
  have st: "cs_pending st = []" "cs_cursor st = a" "after_ack (cs_last_acked st) \<le> a"
    using assms by (auto simp: st_def stuck_at_def claim_state_new_def after_ack_def split: option.splits)
  have default: "(case ts_group_claim_state s (t, g, p) of Some st \<Rightarrow> st
      | None \<Rightarrow> claim_state_new (case committed s t g p of Some a \<Rightarrow> sat_add a 1 | None \<Rightarrow> start)) = st"
    using c by (simp add: st_def split: option.splits)
  have "settled now s t g p start = ack_up_to c st"
    unfolding settled_def Let_def default using st(1) c(1) by (simp add: expire_none)
  then show "cs_pending (settled now s t g p start) = []" "cs_cursor (settled now s t g p start) = a"
    "after_ack (cs_last_acked (settled now s t g p start)) = a"
    using st c(2) after_ack_last [of c st] by (simp_all add: ack_last List.map_filter_simps max_def)
qed

lemma stuck_round:
  assumes ok: "service_ok env s" and stuck: "stuck_at a t g p s" and a: "log_first s t p \<le> a" "0 < limit" "a + limit \<le> u64_max"
    and hole: "\<forall>m\<in>set (service_log s t p). tm_offset m < a \<or> a + limit \<le> tm_offset m"
    and later: "\<exists>m\<in>set (service_log s t p). a + limit \<le> tm_offset m"
  obtains s' where "group_round (\<lambda>_. True) (\<lambda>_. now) (\<lambda>_ s. s) t g p start limit s = (Again, s')"
    "stuck_at a t g p s'" "service_ok env s'" "service_log s' t p = service_log s t p" "log_first s' t p = log_first s t p"
proof -
  define st where "st = settled now s t g p start"
  note st = stuck_settled [OF stuck, of now start, folded st_def]
  have win: "next_available_window limit st = (a, limit)"
    using st a(3) by (simp add: next_available_window_def max_pending_claims_def skip_claims.simps [of "[]"] skip_pass_def)
  have far: "a + limit < service_next s t p"
    using later service_okD(4) [OF ok] by (metis le_less_trans)
  have res: "group_reserve (\<lambda>_. True) (\<lambda>_. now) t g p start limit s =
      (Reserved (log_first s t p) a limit (cs_next_reservation_id st), put_claims (t, g, p) (reserved_state a limit now st) s)"
    unfolding reserve_eq [OF ok] st_def [symmetric] group_window_def win
    using far a by (simp add: watermark_eq [OF ok] reserve_window_eq min_def)
  define s1 where "s1 = put_claims (t, g, p) (reserved_state a limit now st) s"
  define s' where "s' = put_claims (t, g, p) (cancel_reservation (cs_next_reservation_id st) (reserved_state a limit now st)) s1"
  define ms where "ms = page (service_log s t p) a limit"
  have load: "load_messages True s1 t p a limit = Inr ms"
    using load_eq [of env s1] ok by (simp add: s1_def ms_def)
  have "filter (\<lambda>m. a \<le> tm_offset m) (service_log s t p) \<noteq> []"
    using later by (force simp: filter_empty_conv)
  then have ne: "ms \<noteq> []" using a(2) by (simp add: ms_def page_def)
  have "\<forall>m\<in>set ms. a + limit \<le> tm_offset m"
    using hole by (fastforce simp: ms_def page_def dest: in_set_takeD)
  then have none: "filter (\<lambda>m. b \<le> tm_offset m \<and> tm_offset m < sat_add a limit) ms = []" for b
    using a(3) by (auto simp: filter_empty_conv sat_add_def)
  have "group_deliver (\<lambda>_. True) (\<lambda>_. now) (\<lambda>_ s. s) t g p start (Reserved (log_first s t p) a limit (cs_next_reservation_id st)) s1 = (Again, s')"
    unfolding group_deliver_def reserve_outcome.sel Let_def load sum.case if_not_P [OF ne] durable_eq if_True none
    by (simp add: s'_def s1_def put_claims_def)
  then have again: "group_round (\<lambda>_. True) (\<lambda>_. now) (\<lambda>_ s. s) t g p start limit s = (Again, s')"
    by (simp add: group_round_def res s1_def)
  have still: "stuck_at a t g p s'"
    using stuck st by (simp add: stuck_at_def s'_def s1_def cancel_reservation_def reserved_last_acked reserved_cursor)
  show ?thesis
    by (rule that [OF again still]) (use ok in \<open>simp_all add: s'_def s1_def\<close>)
qed

lemma group_fetch_never_returns:
  assumes "service_ok env s" "stuck_at a t g p s" "quiet now w" "log_first s t p \<le> a" "0 < limit" "a + limit \<le> u64_max"
    and "\<forall>m\<in>set (service_log s t p). tm_offset m < a \<or> a + limit \<le> tm_offset m"
    and "\<exists>m\<in>set (service_log s t p). a + limit \<le> tm_offset m"
  shows "fetch_messages_for_group n w t g p start limit s = None"
proof -
  have w: "fw_reads w i = (\<lambda>_. True)" "fw_clock w i = (\<lambda>_. now)" "fw_others w i = (\<lambda>_ s. s)" for i
    using assms(3) by (simp_all add: quiet_def)
  have "group_loop n w i t g p start limit s = None" for i
    using assms(1,2,4,7,8)
  proof (induction n arbitrary: i s)
    case (Suc n)
    show ?case
      by (rule stuck_round [OF Suc.prems(1-3) assms(5,6) Suc.prems(4,5), of now start]) (use Suc.IH Suc.prems(3-5) in \<open>simp add: w\<close>)
  qed simp
  then show ?thesis using assms(5) by (simp add: fetch_messages_for_group_def)
qed

section \<open>Consumers beside publishers\<close>

text \<open>Publishing leaves every group alone, and publishing a stored message leaves no hole.\<close>

lemma publish_locked_same_group:
  "publish_locked env ok t' p' payload key ts u op s = (r, s') \<Longrightarrow> same_group t g p s s'"
  by (auto simp: publish_locked_eq same_group_def committed_def appended_def skipped_def put_runtime_def Let_def split: if_splits)

lemma same_group_trans: "same_group t g p s s' \<Longrightarrow> same_group t g p s' s'' \<Longrightarrow> same_group t g p s s''"
  by (simp add: same_group_def)

lemma publish_loop_same_group:
  "publish_loop env feed tbl op r u pr key es n s = (res, s') \<Longrightarrow> same_group t g p s s'"
proof (induction es arbitrary: n s)
  case (Cons e es)
  show ?case
  proof (cases "route_matches_row env e r \<and> (\<exists>payload. extract_payload env pr (entry_route e) tbl = Inr payload) \<and> entry_partitions e \<noteq> 0")
    case True
    then obtain payload where payload: "extract_payload env pr (entry_route e) tbl = Inr payload" by blast
    let ?h = "case key of Some k \<Rightarrow> pe_hash_key env k | None \<Rightarrow> pr_partition_hash pr"
    obtain x s1 where one: "publish_locked env (fst (feed n)) (entry_topic_id e) (?h mod entry_partitions e) payload key
        (snd (feed n)) u op s = (x, s1)" by force
    then show ?thesis
      using Cons True payload same_group_trans [OF publish_locked_same_group [OF one]] publish_locked_same_group [OF one]
      by (cases x) (auto simp: Let_def)
  next
    case False
    then show ?thesis using Cons by (auto simp: same_group_def split: if_splits sum.splits)
  qed
qed (simp add: same_group_def)

lemma publish_message_same_group:
  "publish_message env hs feed tbl op r u s = (res, s') \<Longrightarrow> same_group t g p s s'"
  using publish_loop_same_group
  by (auto simp: publish_message_def same_group_def Let_def split: if_splits sum.splits)

lemma gap_free_appended:
  assumes "service_ok env s" "gap_free s t p" "map tm_offset ms = [service_next s t p..<service_next s t p + length ms]"
    and "\<forall>m\<in>set ms. tm_topic_id m = t \<and> tm_partition_id m = p \<and> payload_fits (tm_payload m)"
    and "service_next s t p + length ms \<le> u64_max" "service_log s t p \<noteq> []"
  shows "gap_free (appended env t p ms s) t p"
proof -
  let ?s = "appended env t p ms s"
  have log: "service_log ?s t p = service_log s t p @ ms" and nxt: "service_next ?s t p = service_next s t p + length ms"
    using appended_ok(2,3) [OF assms(1,3,4,5), of t p] by simp_all
  have first: "log_first ?s t p = log_first s t p"
    using assms(6) by (cases "service_log s t p") (simp_all add: log_first_def log)
  have "map tm_offset (service_log s t p @ ms) = [log_first s t p..<service_next s t p] @ [service_next s t p..<service_next s t p + length ms]"
    using assms(2,3) by (simp only: gap_free_def map_append)
  also have "\<dots> = [log_first s t p..<service_next s t p + length ms]"
    by (rule upt_add_eq_append [OF next_bounds(2) [OF assms(1)], symmetric])
  finally show ?thesis unfolding gap_free_def log nxt first .
qed

section \<open>Examples\<close>

definition still_world :: "nat \<Rightarrow> fetch_world" where
  "still_world now = \<lparr>fw_reads = \<lambda>_ _. True, fw_clock = \<lambda>_ _. now, fw_others = \<lambda>_ _ s. s\<rparr>"

lemma still_world_facts: "quiet now (still_world now)" "undisturbed t g p now now (still_world now)"
  by (simp_all add: quiet_def undisturbed_def still_world_def same_group_def)

lemma restored_claims: "ts_group_claim_state (restarted env oks topics ms os timeout) = Map.empty"
proof -
  have ps: "ts_group_claim_state (fold (restore_partition oks t) ps s) = ts_group_claim_state s" for t ps s
    by (induction ps arbitrary: s) simp_all
  have "ts_group_claim_state (fold (\<lambda>t. fold (restore_partition oks (tp_topic_id t)) [0..<tp_partitions t]) topics s) = ts_group_claim_state s" for s
    by (induction topics arbitrary: s) (simp_all add: ps)
  then show ?thesis
    by (simp add: restarted_def restore_offset_counters_def refresh_topics_cache_def service_new_def)
qed

lemma example_group:
  shows "service_ok example_publish_env example_restarted" "group_run ''events'' ''g'' 0 example_restarted 0 []"
    and "gap_free example_restarted ''events'' 0" "service_log example_restarted ''events'' 0 = [example_message 0]"
    and "settled 0 example_restarted ''events'' ''g'' 0 0 = claim_state_new 0"
    and "committed example_restarted ''events'' ''g'' 0 = None" "next_id_at example_restarted (''events'', ''g'', 0) = 1"
proof -
  show "service_ok example_publish_env example_restarted"
    by (rule restarted_ok [OF example_stored_facts(1,3,4)])
  show "group_run ''events'' ''g'' 0 example_restarted 0 []"
    by (rule group_run.start) (simp add: restored_claims)
  show log: "service_log example_restarted ''events'' 0 = [example_message 0]"
    by (simp add: restarted_sel(1) example_stored_facts(2))
  have "has_partition [example_topic ''events''] ''events'' 0"
    using example_stored_facts(2,3) by simp
  then show "gap_free example_restarted ''events'' 0"
    using restored_partition_ok(2) [OF example_stored_facts(1) example_stored_facts(4) [THEN spec, THEN spec], of "''events''" 0]
    by (simp add: gap_free_def log log_first_def restarted_sel(3) example_stored_facts(2) example_message_def)
  show none: "committed example_restarted ''events'' ''g'' 0 = None"
    by (simp add: committed_def restarted_sel(2) get_offset_def)
  show "settled 0 example_restarted ''events'' ''g'' 0 0 = claim_state_new 0"
    by (simp add: settled_def restored_claims none expire_none claim_state_new_def)
  show "next_id_at example_restarted (''events'', ''g'', 0) = 1"
    by (simp add: next_id_at_def restored_claims)
qed

lemma example_fetch:
  "\<exists>s'. fetch_messages_for_group 2 (still_world 0) ''events'' ''g'' 0 0 5 example_restarted = Some (Inr [example_message 0], s') \<and>
    leases 0 (''events'', ''g'', 0) example_restarted [example_message 0] s'"
proof -
  note e = example_group
  have run: "first_run 5 (claim_state_new 0) [example_message 0] = [example_message 0]"
    by (simp add: first_run_def available_def claim_state_new_def)
  show ?thesis
    by (rule quiet_fetch [OF e(1,3) still_world_facts(1) _ _ _ e(5) [symmetric]])
      (simp_all add: e(4) run restored_claims, simp add: max_pending_claims_def claim_state_new_def)
qed

section \<open>Properties\<close>

text \<open>
  C33: A group fetch that nothing disturbs always returns, after at most two rounds, and delivers the
  first run of available messages: those from the hand-out cursor on that no live claim covers and
  that are not committed, consecutive, at most as many as requested. It delivers nothing only when
  none is available or 32 claims are pending. What it delivers is leased to the consumer from now on,
  and logs, committed offsets and other groups are unchanged. The log must have no holes.
\<close>

theorem group_fetch_first_available_run:
  assumes "service_ok env s" "gap_free s t p" "quiet now w" "0 < limit" "2 \<le> n"
    and "group_run t g p s before H"
    and "st = settled now s t g p start_offset"
    and "ms = (if max_pending_claims \<le> length (cs_pending st) then [] else first_run limit st (service_log s t p))"
  shows "\<exists>s'. fetch_messages_for_group n w t g p start_offset limit s = Some (Inr ms, s') \<and> leases now (t, g, p) s ms s'"
  using quiet_fetch [OF assms(1-5) _ assms(7,8)] group_run_ready [OF assms(6)] by (simp add: ready_at_def)

theorem group_fetch_first_available_run_witness:
  "\<exists>s'. fetch_messages_for_group 2 (still_world 0) ''events'' ''g'' 0 0 5 example_restarted = Some (Inr [example_message 0], s')"
proof -
  note e = example_group
  have run: "first_run 5 (claim_state_new 0) [example_message 0] = [example_message 0]"
    by (simp add: first_run_def available_def claim_state_new_def)
  have "\<exists>s'. fetch_messages_for_group 2 (still_world 0) ''events'' ''g'' 0 0 5 example_restarted = Some (Inr [example_message 0], s') \<and>
      leases 0 (''events'', ''g'', 0) example_restarted [example_message 0] s'"
    by (rule group_fetch_first_available_run [OF e(1,3) still_world_facts(1) _ _ e(2) e(5) [symmetric]])
      (simp_all add: e(4) run, simp add: max_pending_claims_def claim_state_new_def)
  then show ?thesis by blast
qed




end
