(* ===== verification/MachineWords.thy ===== *)
theory MachineWords
  imports TextNum "HOL-Library.Word"
begin

text \<open>
  64-bit machine words as the identifier types use them: packing two fields with a shift and a
  bitwise or, the largest \<open>i64\<close>, and the big-endian byte encoding (\<open>to_be_bytes\<close>,
  \<open>from_be_bytes\<close>) with its agreement between byte order and numeric order.
\<close>

unbundle bit_operations_syntax

named_theorems pack_simps \<open>numeric value of packed fields\<close>

section \<open>Packed fields\<close>

definition i64_max :: "64 word" where
  "i64_max = 0x7FFFFFFFFFFFFFFF"

lemma unat_i64_max [simp]: "unat i64_max = 2 ^ 63 - 1"
  by (simp add: i64_max_def)

lemma or_eq_add_nat:
  "b < 2 ^ n \<Longrightarrow> push_bit n a OR b = a * 2 ^ n + b" for a b :: nat
proof -
  assume "b < 2 ^ n"
  then have "take_bit n b = b"
    by (simp add: take_bit_nat_eq_self_iff)
  then have "push_bit n a AND b = 0"
    by (intro bit_eqI) (metis bit_and_iff bit_push_bit_iff bit_take_bit_iff bit_0_eq bot_apply not_less bot_bool_def)
  then show ?thesis
    using disjunctive_add_eq_or [of "push_bit n a" b] by (simp add: push_bit_eq_mult)
qed

lemma unat_shift_or [pack_simps]:
  fixes a b :: "64 word"
  assumes "unat b < 2 ^ n" "unat a < 2 ^ (64 - n)" "n \<le> 64"
  shows "unat (push_bit n a OR b) = unat a * 2 ^ n + unat b"
proof -
  have "unat a * 2 ^ n < 2 ^ (64 - n) * 2 ^ n"
    using assms(2) by (intro mult_strict_right_mono) simp_all
  then have "unat (push_bit n a) = push_bit n (unat a)"
    using assms(3) by (simp add: unsigned_push_bit_eq take_bit_nat_eq_self_iff flip: power_add)
      (simp add: push_bit_eq_mult)
  then show ?thesis
    by (simp add: unsigned_or_eq or_eq_add_nat [OF assms(1)])
qed

lemma shift_field [pack_simps]: "b < 2 ^ n \<Longrightarrow> drop_bit n (a * 2 ^ n + b) = a" for a b :: nat
  by (simp add: drop_bit_eq_div)

lemma mask_field [pack_simps]: "b < 2 ^ n \<Longrightarrow> (a * 2 ^ n + b) AND (2 ^ n - 1) = b" for a b :: nat
proof -
  assume "b < 2 ^ n"
  moreover have "(2 ^ n - 1 :: nat) = mask n"
    by (simp add: mask_eq_exp_minus_1)
  ultimately show ?thesis
    by (simp add: take_bit_eq_mod flip: take_bit_eq_mask)
qed

lemma pair_less_iff_packed:
  fixes a b a' b' :: nat
  assumes "b < m" "b' < m"
  shows "a * m + b < a' * m + b' \<longleftrightarrow> a < a' \<or> a = a' \<and> b < b'"
proof -
  have less: "c * m + d < c' * m + d'" if "c < c'" "d < m" for c d c' d' :: nat
  proof -
    have "c * m + d < Suc c * m"
      using that(2) by simp
    also have "\<dots> \<le> c' * m"
      using that(1) by (intro mult_le_mono1) simp
    finally show ?thesis by simp
  qed
  show ?thesis
    using less [of a a' b b'] less [of a' a b' b] assms by (cases a a' rule: linorder_cases) auto
qed

section \<open>Big-endian bytes\<close>

fun be_bytes :: "nat \<Rightarrow> nat \<Rightarrow> 8 word list" where
  "be_bytes 0 x = []"
| "be_bytes (Suc n) x = be_bytes n (x div 256) @ [of_nat x]"

definition to_be_bytes :: "64 word \<Rightarrow> 8 word list" where
  "to_be_bytes w = be_bytes 8 (unat w)"

definition be_value :: "8 word list \<Rightarrow> nat" where
  "be_value bs = foldl (\<lambda>acc b. acc * 256 + unat b) 0 bs"

definition from_be_bytes :: "8 word list \<Rightarrow> 64 word" where
  "from_be_bytes bs = of_nat (be_value bs)"

lemma length_be_bytes [simp]: "length (be_bytes n x) = n"
  by (induction n arbitrary: x) auto

lemma length_to_be_bytes [simp]: "length (to_be_bytes w) = 8"
  by (simp add: to_be_bytes_def)

lemma be_value_snoc [simp]: "be_value (bs @ [b]) = be_value bs * 256 + unat b"
  by (simp add: be_value_def)

lemma unat_byte: "unat (of_nat x :: 8 word) = x mod 256"
  by (simp add: unat_of_nat)

lemma be_value_bytes: "be_value (be_bytes n x) = x mod 256 ^ n"
proof (induction n arbitrary: x)
  case (Suc n)
  have "x mod 256 ^ Suc n = 256 * (x div 256 mod 256 ^ n) + x mod 256"
    by (simp add: mod_mult2_eq)
  with Suc show ?case by (simp add: unat_byte)
qed (simp add: be_value_def)

lemma from_to_be_bytes [simp]: "from_be_bytes (to_be_bytes w) = w"
proof -
  have "unat w < 256 ^ 8"
    using unsigned_less [of w] by simp
  then show ?thesis
    by (simp add: from_be_bytes_def to_be_bytes_def be_value_bytes)
qed

lemma list_less_snoc:
  fixes xs ys :: "'a::linorder list"
  shows "length xs = length ys \<Longrightarrow> xs @ [a] < ys @ [b] \<longleftrightarrow> xs < ys \<or> xs = ys \<and> a < b"
  by (induction xs ys rule: list_induct2) auto

lemma be_bytes_eq_iff: "x < 256 ^ n \<Longrightarrow> y < 256 ^ n \<Longrightarrow> be_bytes n x = be_bytes n y \<longleftrightarrow> x = y"
  by (metis be_value_bytes mod_less)

lemma be_bytes_less_iff:
  "x < 256 ^ n \<Longrightarrow> y < 256 ^ n \<Longrightarrow> be_bytes n x < be_bytes n y \<longleftrightarrow> x < y"
proof (induction n arbitrary: x y)
  case (Suc n)
  have bound: "x div 256 < 256 ^ n" "y div 256 < 256 ^ n"
    using Suc.prems by (simp_all add: less_mult_imp_div_less mult.commute)
  have "x < y \<longleftrightarrow> x div 256 < y div 256 \<or> x div 256 = y div 256 \<and> x mod 256 < y mod 256"
    using pair_less_iff_packed [of "x mod 256" 256 "y mod 256" "x div 256" "y div 256"] by simp
  moreover have "(of_nat x :: 8 word) < of_nat y \<longleftrightarrow> x mod 256 < y mod 256"
    by (simp add: word_less_nat_alt unat_byte)
  ultimately show ?case
    using Suc.IH [OF bound] be_bytes_eq_iff [OF bound] by (simp add: list_less_snoc)
qed simp

lemma to_be_bytes_less_iff: "to_be_bytes v < to_be_bytes w \<longleftrightarrow> v < w"
proof -
  have "unat v < 256 ^ 8" "unat w < 256 ^ 8"
    using unsigned_less [of v] unsigned_less [of w] by simp_all
  then show ?thesis
    unfolding to_be_bytes_def word_less_nat_alt by (rule be_bytes_less_iff)
qed

end
