(* ===== verification/VersionIds.thy ===== *)
theory VersionIds
  imports MachineWords
begin

text \<open>
  Row versions: \<open>VersionId\<close>, its Raft packing, entry bounds and materialized frontiers
  (\<open>kalamdb-commons/src/ids/version_id.rs\<close> and \<open>version_domain.rs\<close>), the assignment of versions
  to the rows of a committed entry (\<open>kalamdb-raft/src/commands/data_response.rs\<close>) and the
  versions and snapshot bounds of the table layer
  (\<open>kalamdb-tables/src/utils/base/versions.rs\<close>).
\<close>

section \<open>Values\<close>

datatype version_id = VersionId (version_raw: "64 word")

text \<open>The derived \<open>Ord\<close> compares the raw values.\<close>

instantiation version_id :: linorder
begin

definition less_eq_version_id :: "version_id \<Rightarrow> version_id \<Rightarrow> bool" where
  "less_eq_version_id v w \<longleftrightarrow> version_raw v \<le> version_raw w"

definition less_version_id :: "version_id \<Rightarrow> version_id \<Rightarrow> bool" where
  "less_version_id v w \<longleftrightarrow> version_raw v < version_raw w"

instance
  by standard (auto simp: less_eq_version_id_def less_version_id_def version_id.expand)

end

datatype raft_version_id = RaftVersionId (raft_version: version_id)

datatype entry_version_bound = EntryVersionBound (bound_raw: "64 word")

datatype materialized_frontier =
    EmptyFrontier | RaftFrontier "64 word" | LocalFrontier version_id

datatype version_error =
    LogIndexOutOfRange | OrdinalOutOfRange | TooManySlots "64 word" | EmptyVersion | SignedOverflow
  | InvalidDecimal | VersionDomainMismatch | FrontierMismatch

record version_domain =
  vd_history_incarnation :: string
  vd_table_id :: table_id
  vd_scope_id :: nat
  vd_partition_id :: "nat option"

definition max_log_index :: "64 word" where
  "max_log_index = drop_bit 16 i64_max"

definition max_ordinal :: "32 word" where
  "max_ordinal = 65535"

definition max_row_slots_per_entry :: "64 word" where
  "max_row_slots_per_entry = ucast max_ordinal + 1"

section \<open>Version ids\<close>

definition version_try_from_raw :: "64 word \<Rightarrow> version_error + version_id" where
  "version_try_from_raw value =
     (if value = 0 then Inl EmptyVersion
      else if value > i64_max then Inl SignedOverflow
      else Inr (VersionId value))"

definition version_try_from_local_sequence :: "64 word \<Rightarrow> version_error + version_id" where
  "version_try_from_local_sequence sequence = version_try_from_raw sequence"

text \<open>An \<open>i64\<close> argument is an integer of that range.\<close>

definition version_try_from_i64 :: "int \<Rightarrow> version_error + version_id" where
  "version_try_from_i64 value =
     (if value < 0 then Inl EmptyVersion else version_try_from_raw (word_of_int value))"

definition empty_snapshot :: version_id where
  "empty_snapshot = VersionId 0"

text \<open>\<open>None\<close> is the panic of \<open>expect\<close>.\<close>

definition version_as_i64 :: "version_id \<Rightarrow> int option" where
  "version_as_i64 v = (if version_raw v > i64_max then None else Some (uint (version_raw v)))"

definition version_to_decimal_string :: "version_id \<Rightarrow> string" where
  "version_to_decimal_string v = show_dec (unat (version_raw v))"

definition version_from_decimal_str :: "string \<Rightarrow> version_error + version_id" where
  "version_from_decimal_str s =
     (case parse_unsigned u64_max s of
        None \<Rightarrow> Inl InvalidDecimal
      | Some n \<Rightarrow> version_try_from_raw (of_nat n))"

definition version_to_be_bytes :: "version_id \<Rightarrow> 8 word list" where
  "version_to_be_bytes v = to_be_bytes (version_raw v)"

text \<open>The storage key decoder: a wrong length is \<open>None\<close>, the array decoder's error is kept.\<close>

definition version_from_bytes :: "8 word list \<Rightarrow> version_error option + version_id" where
  "version_from_bytes bs =
     (if length bs \<noteq> 8 then Inl None
      else case version_try_from_raw (from_be_bytes bs) of Inl e \<Rightarrow> Inl (Some e) | Inr v \<Rightarrow> Inr v)"

section \<open>Raft versions\<close>

definition raft_try_new :: "64 word \<Rightarrow> 32 word \<Rightarrow> version_error + raft_version_id" where
  "raft_try_new log_index ordinal =
     (if log_index = 0 \<or> log_index > max_log_index then Inl LogIndexOutOfRange
      else if ordinal > max_ordinal then Inl OrdinalOutOfRange
      else Inr (RaftVersionId (VersionId (push_bit 16 log_index OR ucast ordinal))))"

definition raft_log_index :: "raft_version_id \<Rightarrow> 64 word" where
  "raft_log_index r = drop_bit 16 (version_raw (raft_version r))"

definition raft_ordinal :: "raft_version_id \<Rightarrow> 32 word" where
  "raft_ordinal r = ucast (version_raw (raft_version r) AND 65535)"

datatype ordering = OrdLess | OrdEqual | OrdGreater

definition version_cmp :: "version_id \<Rightarrow> version_id \<Rightarrow> ordering" where
  "version_cmp v w = (if v < w then OrdLess else if v = w then OrdEqual else OrdGreater)"

definition same_domain_cmp ::
    "version_domain \<Rightarrow> version_id \<Rightarrow> version_domain \<Rightarrow> version_id \<Rightarrow> version_error + ordering" where
  "same_domain_cmp left_domain l right_domain r =
     (if left_domain \<noteq> right_domain then Inl VersionDomainMismatch else Inr (version_cmp l r))"

definition check_entry_slot_count :: "64 word \<Rightarrow> version_error + unit" where
  "check_entry_slot_count slots =
     (if slots > max_row_slots_per_entry then Inl (TooManySlots slots) else Inr ())"

section \<open>Bounds and frontiers\<close>

definition entry_bound_empty :: entry_version_bound where
  "entry_bound_empty = EntryVersionBound 0"

definition entry_bound_from_log_index :: "64 word \<Rightarrow> version_error + entry_version_bound" where
  "entry_bound_from_log_index log_index =
     (if log_index = 0 then Inr entry_bound_empty
      else if log_index > max_log_index then Inl LogIndexOutOfRange
      else Inr (EntryVersionBound (push_bit 16 log_index OR 65535)))"

definition entry_bound_includes :: "entry_version_bound \<Rightarrow> raft_version_id \<Rightarrow> bool" where
  "entry_bound_includes b r =
     (if bound_raw b = 0 then False else version_raw (raft_version r) \<le> bound_raw b)"

definition frontier_raft :: "64 word \<Rightarrow> version_error + materialized_frontier" where
  "frontier_raft log_index =
     (if log_index = 0 then Inr EmptyFrontier
      else if log_index > max_log_index then Inl LogIndexOutOfRange
      else Inr (RaftFrontier log_index))"

fun frontier_includes_raft :: "materialized_frontier \<Rightarrow> raft_version_id \<Rightarrow> version_error + bool" where
  "frontier_includes_raft EmptyFrontier r = Inr False"
| "frontier_includes_raft (RaftFrontier log_index) r = Inr (raft_log_index r \<le> log_index)"
| "frontier_includes_raft (LocalFrontier _) r = Inl FrontierMismatch"

fun frontier_includes_local :: "materialized_frontier \<Rightarrow> version_id \<Rightarrow> version_error + bool" where
  "frontier_includes_local EmptyFrontier v = Inr False"
| "frontier_includes_local (LocalFrontier through) v = Inr (v \<le> through)"
| "frontier_includes_local (RaftFrontier _) v = Inl FrontierMismatch"

section \<open>Assignment\<close>

text \<open>The loop of \<open>assign_entry_versions\<close> over the remaining ordinals.\<close>

fun assign_versions_loop :: "64 word \<Rightarrow> nat list \<Rightarrow> version_error + version_id list" where
  "assign_versions_loop log_index [] = Inr []"
| "assign_versions_loop log_index (ordinal # ordinals) =
     (case raft_try_new log_index (of_nat ordinal) of
        Inl e \<Rightarrow> Inl e
      | Inr r \<Rightarrow>
          (case assign_versions_loop log_index ordinals of
             Inl e \<Rightarrow> Inl e
           | Inr vs \<Rightarrow> Inr (raft_version r # vs)))"

definition assign_entry_versions :: "64 word \<Rightarrow> nat \<Rightarrow> version_error + version_id list" where
  "assign_entry_versions entry_log_index slot_count =
     (case check_entry_slot_count (of_nat slot_count) of
        Inl e \<Rightarrow> Inl e
      | Inr _ \<Rightarrow> assign_versions_loop entry_log_index [0..<slot_count])"

definition snapshot_bound_from_log_index :: "64 word \<Rightarrow> version_id option" where
  "snapshot_bound_from_log_index log_index =
     (case entry_bound_from_log_index log_index of
        Inl _ \<Rightarrow> None
      | Inr b \<Rightarrow>
          if bound_raw b = 0 then None
          else case version_try_from_raw (bound_raw b) of Inl _ \<Rightarrow> None | Inr v \<Rightarrow> Some v)"

definition transaction_snapshot_bound :: "64 word \<Rightarrow> version_id option" where
  "transaction_snapshot_bound log_index =
     (if log_index = 0 then Some empty_snapshot else snapshot_bound_from_log_index log_index)"

definition statement_row_version :: "64 word \<Rightarrow> 32 word \<Rightarrow> version_error + version_id" where
  "statement_row_version log_index ordinal =
     map_sum id raft_version (raft_try_new (if log_index = 0 then 1 else log_index) ordinal)"

text \<open>\<open>Inl None\<close> is the error of an ordinal beyond \<open>u32\<close>.\<close>

fun direct_versions_loop :: "64 word \<Rightarrow> nat list \<Rightarrow> version_error option + version_id list" where
  "direct_versions_loop log_index [] = Inr []"
| "direct_versions_loop log_index (ordinal # ordinals) =
     (if u32_max < ordinal then Inl None
      else case statement_row_version log_index (of_nat ordinal) of
        Inl e \<Rightarrow> Inl (Some e)
      | Inr v \<Rightarrow>
          (case direct_versions_loop log_index ordinals of
             Inl e \<Rightarrow> Inl e
           | Inr vs \<Rightarrow> Inr (v # vs)))"

definition direct_insert_versions :: "64 word \<Rightarrow> nat \<Rightarrow> version_error option + version_id list" where
  "direct_insert_versions log_index row_count = direct_versions_loop log_index [0..<row_count]"

section \<open>Valid ids\<close>

definition version_ok :: "version_id \<Rightarrow> bool" where
  "version_ok v \<longleftrightarrow> 0 < unat (version_raw v) \<and> unat (version_raw v) < 2 ^ 63"

lemma version_less_iff: "v < w \<longleftrightarrow> unat (version_raw v) < unat (version_raw w)" for v w :: version_id
  by (simp add: less_version_id_def word_less_nat_alt)

lemma version_le_iff: "v \<le> w \<longleftrightarrow> unat (version_raw v) \<le> unat (version_raw w)" for v w :: version_id
  by (simp add: less_eq_version_id_def word_le_nat_alt)

lemma version_try_from_raw_iff:
  "version_try_from_raw w = Inr v \<longleftrightarrow> v = VersionId w \<and> version_ok (VersionId w)"
  unfolding version_try_from_raw_def version_ok_def
  by (auto simp: word_less_nat_alt unat_gt_0 not_less)

lemma version_as_i64_ok: "version_ok v \<Longrightarrow> version_as_i64 v = Some (int (unat (version_raw v)))"
  unfolding version_as_i64_def version_ok_def
  by (simp add: word_less_nat_alt)

lemma unat_max_log_index [simp]: "unat max_log_index = 2 ^ 47 - 1"
  unfolding max_log_index_def unat_drop_bit_eq by (simp add: drop_bit_eq_div)

lemma unat_max_ordinal [simp]: "unat max_ordinal = 65535"
  by (simp add: max_ordinal_def)

lemma unat_ucast_ordinal: "unat (ucast ordinal :: 64 word) = unat ordinal" for ordinal :: "32 word"
  by (simp add: unsigned_ucast_eq take_bit_nat_eq_self_iff) (rule order_less_trans [OF unsigned_less], simp)

definition log_index_ok :: "64 word \<Rightarrow> bool" where
  "log_index_ok l \<longleftrightarrow> 0 < unat l \<and> unat l < 2 ^ 47"

lemma log_index_ok_iff: "log_index_ok l \<longleftrightarrow> \<not> (l = 0 \<or> l > max_log_index)"
  unfolding log_index_ok_def by (auto simp: word_less_nat_alt unat_gt_0 not_less)

lemma raft_try_new_iff:
  "raft_try_new l ordinal = Inr r \<longleftrightarrow> log_index_ok l \<and> unat ordinal < 65536 \<and>
     r = RaftVersionId (VersionId (push_bit 16 l OR ucast ordinal))"
  unfolding raft_try_new_def log_index_ok_iff by (auto simp: word_less_nat_alt)

lemma raft_value:
  fixes ordinal :: "32 word"
  assumes "log_index_ok l" "unat ordinal < 65536"
  shows "unat (push_bit 16 l OR ucast ordinal :: 64 word) = unat l * 65536 + unat ordinal"
  using assms unat_shift_or [of "ucast ordinal" 16 l]
  by (simp add: log_index_ok_def unat_ucast_ordinal)

lemma raft_new_value:
  assumes "raft_try_new l ordinal = Inr r"
  shows "unat (version_raw (raft_version r)) = unat l * 65536 + unat ordinal"
    and "log_index_ok l" and "unat ordinal < 65536"
  using assms raft_value by (auto simp: raft_try_new_iff)

lemma raft_new_ok: "raft_try_new l ordinal = Inr r \<Longrightarrow> version_ok (raft_version r)"
  using raft_new_value [of l ordinal r] by (simp add: version_ok_def log_index_ok_def)

lemma raft_log_index_new: "raft_try_new l ordinal = Inr r \<Longrightarrow> raft_log_index r = l"
  using raft_new_value [of l ordinal r]
  unfolding word_unat_eq_iff raft_log_index_def unat_drop_bit_eq by (simp add: drop_bit_eq_div)

lemma raft_ordinal_new:
  assumes "raft_try_new l ordinal = Inr r"
  shows "raft_ordinal r = ordinal"
proof (rule word_unat_eq_iff [THEN iffD2])
  have "unat (version_raw (raft_version r) AND 65535) = unat ordinal"
    using raft_new_value [OF assms] mask_field [of "unat ordinal" 16 "unat l"]
    by (simp add: unsigned_and_eq)
  moreover have "unat ordinal < 2 ^ 32"
    using raft_new_value(3) [OF assms] by simp
  ultimately show "unat (raft_ordinal r) = unat ordinal"
    by (simp add: raft_ordinal_def unsigned_ucast_eq take_bit_nat_eq_self_iff)
qed

lemma raft_less_iff:
  assumes "raft_try_new l ordinal = Inr r" "raft_try_new l' ordinal' = Inr r'"
  shows "raft_version r < raft_version r' \<longleftrightarrow> l < l' \<or> l = l' \<and> ordinal < ordinal'"
  using raft_new_value [OF assms(1)] raft_new_value [OF assms(2)]
    pair_less_iff_packed [of "unat ordinal" 65536 "unat ordinal'" "unat l" "unat l'"]
  by (auto simp: version_less_iff word_less_nat_alt word_unat_eq_iff)

lemma unat_ordinal: "i < 65536 \<Longrightarrow> unat (of_nat i :: 32 word) = i"
  by (simp add: unat_of_nat)

section \<open>Entries\<close>

lemma assign_versions_loop_ok:
  assumes "log_index_ok l" "\<forall>i\<in>set is. i < 65536"
  shows "assign_versions_loop l is =
     Inr (map (\<lambda>i. VersionId (push_bit 16 l OR ucast (of_nat i :: 32 word))) is)"
  using assms
proof (induction "is")
  case (Cons i "is")
  have "raft_try_new l (of_nat i) = Inr (RaftVersionId (VersionId (push_bit 16 l OR ucast (of_nat i :: 32 word))))"
    using Cons.prems by (simp add: raft_try_new_iff unat_ordinal)
  with Cons show ?case by simp
qed simp

lemma slot_count_iff:
  "n \<le> u64_max \<Longrightarrow> check_entry_slot_count (of_nat n) = Inr () \<longleftrightarrow> n \<le> 65536"
proof -
  assume "n \<le> u64_max"
  then have "unat (of_nat n :: 64 word) = n"
    by (simp add: unat_of_nat u64_max_def)
  moreover have "unat max_row_slots_per_entry = 65536"
    by (simp add: max_row_slots_per_entry_def max_ordinal_def)
  ultimately show ?thesis
    by (simp add: check_entry_slot_count_def word_less_nat_alt)
qed

lemma assign_entry_versions_ok:
  assumes "log_index_ok l" "n \<le> 65536"
  shows "assign_entry_versions l n =
     Inr (map (\<lambda>i. VersionId (push_bit 16 l OR ucast (of_nat i :: 32 word))) [0..<n])"
proof -
  have "check_entry_slot_count (of_nat n) = Inr ()"
    using assms(2) by (intro slot_count_iff [THEN iffD2]) (simp_all add: u64_max_def)
  with assms show ?thesis
    by (simp add: assign_entry_versions_def assign_versions_loop_ok)
qed

lemma assigned_version:
  assumes "log_index_ok l" "n \<le> 65536" "i < n"
  shows "unat (version_raw (projr (assign_entry_versions l n) ! i)) = unat l * 65536 + i"
  using assms raft_value [of l "of_nat i"] by (simp add: assign_entry_versions_ok unat_ordinal)

lemma assigned_version_range:
  assumes "log_index_ok l" "n \<le> 65536" "v \<in> set (projr (assign_entry_versions l n))"
  shows "unat l * 65536 \<le> unat (version_raw v)" "unat (version_raw v) < (unat l + 1) * 65536"
proof -
  obtain i where "i < n" "v = projr (assign_entry_versions l n) ! i"
    using assms by (auto simp: assign_entry_versions_ok in_set_conv_nth)
  with assms show "unat l * 65536 \<le> unat (version_raw v)" "unat (version_raw v) < (unat l + 1) * 65536"
    by (simp_all add: assigned_version)
qed

lemma assigned_versions_sorted:
  assumes "log_index_ok l" "n \<le> 65536"
  shows "sorted_wrt (<) (projr (assign_entry_versions l n))"
proof -
  have "length (projr (assign_entry_versions l n)) = n"
    using assms by (simp add: assign_entry_versions_ok)
  with assms show ?thesis
    unfolding sorted_wrt_iff_nth_less version_less_iff by (auto simp: assigned_version)
qed

section \<open>Snapshots\<close>

lemma entry_bound_value:
  "log_index_ok l \<Longrightarrow> unat (push_bit 16 l OR 65535 :: 64 word) = unat l * 65536 + 65535"
  using unat_shift_or [of 65535 16 l] by (simp add: log_index_ok_def)

lemma bound_ok: "log_index_ok l \<Longrightarrow> version_ok (VersionId (push_bit 16 l OR 65535))"
  by (simp add: version_ok_def entry_bound_value) (simp add: log_index_ok_def)

lemma entry_bound_ok:
  "log_index_ok l \<Longrightarrow> entry_bound_from_log_index l = Inr (EntryVersionBound (push_bit 16 l OR 65535))"
  by (simp add: entry_bound_from_log_index_def log_index_ok_iff)

lemma transaction_snapshot_bound_ok:
  assumes "log_index_ok l"
  shows "transaction_snapshot_bound l = Some (VersionId (push_bit 16 l OR 65535))"
proof -
  have "push_bit 16 l OR 65535 \<noteq> (0 :: 64 word)"
    using entry_bound_value [OF assms] by (metis add_is_0 unsigned_0 zero_neq_numeral)
  moreover have "l \<noteq> 0"
    using assms by (auto simp: log_index_ok_def)
  ultimately show ?thesis
    using bound_ok [OF assms] entry_bound_ok [OF assms]
    by (simp add: transaction_snapshot_bound_def snapshot_bound_from_log_index_def
        version_try_from_raw_iff [THEN iffD2])
qed

lemma below_bound_iff:
  assumes "raft_try_new l ordinal = Inr r" "log_index_ok L"
  shows "raft_version r \<le> VersionId (push_bit 16 L OR 65535) \<longleftrightarrow> l \<le> L"
  using raft_new_value [OF assms(1)] entry_bound_value [OF assms(2)]
  unfolding version_le_iff word_le_nat_alt by simp linarith

section \<open>Properties\<close>

lemma version_ok_sint:
  assumes "version_ok v"
  shows "0 < sint (version_raw v)"
proof -
  have "int (unat (version_raw v)) < 2 ^ 63"
    using assms unfolding version_ok_def by (metis of_nat_less_iff of_nat_numeral of_nat_power)
  then have "sint (version_raw v) = int (unat (version_raw v))"
    unfolding sint_uint uint_nat by (simp add: signed_take_bit_int_eq_self_iff order_trans [OF _ uint_ge_0])
  then show ?thesis
    using assms by (simp only: version_ok_def of_nat_0_less_iff)
qed

lemma packed_Inr: "map_sum id raft_version x = Inr v \<longleftrightarrow> (\<exists>r. x = Inr r \<and> v = raft_version r)"
  by (cases x) auto

lemma from_i64_ok: "version_try_from_i64 i = Inr v \<Longrightarrow> version_ok v"
  by (auto simp: version_try_from_i64_def version_try_from_raw_iff split: if_splits)

lemma from_decimal_ok: "version_from_decimal_str s = Inr v \<Longrightarrow> version_ok v"
  by (auto simp: version_from_decimal_str_def version_try_from_raw_iff split: option.splits)

lemma from_bytes_ok: "version_from_bytes bs = Inr v \<Longrightarrow> version_ok v"
  by (auto simp: version_from_bytes_def version_try_from_raw_iff split: if_splits sum.splits)

lemma snapshot_bound_ok: "snapshot_bound_from_log_index l = Some v \<Longrightarrow> version_ok v"
  by (auto simp: snapshot_bound_from_log_index_def version_try_from_raw_iff split: if_splits sum.splits)

text \<open>
  C36: Every version id that a constructor, a decoder or the Raft packing returns is positive and
  leaves bit 63 clear, so its conversion to a signed \<open>BIGINT\<close> never panics and gives the same
  number.
\<close>

theorem version_ids_fit_bigint:
  assumes "version_try_from_raw w = Inr v \<or> version_try_from_i64 i = Inr v \<or>
      version_from_decimal_str s = Inr v \<or> version_from_bytes bs = Inr v \<or>
      raft_try_new l ordinal = Inr (RaftVersionId v) \<or> statement_row_version l ordinal = Inr v \<or>
      snapshot_bound_from_log_index l = Some v"
  shows "version_as_i64 v = Some (uint (version_raw v)) \<and> 0 < sint (version_raw v)"
proof -
  have "version_ok v"
    using assms from_i64_ok from_decimal_ok from_bytes_ok snapshot_bound_ok raft_new_ok [of l ordinal "RaftVersionId v"]
    unfolding version_try_from_raw_iff statement_row_version_def packed_Inr
    by (elim disjE) (auto dest: raft_new_ok)
  then show ?thesis
    by (simp add: version_as_i64_ok version_ok_sint)
qed

theorem version_ids_fit_bigint_witness:
  "version_as_i64 (VersionId 0x10007) = Some 0x10007 \<and> 0 < sint (version_raw (VersionId 0x10007))"
proof -
  have "version_try_from_raw 0x10007 = Inr (VersionId 0x10007)"
    by (simp add: version_try_from_raw_def i64_max_def)
  from version_ids_fit_bigint [OF disjI1 [OF this]] show ?thesis by simp
qed

text \<open>
  C37: The decimal text and the eight-byte storage key of a valid version id decode to it, and the
  byte order of storage keys is the order of the ids, so a range scan visits versions in order.
\<close>

theorem version_encodings_roundtrip:
  assumes "version_ok v"
  shows "version_from_decimal_str (version_to_decimal_string v) = Inr v \<and>
    version_from_bytes (version_to_be_bytes v) = Inr v \<and>
    (version_to_be_bytes v < version_to_be_bytes u \<longleftrightarrow> v < u)"
proof (intro conjI)
  have "parse_unsigned u64_max (show_dec (unat (version_raw v))) = Some (unat (version_raw v))"
    using assms by (subst parse_unsigned_digits)
      (auto simp: version_ok_def u64_max_def parse_digits_show_dec dest: show_dec_digits)
  then show "version_from_decimal_str (version_to_decimal_string v) = Inr v"
    using assms by (simp add: version_from_decimal_str_def version_to_decimal_string_def version_try_from_raw_iff)
  show "version_from_bytes (version_to_be_bytes v) = Inr v"
    using assms version_try_from_raw_iff [of "version_raw v" v]
    by (simp add: version_from_bytes_def version_to_be_bytes_def)
  show "version_to_be_bytes v < version_to_be_bytes u \<longleftrightarrow> v < u"
    by (simp add: version_to_be_bytes_def to_be_bytes_less_iff less_version_id_def)
qed

theorem version_encodings_roundtrip_witness:
  "version_from_decimal_str (version_to_decimal_string (VersionId 0x10007)) = Inr (VersionId 0x10007) \<and>
   version_to_be_bytes (VersionId 0x10007) < version_to_be_bytes (VersionId 0x20000)"
  using version_encodings_roundtrip [of "VersionId 0x10007" "VersionId 0x20000"]
  by (simp add: version_ok_def less_version_id_def)

text \<open>
  C34: Along a log whose entries have ascending indices, the versions assigned to the rows of the
  entries, taken in order, ascend strictly: no two rows ever share a version, and within an entry
  they follow the row order.
\<close>

theorem versions_ascend_along_log:
  assumes "sorted_wrt (<) (map fst entries)"
    and "\<forall>e\<in>set entries. log_index_ok (fst e) \<and> snd e \<le> 65536"
  shows "list_all (\<lambda>e. \<exists>vs. assign_entry_versions (fst e) (snd e) = Inr vs \<and> length vs = snd e) entries \<and>
    sorted_wrt (<) (concat (map (\<lambda>e. projr (assign_entry_versions (fst e) (snd e))) entries))"
  using assms
proof (induction entries)
  case (Cons e entries)
  have later: "v < u" if "v \<in> set (projr (assign_entry_versions (fst e) (snd e)))" "e' \<in> set entries"
      "u \<in> set (projr (assign_entry_versions (fst e') (snd e')))" for v e' u
  proof -
    have "unat (fst e) < unat (fst e')"
      using Cons.prems(1) that(2) by (simp flip: word_less_nat_alt)
    then show ?thesis
      using assigned_version_range(2) [OF _ _ that(1)] assigned_version_range(1) [OF _ _ that(3)] Cons.prems(2) that(2)
      by (fastforce simp: version_less_iff)
  qed
  have "list_all (\<lambda>e. \<exists>vs. assign_entry_versions (fst e) (snd e) = Inr vs \<and> length vs = snd e) (e # entries)"
    using Cons.prems(2) by (auto simp: list_all_iff assign_entry_versions_ok)
  with Cons later show ?case
    by (auto simp: sorted_wrt_append assigned_versions_sorted)
qed simp

theorem versions_ascend_along_log_witness:
  "sorted_wrt (<) (projr (assign_entry_versions 1 2) @ projr (assign_entry_versions 3 1))"
  using versions_ascend_along_log [of "[(1, 2), (3, 1)]"] by (simp add: log_index_ok_def)

text \<open>
  C35: The three ways the code decides whether a row version of entry \<open>l\<close> lies within the snapshot
  of log index \<open>L\<close> agree: the inclusive \<open>VersionId\<close> bound, the entry bound and the materialized
  frontier each admit it exactly when \<open>l \<le> L\<close>, and an empty snapshot admits no row.
\<close>

theorem snapshot_bounds_agree:
  assumes "raft_try_new l ordinal = Inr r" "L = 0 \<or> L \<le> max_log_index"
  shows "\<exists>b e f. transaction_snapshot_bound L = Some b \<and> (raft_version r \<le> b \<longleftrightarrow> l \<le> L) \<and>
    entry_bound_from_log_index L = Inr e \<and> (entry_bound_includes e r \<longleftrightarrow> l \<le> L) \<and>
    frontier_raft L = Inr f \<and> frontier_includes_raft f r = Inr (l \<le> L)"
proof (cases "L = 0")
  case True
  have "\<not> l \<le> 0" "\<not> raft_version r \<le> empty_snapshot"
    using raft_new_value [OF assms(1)] raft_new_ok [OF assms(1)]
    by (auto simp: log_index_ok_def version_le_iff version_ok_def empty_snapshot_def)
  with True show ?thesis
    by (simp add: transaction_snapshot_bound_def entry_bound_from_log_index_def entry_bound_empty_def
        entry_bound_includes_def frontier_raft_def)
next
  case False
  with assms(2) have ok: "log_index_ok L"
    by (simp add: log_index_ok_iff)
  have nz: "push_bit 16 L OR 65535 \<noteq> (0 :: 64 word)"
    using entry_bound_value [OF ok] by (metis add_is_0 unsigned_0 zero_neq_numeral)
  have "frontier_raft L = Inr (RaftFrontier L)"
    using ok by (simp add: frontier_raft_def log_index_ok_iff)
  then show ?thesis
    using transaction_snapshot_bound_ok [OF ok] entry_bound_ok [OF ok] below_bound_iff [OF assms(1) ok]
      raft_log_index_new [OF assms(1)] nz
    by (simp add: entry_bound_includes_def less_eq_version_id_def)
qed

theorem snapshot_bounds_agree_witness:
  "\<exists>b. transaction_snapshot_bound 500 = Some b \<and> VersionId 32112640 \<le> b"
proof -
  have "raft_try_new 490 0 = Inr (RaftVersionId (VersionId 32112640))"
    by (simp add: raft_try_new_iff log_index_ok_def push_bit_eq_mult)
  from snapshot_bounds_agree [OF this, of 500] show ?thesis
    by (auto simp: max_log_index_def i64_max_def)
qed

end
