(* ===== verification/MvccSelect.thy ===== *)
theory MvccSelect
  imports Rows VersionIds
begin

text \<open>
  Choosing the visible version of each primary key among hot and cold rows
  (\<open>kalamdb-datafusion-sources/src/exec.rs\<close>), the decoder of cold Parquet batches that feeds it,
  and the limits of the scans around it (\<open>kalamdb-tables/src/utils/base/hot_scan.rs\<close>).

  A \<open>HashMap\<close> that is drained has no specified order: the functions that return its values take
  the order of its keys as an argument.
\<close>

section \<open>Winner selection\<close>

definition version_ordering :: "version_id \<Rightarrow> version_id \<Rightarrow> ordering" where
  "version_ordering candidate current = version_cmp candidate current"

definition prefers_version :: "version_id \<Rightarrow> version_id \<Rightarrow> bool" where
  "prefers_version candidate current \<longleftrightarrow> version_ordering candidate current = OrdGreater"

record 'p version_candidate =
  vc_pk_key :: pk_bucket_key
  vc_version :: version_id
  vc_deleted :: bool
  vc_payload :: 'p

datatype ('h, 'c) selected_version = HotSelected 'h | ColdSelected 'c

record 'p version_meta =
  vm_version :: version_id
  vm_deleted :: bool
  vm_payload :: 'p

datatype ('h, 'c) candidate = HotCandidate "'h version_meta" | ColdCandidate "'c version_meta"

fun candidate_version :: "('h, 'c) candidate \<Rightarrow> version_id" where
  "candidate_version (HotCandidate m) = vm_version m"
| "candidate_version (ColdCandidate m) = vm_version m"

fun candidate_deleted :: "('h, 'c) candidate \<Rightarrow> bool" where
  "candidate_deleted (HotCandidate m) = vm_deleted m"
| "candidate_deleted (ColdCandidate m) = vm_deleted m"

definition is_visible_at_snapshot :: "version_id \<Rightarrow> version_id option \<Rightarrow> bool" where
  "is_visible_at_snapshot version snapshot =
     (case snapshot of None \<Rightarrow> True | Some b \<Rightarrow> version \<le> b)"

type_synonym ('h, 'c) best_map = "pk_bucket_key \<rightharpoonup> ('h, 'c) candidate"

definition consider_candidate ::
    "version_id option \<Rightarrow> pk_bucket_key \<times> ('h, 'c) candidate \<Rightarrow> ('h, 'c) best_map \<Rightarrow> ('h, 'c) best_map" where
  "consider_candidate snapshot kc best =
     (case kc of (pk_key, cand) \<Rightarrow>
        if \<not> is_visible_at_snapshot (candidate_version cand) snapshot then best
        else case best pk_key of
          Some current \<Rightarrow>
            if prefers_version (candidate_version cand) (candidate_version current)
            then best(pk_key \<mapsto> cand) else best
        | None \<Rightarrow> best(pk_key \<mapsto> cand))"

definition hot_item :: "'h version_candidate \<Rightarrow> pk_bucket_key \<times> ('h, 'c) candidate" where
  "hot_item v = (vc_pk_key v,
     HotCandidate \<lparr>vm_version = vc_version v, vm_deleted = vc_deleted v, vm_payload = vc_payload v\<rparr>)"

definition cold_item :: "'c version_candidate \<Rightarrow> pk_bucket_key \<times> ('h, 'c) candidate" where
  "cold_item v = (vc_pk_key v,
     ColdCandidate \<lparr>vm_version = vc_version v, vm_deleted = vc_deleted v, vm_payload = vc_payload v\<rparr>)"

text \<open>The two loops over the candidates.\<close>

definition best_versions ::
    "'h version_candidate list \<Rightarrow> 'c version_candidate list \<Rightarrow> version_id option \<Rightarrow> ('h, 'c) best_map" where
  "best_versions hot cold snapshot =
     fold (consider_candidate snapshot) (map hot_item hot @ map cold_item cold) Map.empty"

fun selected_of :: "('h, 'c) candidate \<Rightarrow> ('h, 'c) selected_version" where
  "selected_of (HotCandidate m) = HotSelected (vm_payload m)"
| "selected_of (ColdCandidate m) = ColdSelected (vm_payload m)"

text \<open>\<open>order\<close> lists the keys of the map in the order in which \<open>into_values\<close> drains it.\<close>

definition select_latest_versions ::
    "pk_bucket_key list \<Rightarrow> 'h version_candidate list \<Rightarrow> 'c version_candidate list \<Rightarrow> version_id option \<Rightarrow> bool
      \<Rightarrow> ('h, 'c) selected_version list" where
  "select_latest_versions order hot cold snapshot keep_deleted =
     (let best = best_versions hot cold snapshot;
          winners = List.map_filter best order
      in map selected_of (filter (\<lambda>c. keep_deleted \<or> \<not> candidate_deleted c) winners))"

section \<open>Versioned rows\<close>

record shared_table_row =
  sr_version :: version_id
  sr_deleted :: bool
  sr_fields :: row

record row_metadata =
  rm_version :: version_id
  rm_deleted :: bool
  rm_pk_bucket :: pk_bucket_key

text \<open>
  The trait \<open>VersionedRow\<close> as the record of its methods. \<open>as_i64\<close> of a row's version cannot panic
  (property \<open>version_ids_fit_bigint\<close>); \<open>version_i64\<close> is its value.
\<close>

record 'r versioned_row =
  row_version :: "'r \<Rightarrow> version_id"
  row_deleted :: "'r \<Rightarrow> bool"
  row_pk_bucket_key :: "string \<Rightarrow> 'r \<Rightarrow> pk_bucket_key"

definition version_i64 :: "version_id \<Rightarrow> int" where
  "version_i64 v = uint (version_raw v)"

definition shared_versioned_row :: "(scalar_value \<Rightarrow> string) \<Rightarrow> shared_table_row versioned_row" where
  "shared_versioned_row show_scalar =
     \<lparr>row_version = sr_version, row_deleted = sr_deleted,
      row_pk_bucket_key = (\<lambda>pk r. pk_bucket_key_from_row show_scalar (sr_fields r) pk (version_i64 (sr_version r)))\<rparr>"

definition metadata_versioned_row :: "row_metadata versioned_row" where
  "metadata_versioned_row =
     \<lparr>row_version = rm_version, row_deleted = rm_deleted, row_pk_bucket_key = (\<lambda>_. rm_pk_bucket)\<rparr>"

definition version_candidate_from_row :: "'r versioned_row \<Rightarrow> string \<Rightarrow> 'r \<Rightarrow> 'p \<Rightarrow> 'p version_candidate" where
  "version_candidate_from_row ops pk_name r payload =
     \<lparr>vc_pk_key = row_pk_bucket_key ops pk_name r, vc_version = row_version ops r,
      vc_deleted = row_deleted ops r, vc_payload = payload\<rparr>"

definition count_merged_rows ::
    "'r versioned_row \<Rightarrow> pk_bucket_key list \<Rightarrow> string \<Rightarrow> 'r list \<Rightarrow> 'r list \<Rightarrow> version_id option \<Rightarrow> nat" where
  "count_merged_rows ops order pk_name hot_rows cold_rows snapshot =
     length (select_latest_versions order
       (map (\<lambda>r. version_candidate_from_row ops pk_name r ()) hot_rows)
       (map (\<lambda>r. version_candidate_from_row ops pk_name r ()) cold_rows) snapshot False)"

definition merge_versioned_rows ::
    "'r versioned_row \<Rightarrow> pk_bucket_key list \<Rightarrow> string \<Rightarrow> ('k \<times> 'r) list \<Rightarrow> ('k \<times> 'r) list \<Rightarrow> bool
      \<Rightarrow> version_id option \<Rightarrow> ('k \<times> 'r) list" where
  "merge_versioned_rows ops order pk_name hot_rows cold_rows keep_deleted snapshot =
     map (\<lambda>w. case w of HotSelected r \<Rightarrow> r | ColdSelected r \<Rightarrow> r)
       (select_latest_versions order
          (map (\<lambda>kr. version_candidate_from_row ops pk_name (snd kr) kr) hot_rows)
          (map (\<lambda>kr. version_candidate_from_row ops pk_name (snd kr) kr) cold_rows) snapshot keep_deleted)"

section \<open>Decoding a cold batch\<close>

text \<open>
  A cell of an Arrow array: whether it is null, and the value in its buffer. The arrays the decoder
  distinguishes are typed; any other column is the list of its cells as scalars.
\<close>

datatype 'a cell = Cell (cell_null: bool) (cell_value: 'a)

datatype arrow_array =
    Int8Array "int cell list" | Int16Array "int cell list" | Int32Array "int cell list" | Int64Array "int cell list"
  | UInt8Array "nat cell list" | UInt16Array "nat cell list" | UInt32Array "nat cell list" | UInt64Array "nat cell list"
  | StringArray "string cell list" | LargeStringArray "string cell list" | BooleanArray "bool cell list"
  | OtherArray "scalar_value list"

record record_batch =
  rb_num_rows :: nat
  rb_columns :: "(string \<times> arrow_array) list"

datatype decode_error = MissingVersionColumn | VersionColumnType | InvalidVersion version_error | BuildFailed

record parquet_row_data =
  pr_version :: version_id
  pr_deleted :: bool
  pr_fields :: row

definition version_column :: string where
  "version_column = ''_version''"

definition deleted_column :: string where
  "deleted_column = ''_deleted''"

definition timestamp_column :: string where
  "timestamp_column = ''_timestamp''"

record batch_decoder =
  bd_version_array :: "int cell list"
  bd_deleted_array :: "bool cell list option"
  bd_pk_column :: "arrow_array option"
  bd_value_columns :: "(string \<times> arrow_array) list"

definition column_named :: "record_batch \<Rightarrow> string \<Rightarrow> arrow_array option" where
  "column_named batch name = map_of (rb_columns batch) name"

definition decoder_new :: "record_batch \<Rightarrow> string option \<Rightarrow> decode_error + batch_decoder" where
  "decoder_new batch pk_name =
     (case column_named batch version_column of
        None \<Rightarrow> Inl MissingVersionColumn
      | Some (Int64Array versions) \<Rightarrow>
          Inr \<lparr>bd_version_array = versions,
               bd_deleted_array = (case column_named batch deleted_column of
                                     Some (BooleanArray bs) \<Rightarrow> Some bs | _ \<Rightarrow> None),
               bd_pk_column = (case pk_name of None \<Rightarrow> None | Some n \<Rightarrow> column_named batch n),
               bd_value_columns = filter (\<lambda>c. fst c \<notin> {version_column, deleted_column, timestamp_column})
                                    (rb_columns batch)\<rparr>
      | Some _ \<Rightarrow> Inl VersionColumnType)"

definition decoder_version_at :: "batch_decoder \<Rightarrow> nat \<Rightarrow> decode_error + version_id" where
  "decoder_version_at d i = map_sum InvalidVersion id (version_try_from_i64 (cell_value (bd_version_array d ! i)))"

definition decoder_deleted_at :: "batch_decoder \<Rightarrow> nat \<Rightarrow> bool" where
  "decoder_deleted_at d i =
     (case bd_deleted_array d of None \<Rightarrow> False | Some bs \<Rightarrow> \<not> cell_null (bs ! i) \<and> cell_value (bs ! i))"

definition null_or_key :: "(version_id \<Rightarrow> 'a cell \<Rightarrow> ('a \<Rightarrow> pk_bucket_key) \<Rightarrow> pk_bucket_key)" where
  "null_or_key version c to_key = (if cell_null c then PkVersion (version_i64 version) else to_key (cell_value c))"

definition utf8_pk_bucket :: "version_id \<Rightarrow> string cell \<Rightarrow> pk_bucket_key" where
  "utf8_pk_bucket version c =
     (if cell_null c \<or> cell_value c = [] then PkVersion (version_i64 version) else PkText (cell_value c))"

text \<open>Columns of other types are read cell by cell; their cells are scalars. A boolean cell is such a scalar.\<close>

definition boolean_cell :: "bool cell \<Rightarrow> scalar_value" where
  "boolean_cell c = BooleanV (if cell_null c then None else Some (cell_value c))"

definition decoder_pk_bucket_at :: "batch_decoder \<Rightarrow> nat \<Rightarrow> version_id \<Rightarrow> pk_bucket_key" where
  "decoder_pk_bucket_at d i version =
     (case bd_pk_column d of
        None \<Rightarrow> PkVersion (version_i64 version)
      | Some (Int8Array cs) \<Rightarrow> null_or_key version (cs ! i) PkInt
      | Some (Int16Array cs) \<Rightarrow> null_or_key version (cs ! i) PkInt
      | Some (Int32Array cs) \<Rightarrow> null_or_key version (cs ! i) PkInt
      | Some (Int64Array cs) \<Rightarrow> null_or_key version (cs ! i) PkInt
      | Some (UInt8Array cs) \<Rightarrow> null_or_key version (cs ! i) PkUInt
      | Some (UInt16Array cs) \<Rightarrow> null_or_key version (cs ! i) PkUInt
      | Some (UInt32Array cs) \<Rightarrow> null_or_key version (cs ! i) PkUInt
      | Some (UInt64Array cs) \<Rightarrow> null_or_key version (cs ! i) PkUInt
      | Some (StringArray cs) \<Rightarrow> utf8_pk_bucket version (cs ! i)
      | Some (LargeStringArray cs) \<Rightarrow> utf8_pk_bucket version (cs ! i)
      | Some (BooleanArray cs) \<Rightarrow> pk_bucket_key_from_array (map boolean_cell cs) i (version_i64 version)
      | Some (OtherArray vs) \<Rightarrow> pk_bucket_key_from_array vs i (version_i64 version))"

definition decoder_metadata_at :: "batch_decoder \<Rightarrow> nat \<Rightarrow> decode_error + row_metadata" where
  "decoder_metadata_at d i =
     (case decoder_version_at d i of
        Inl e \<Rightarrow> Inl e
      | Inr version \<Rightarrow> Inr \<lparr>rm_version = version, rm_deleted = decoder_deleted_at d i,
                         rm_pk_bucket = decoder_pk_bucket_at d i version\<rparr>)"

text \<open>
  \<open>to_scalar\<close> is \<open>arrow_value_to_scalar\<close>, the conversion of one cell to a scalar; a cell it cannot
  convert is left out of the row.
\<close>

definition decoder_row_at ::
    "(arrow_array \<Rightarrow> nat \<Rightarrow> scalar_value option) \<Rightarrow> batch_decoder \<Rightarrow> nat \<Rightarrow> decode_error + parquet_row_data" where
  "decoder_row_at to_scalar d i =
     (case decoder_metadata_at d i of
        Inl e \<Rightarrow> Inl e
      | Inr m \<Rightarrow> Inr \<lparr>pr_version = rm_version m, pr_deleted = rm_deleted m,
                   pr_fields = fold (\<lambda>(name, array) acc. case to_scalar array i of
                                  Some v \<Rightarrow> bt_insert name v acc | None \<Rightarrow> acc)
                                (bd_value_columns d) []\<rparr>)"

text \<open>Loops that stop at the first error.\<close>

fun collect_results :: "('e + 'a) list \<Rightarrow> 'e + 'a list" where
  "collect_results [] = Inr []"
| "collect_results (Inl e # rs) = Inl e"
| "collect_results (Inr x # rs) = (case collect_results rs of Inl e \<Rightarrow> Inl e | Inr xs \<Rightarrow> Inr (x # xs))"

definition parquet_batch_to_rows ::
    "(arrow_array \<Rightarrow> nat \<Rightarrow> scalar_value option) \<Rightarrow> record_batch \<Rightarrow> decode_error + parquet_row_data list" where
  "parquet_batch_to_rows to_scalar batch =
     (if rb_num_rows batch = 0 then Inr []
      else case decoder_new batch None of
        Inl e \<Rightarrow> Inl e
      | Inr d \<Rightarrow> collect_results (map (decoder_row_at to_scalar d) [0..<rb_num_rows batch]))"

definition parquet_batch_to_metadata :: "record_batch \<Rightarrow> string \<Rightarrow> decode_error + row_metadata list" where
  "parquet_batch_to_metadata batch pk_name =
     (if rb_num_rows batch = 0 then Inr []
      else case decoder_new batch (Some pk_name) of
        Inl e \<Rightarrow> Inl e
      | Inr d \<Rightarrow> collect_results (map (decoder_metadata_at d) [0..<rb_num_rows batch]))"

definition count_resolved_from_metadata ::
    "pk_bucket_key list \<Rightarrow> string \<Rightarrow> row_metadata list \<Rightarrow> record_batch \<Rightarrow> version_id option \<Rightarrow> decode_error + nat" where
  "count_resolved_from_metadata order pk_name hot_metadata cold_batch snapshot =
     (case parquet_batch_to_metadata cold_batch pk_name of
        Inl e \<Rightarrow> Inl e
      | Inr cold_metadata \<Rightarrow>
          Inr (count_merged_rows metadata_versioned_row order pk_name hot_metadata cold_metadata snapshot))"

text \<open>A cold row with an invalid version is skipped by \<open>filter_map\<close>.\<close>

definition cold_candidates :: "batch_decoder \<Rightarrow> nat \<Rightarrow> nat version_candidate list" where
  "cold_candidates d n =
     List.map_filter (\<lambda>i. case decoder_version_at d i of
         Inl _ \<Rightarrow> None
       | Inr version \<Rightarrow> Some \<lparr>vc_pk_key = decoder_pk_bucket_at d i version, vc_version = version,
                           vc_deleted = decoder_deleted_at d i, vc_payload = i\<rparr>) [0..<n]"

definition resolve_winner ::
    "(arrow_array \<Rightarrow> nat \<Rightarrow> scalar_value option) \<Rightarrow> (parquet_row_data \<Rightarrow> decode_error + 'k \<times> 'r) \<Rightarrow> batch_decoder
      \<Rightarrow> ('k \<times> 'r, nat) selected_version \<Rightarrow> decode_error + 'k \<times> 'r" where
  "resolve_winner to_scalar build_cold_row d w =
     (case w of
        HotSelected kr \<Rightarrow> Inr kr
      | ColdSelected i \<Rightarrow>
          (case decoder_row_at to_scalar d i of Inl e \<Rightarrow> Inl e | Inr row_data \<Rightarrow> build_cold_row row_data))"

definition resolve_latest_kvs_from_cold_batch ::
    "(arrow_array \<Rightarrow> nat \<Rightarrow> scalar_value option) \<Rightarrow> 'r versioned_row \<Rightarrow> pk_bucket_key list \<Rightarrow> string \<Rightarrow> ('k \<times> 'r) list
      \<Rightarrow> record_batch \<Rightarrow> bool \<Rightarrow> version_id option \<Rightarrow> (parquet_row_data \<Rightarrow> decode_error + 'k \<times> 'r)
      \<Rightarrow> decode_error + ('k \<times> 'r) list" where
  "resolve_latest_kvs_from_cold_batch to_scalar ops order pk_name hot_rows cold_batch keep_deleted snapshot build_cold_row =
     (case decoder_new cold_batch (Some pk_name) of
        Inl e \<Rightarrow> Inl e
      | Inr d \<Rightarrow>
          collect_results (map (resolve_winner to_scalar build_cold_row d)
            (select_latest_versions order
               (map (\<lambda>kr. version_candidate_from_row ops pk_name (snd kr) kr) hot_rows)
               (cold_candidates d (rb_num_rows cold_batch)) snapshot keep_deleted)))"

section \<open>Scan limits\<close>

definition apply_limit :: "'a list \<Rightarrow> nat option \<Rightarrow> 'a list" where
  "apply_limit rows limit =
     (case limit of None \<Rightarrow> rows | Some l \<Rightarrow> if l < length rows then take l rows else rows)"

definition unbounded_count_scan_limit :: nat where
  "unbounded_count_scan_limit = 1000000"

definition calculate_scan_limit :: "nat option \<Rightarrow> nat" where
  "calculate_scan_limit limit = (case limit of Some l \<Rightarrow> max (sat_mul l 2) 1000 | None \<Rightarrow> 100000)"

definition reject_truncated_unbounded_scan :: "nat option \<Rightarrow> nat \<Rightarrow> nat option" where
  "reject_truncated_unbounded_scan requested_limit scanned_rows =
     (let bound = calculate_scan_limit None in
      if requested_limit = None \<and> bound \<le> scanned_rows then Some bound else None)"

definition reject_truncated_count_scan :: "nat \<Rightarrow> nat option" where
  "reject_truncated_count_scan scanned_rows =
     (if unbounded_count_scan_limit \<le> scanned_rows then Some unbounded_count_scan_limit else None)"

section \<open>The winner of a key\<close>

text \<open>The first candidate with the greatest version.\<close>

definition first_max :: "('h, 'c) candidate list \<Rightarrow> ('h, 'c) candidate option" where
  "first_max cs = fold (\<lambda>c acc. case acc of
      None \<Rightarrow> Some c
    | Some b \<Rightarrow> if candidate_version b < candidate_version c then Some c else Some b) cs None"

definition visible_for ::
    "version_id option \<Rightarrow> pk_bucket_key \<Rightarrow> (pk_bucket_key \<times> ('h, 'c) candidate) list \<Rightarrow> ('h, 'c) candidate list" where
  "visible_for snapshot k items =
     map snd (filter (\<lambda>kc. fst kc = k \<and> is_visible_at_snapshot (candidate_version (snd kc)) snapshot) items)"

lemma prefers_version_iff: "prefers_version v w \<longleftrightarrow> w < v"
  by (auto simp: prefers_version_def version_ordering_def version_cmp_def)

lemma first_max_snoc:
  "first_max (cs @ [c]) = (case first_max cs of
     None \<Rightarrow> Some c | Some b \<Rightarrow> if candidate_version b < candidate_version c then Some c else Some b)"
  by (simp add: first_max_def)

lemma visible_for_snoc:
  "visible_for snapshot k (items @ [kc]) = visible_for snapshot k items @
     (if fst kc = k \<and> is_visible_at_snapshot (candidate_version (snd kc)) snapshot then [snd kc] else [])"
  by (simp add: visible_for_def)

lemma consider_candidate_apply:
  "consider_candidate snapshot kc best k =
     (if fst kc = k \<and> is_visible_at_snapshot (candidate_version (snd kc)) snapshot
      then (case best k of
              None \<Rightarrow> Some (snd kc)
            | Some b \<Rightarrow> if candidate_version b < candidate_version (snd kc) then Some (snd kc) else Some b)
      else best k)"
  by (cases kc) (auto simp: consider_candidate_def prefers_version_iff split: option.splits)

lemma fold_consider:
  "fold (consider_candidate snapshot) items Map.empty k = first_max (visible_for snapshot k items)"
proof (induction items arbitrary: k rule: rev_induct)
  case Nil
  show ?case by (simp add: first_max_def visible_for_def)
next
  case (snoc kc items)
  then show ?case
    by (simp add: consider_candidate_apply visible_for_snoc first_max_snoc)
qed

lemma best_versions_at:
  "best_versions hot cold snapshot k = first_max (visible_for snapshot k (map hot_item hot @ map cold_item cold))"
  unfolding best_versions_def by (rule fold_consider)

lemma first_max_None_iff: "first_max cs = None \<longleftrightarrow> cs = []"
  by (cases cs rule: rev_cases) (auto simp: first_max_snoc split: option.splits, simp add: first_max_def)

lemma first_max_Some:
  "first_max cs = Some c \<Longrightarrow> \<exists>pre post. cs = pre @ c # post \<and>
     (\<forall>x\<in>set pre. candidate_version x < candidate_version c) \<and>
     (\<forall>x\<in>set post. candidate_version x \<le> candidate_version c)"
proof (induction cs arbitrary: c rule: rev_induct)
  case Nil
  then show ?case by (simp add: first_max_def)
next
  case (snoc x cs)
  show ?case
  proof (cases "first_max cs")
    case None
    then have "cs = []" "c = x"
      using snoc.prems by (simp add: first_max_None_iff, simp add: first_max_snoc)
    then show ?thesis by (intro exI [of _ "[]"]) simp
  next
    case (Some b)
    then obtain pre post where cs: "cs = pre @ b # post" "\<forall>y\<in>set pre. candidate_version y < candidate_version b"
        "\<forall>y\<in>set post. candidate_version y \<le> candidate_version b"
      using snoc.IH by blast
    show ?thesis
    proof (cases "candidate_version b < candidate_version x")
      case True
      then have "c = x"
        using snoc.prems Some by (simp add: first_max_snoc)
      moreover have "\<forall>y\<in>set cs. candidate_version y < candidate_version x"
        using True cs by auto
      ultimately have "c = x" "\<forall>y\<in>set cs. candidate_version y < candidate_version x" .
      then show ?thesis by (metis append_is_Nil_conv append_Nil2 empty_iff list.set(1))
    next
      case False
      then have "c = b" using snoc.prems Some by (simp add: first_max_snoc)
      with cs False have "cs @ [x] = pre @ c # (post @ [x])" "\<forall>y\<in>set (post @ [x]). candidate_version y \<le> candidate_version c"
        by auto
      with cs \<open>c = b\<close> show ?thesis by blast
    qed
  qed
qed

section \<open>Payloads do not matter\<close>

fun map_candidate :: "('h \<Rightarrow> 'a) \<Rightarrow> ('c \<Rightarrow> 'b) \<Rightarrow> ('h, 'c) candidate \<Rightarrow> ('a, 'b) candidate" where
  "map_candidate f g (HotCandidate m) =
     HotCandidate \<lparr>vm_version = vm_version m, vm_deleted = vm_deleted m, vm_payload = f (vm_payload m)\<rparr>"
| "map_candidate f g (ColdCandidate m) =
     ColdCandidate \<lparr>vm_version = vm_version m, vm_deleted = vm_deleted m, vm_payload = g (vm_payload m)\<rparr>"

definition map_payload :: "('p \<Rightarrow> 'q) \<Rightarrow> 'p version_candidate \<Rightarrow> 'q version_candidate" where
  "map_payload f v =
     \<lparr>vc_pk_key = vc_pk_key v, vc_version = vc_version v, vc_deleted = vc_deleted v, vc_payload = f (vc_payload v)\<rparr>"

lemma map_candidate_simps [simp]:
  "candidate_version (map_candidate f g c) = candidate_version c"
  "candidate_deleted (map_candidate f g c) = candidate_deleted c"
  by (cases c; simp)+

lemma first_max_map: "first_max (map (map_candidate f g) cs) = map_option (map_candidate f g) (first_max cs)"
  by (induction cs rule: rev_induct) (simp add: first_max_def, simp add: first_max_snoc split: option.splits)

lemma item_map_payload:
  "hot_item (map_payload f v) = map_prod id (map_candidate f g) (hot_item v)"
  "cold_item (map_payload g w) = map_prod id (map_candidate f g) (cold_item w)"
  by (simp_all add: hot_item_def cold_item_def map_payload_def)

lemma visible_for_map:
  "visible_for snapshot k (map (map_prod id (map_candidate f g)) items) =
     map (map_candidate f g) (visible_for snapshot k items)"
  by (induction items) (auto simp: visible_for_def)

lemma best_versions_map_payload:
  "best_versions (map (map_payload f) hot) (map (map_payload g) cold) snapshot k =
     map_option (map_candidate f g) (best_versions hot cold snapshot k)"
proof -
  have "map hot_item (map (map_payload f) hot) @ map cold_item (map (map_payload g) cold) =
      map (map_prod id (map_candidate f g)) (map hot_item hot @ map cold_item cold)"
    by (simp add: item_map_payload [of f _ g] item_map_payload(2) [of g _ f])
  then show ?thesis
    by (simp add: best_versions_at first_max_map visible_for_map del: map_append map_map)
qed

lemma length_select_map_payload:
  "length (select_latest_versions order (map (map_payload f) hot) (map (map_payload g) cold) snapshot keep) =
     length (select_latest_versions order hot cold snapshot keep)"
proof -
  have "length (filter (\<lambda>c. keep \<or> \<not> candidate_deleted c) (List.map_filter (best_versions (map (map_payload f) hot) (map (map_payload g) cold) snapshot) order))
     = length (filter (\<lambda>c. keep \<or> \<not> candidate_deleted c) (List.map_filter (best_versions hot cold snapshot) order))"
    by (induction order) (auto simp: List.map_filter_simps best_versions_map_payload split: option.splits)
  then show ?thesis
    by (simp add: select_latest_versions_def Let_def)
qed

section \<open>Counting and resolving agree\<close>

lemma collect_results_Inr_iff:
  "collect_results rs = Inr xs \<longleftrightarrow> rs = map Inr xs"
proof (induction rs arbitrary: xs rule: collect_results.induct)
  case (3 x rs)
  show ?case
  proof (cases "collect_results rs")
    case (Inl e)
    with 3 show ?thesis by (cases xs) auto
  next
    case (Inr ys)
    with 3 show ?thesis by (cases xs) auto
  qed
qed auto

lemma collect_results_all_ok:
  "(\<And>r. r \<in> set rs \<Longrightarrow> \<exists>x. r = Inr x) \<Longrightarrow> \<exists>xs. collect_results rs = Inr xs \<and> length xs = length rs"
proof (induction rs)
  case (Cons r rs)
  then obtain x xs where "r = Inr x" "collect_results rs = Inr xs" "length xs = length rs"
    by (metis list.set_intros(1) list.set_intros(2))
  then show ?case by simp
qed simp

lemma map_filter_Some: "(\<And>x. x \<in> set xs \<Longrightarrow> f x = Some (g x)) \<Longrightarrow> List.map_filter f xs = map g xs"
  by (induction xs) (auto simp: List.map_filter_simps)

lemma decoded_candidates:
  assumes "collect_results (map (decoder_metadata_at d) [0..<n]) = Inr ms"
  shows "map (map_payload (\<lambda>_. ())) (cold_candidates d n) =
      map (\<lambda>m. version_candidate_from_row metadata_versioned_row pk_name m ()) ms"
    and "\<And>i. i < n \<Longrightarrow> \<exists>v. decoder_version_at d i = Inr v"
proof -
  have ms: "map (decoder_metadata_at d) [0..<n] = map Inr ms"
    using assms by (simp add: collect_results_Inr_iff)
  then have len: "length ms = n"
    by (metis length_map length_upt minus_nat.diff_0)
  have at: "decoder_metadata_at d i = Inr (ms ! i)" if "i < n" for i
    using that arg_cong [OF ms, of "\<lambda>xs. xs ! i"] len by simp
  then show ok: "\<exists>v. decoder_version_at d i = Inr v" if "i < n" for i
    using that by (fastforce simp: decoder_metadata_at_def split: sum.splits)
  have cand: "(case decoder_version_at d i of Inl _ \<Rightarrow> None
      | Inr version \<Rightarrow> Some \<lparr>vc_pk_key = decoder_pk_bucket_at d i version, vc_version = version,
          vc_deleted = decoder_deleted_at d i, vc_payload = i\<rparr>) =
      Some \<lparr>vc_pk_key = rm_pk_bucket (ms ! i), vc_version = rm_version (ms ! i),
          vc_deleted = rm_deleted (ms ! i), vc_payload = i\<rparr>" if "i < n" for i
  proof -
    obtain v where v: "decoder_version_at d i = Inr v"
      using ok [OF \<open>i < n\<close>] by blast
    then have "ms ! i = \<lparr>rm_version = v, rm_deleted = decoder_deleted_at d i, rm_pk_bucket = decoder_pk_bucket_at d i v\<rparr>"
      using at [OF \<open>i < n\<close>] by (simp add: decoder_metadata_at_def)
    with v show ?thesis by simp
  qed
  have "cold_candidates d n = map (\<lambda>i. \<lparr>vc_pk_key = rm_pk_bucket (ms ! i), vc_version = rm_version (ms ! i),
          vc_deleted = rm_deleted (ms ! i), vc_payload = i\<rparr>) [0..<n]"
    unfolding cold_candidates_def by (rule map_filter_Some) (simp add: cand)
  then show "map (map_payload (\<lambda>_. ())) (cold_candidates d n) =
      map (\<lambda>m. version_candidate_from_row metadata_versioned_row pk_name m ()) ms"
    using len by (auto intro!: nth_equalityI simp: map_payload_def version_candidate_from_row_def metadata_versioned_row_def)
qed

lemma selected_payload_in:
  assumes "ColdSelected i \<in> set (select_latest_versions order hot cold snapshot keep)"
  shows "\<exists>v\<in>set cold. vc_payload v = i"
proof -
  obtain k c where best: "best_versions hot cold snapshot k = Some c" "selected_of c = ColdSelected i"
    using assms by (auto simp: select_latest_versions_def Let_def List.map_filter_def)
  then obtain m where "best_versions hot cold snapshot k = Some (ColdCandidate m)" "vm_payload m = i"
    by (cases c) auto
  then have "ColdCandidate m \<in> set (visible_for snapshot k (map hot_item hot @ map cold_item cold))"
    by (auto simp: best_versions_at dest!: first_max_Some)
  with \<open>vm_payload m = i\<close> show ?thesis
    by (force simp: visible_for_def hot_item_def cold_item_def)
qed

definition metadata_of :: "'r versioned_row \<Rightarrow> string \<Rightarrow> 'r \<Rightarrow> row_metadata" where
  "metadata_of ops pk_name r =
     \<lparr>rm_version = row_version ops r, rm_deleted = row_deleted ops r, rm_pk_bucket = row_pk_bucket_key ops pk_name r\<rparr>"

lemma metadata_candidate:
  "version_candidate_from_row metadata_versioned_row pk_name (metadata_of ops pk_name r) () =
     map_payload (\<lambda>_. ()) (version_candidate_from_row ops pk_name r p)"
  by (simp add: version_candidate_from_row_def metadata_versioned_row_def metadata_of_def map_payload_def)

section \<open>Properties\<close>

text \<open>
  C38: Winner selection returns, for every primary key with a version visible at the snapshot and for
  no other, the visible candidate with the greatest version, hot before cold on equal versions;
  a key whose winner is a tombstone is left out unless deleted rows are kept.
\<close>

theorem latest_visible_version_wins:
  assumes "set order = set (map fst (filter (\<lambda>kc. is_visible_at_snapshot (candidate_version (snd kc)) snapshot)
      (map hot_item hot @ map cold_item cold)))"
  shows "\<exists>winners. map fst winners = order \<and>
    select_latest_versions order hot cold snapshot keep_deleted =
      map (selected_of \<circ> snd) (filter (\<lambda>w. keep_deleted \<or> \<not> candidate_deleted (snd w)) winners) \<and>
    (\<forall>(k, c)\<in>set winners. \<exists>pre post. visible_for snapshot k (map hot_item hot @ map cold_item cold) = pre @ c # post \<and>
       (\<forall>x\<in>set pre. candidate_version x < candidate_version c) \<and>
       (\<forall>x\<in>set post. candidate_version x \<le> candidate_version c))"
proof -
  let ?best = "best_versions hot cold snapshot"
  have some: "\<exists>c. ?best k = Some c" if "k \<in> set order" for k
  proof -
    have "visible_for snapshot k (map hot_item hot @ map cold_item cold) \<noteq> []"
      using that assms by (auto simp: visible_for_def filter_empty_conv)
    then show ?thesis
      by (metis best_versions_at first_max_None_iff not_Some_eq)
  qed
  define winners where "winners = map (\<lambda>k. (k, the (?best k))) order"
  have "List.map_filter ?best order = map snd winners"
    unfolding winners_def using some by (force intro!: map_filter_Some)
  moreover have "\<exists>pre post. visible_for snapshot k (map hot_item hot @ map cold_item cold) = pre @ c # post \<and>
       (\<forall>x\<in>set pre. candidate_version x < candidate_version c) \<and>
       (\<forall>x\<in>set post. candidate_version x \<le> candidate_version c)" if "(k, c) \<in> set winners" for k c
    using that some [of k] by (intro first_max_Some) (auto simp: winners_def best_versions_at)
  ultimately show ?thesis
    by (intro exI [of _ winners])
      (auto simp: winners_def select_latest_versions_def Let_def comp_def filter_map)
qed

definition example_candidate :: "int \<Rightarrow> nat \<Rightarrow> bool \<Rightarrow> string \<Rightarrow> string version_candidate" where
  "example_candidate k v d p =
     \<lparr>vc_pk_key = PkInt k, vc_version = VersionId (of_nat v), vc_deleted = d, vc_payload = p\<rparr>"

theorem latest_visible_version_wins_witness:
  "\<exists>winners. map fst winners = [PkInt 1, PkInt 2] \<and>
     select_latest_versions [PkInt 1, PkInt 2] [example_candidate 1 9 False ''new'']
       [example_candidate 1 4 False ''old'', example_candidate 2 5 True ''gone''] (Some (VersionId 8)) False =
     map (selected_of \<circ> snd) (filter (\<lambda>w. False \<or> \<not> candidate_deleted (snd w)) winners)"
proof -
  have "set [PkInt 1, PkInt 2] = set (map fst (filter
      (\<lambda>kc. is_visible_at_snapshot (candidate_version (snd kc)) (Some (VersionId 8)))
      (map hot_item [example_candidate 1 9 False ''new''] @
       map cold_item [example_candidate 1 4 False ''old'', example_candidate 2 5 True ''gone''])))"
    by (simp add: hot_item_def cold_item_def example_candidate_def is_visible_at_snapshot_def less_eq_version_id_def)
  from latest_visible_version_wins [OF this, of False] show ?thesis
    by (elim exE conjE) (intro exI conjI)
qed

text \<open>
  C39: The metadata-only \<open>COUNT\<close> and the full resolution of the same hot rows and cold batch agree:
  whenever the count succeeds and cold rows can be built, the scan returns that many rows.
\<close>

theorem count_agrees_with_scan:
  assumes "count_resolved_from_metadata order pk_name (map (metadata_of ops pk_name \<circ> snd) hot_rows) batch snapshot = Inr n"
    and "decoder_new batch (Some pk_name) = Inr d"
    and "\<And>row_data. \<exists>kr. build_cold_row row_data = Inr kr"
  shows "\<exists>rows. resolve_latest_kvs_from_cold_batch to_scalar ops order pk_name hot_rows batch False snapshot build_cold_row
      = Inr rows \<and> length rows = n"
proof -
  let ?hot = "map (\<lambda>kr. version_candidate_from_row ops pk_name (snd kr) kr) hot_rows"
  let ?cold = "cold_candidates d (rb_num_rows batch)"
  obtain ms where ms: "parquet_batch_to_metadata batch pk_name = Inr ms"
    and n: "n = count_merged_rows metadata_versioned_row order pk_name (map (metadata_of ops pk_name \<circ> snd) hot_rows) ms snapshot"
    using assms(1) by (auto simp: count_resolved_from_metadata_def split: sum.splits)
  have all: "collect_results (map (decoder_metadata_at d) [0..<rb_num_rows batch]) = Inr ms"
    using ms assms(2) by (auto simp: parquet_batch_to_metadata_def split: if_splits)
  have "map (\<lambda>r. version_candidate_from_row metadata_versioned_row pk_name r ()) (map (metadata_of ops pk_name \<circ> snd) hot_rows) =
      map (map_payload (\<lambda>_. ())) ?hot"
    by (simp add: comp_def metadata_candidate)
  then have n': "n = length (select_latest_versions order ?hot ?cold snapshot False)"
    unfolding n count_merged_rows_def by (simp only: decoded_candidates(1) [OF all, symmetric] length_select_map_payload)
  have "\<exists>x. resolve_winner to_scalar build_cold_row d w = Inr x"
    if w: "w \<in> set (select_latest_versions order ?hot ?cold snapshot False)" for w
  proof (cases w)
    case (ColdSelected i)
    obtain v where "v \<in> set ?cold" "vc_payload v = i"
      using selected_payload_in [OF w [unfolded ColdSelected]] by blast
    then have "i < rb_num_rows batch"
      by (auto simp: cold_candidates_def List.map_filter_def split: sum.splits)
    then obtain ver where "decoder_version_at d i = Inr ver"
      using decoded_candidates(2) [OF all] by blast
    with ColdSelected assms(3) show ?thesis
      by (auto simp: resolve_winner_def decoder_row_at_def decoder_metadata_at_def)
  qed (simp add: resolve_winner_def)
  then have "\<exists>rows. collect_results (map (resolve_winner to_scalar build_cold_row d)
      (select_latest_versions order ?hot ?cold snapshot False)) = Inr rows \<and> length rows = n"
    unfolding n' by (intro collect_results_all_ok [of "map _ _", unfolded length_map]) auto
  then show ?thesis
    by (simp add: resolve_latest_kvs_from_cold_batch_def assms(2))
qed

definition example_batch :: record_batch where
  "example_batch = \<lparr>rb_num_rows = 2, rb_columns = [(''id'', Int64Array [Cell False 1, Cell False 2]),
     (''_version'', Int64Array [Cell False 5, Cell False 7])]\<rparr>"

theorem count_agrees_with_scan_witness:
  "\<exists>rows. resolve_latest_kvs_from_cold_batch (\<lambda>_ _. None) metadata_versioned_row [PkInt 1, PkInt 2] ''id''
      ([] :: (version_id \<times> row_metadata) list) example_batch False None
      (\<lambda>row_data. Inr (pr_version row_data, \<lparr>rm_version = pr_version row_data, rm_deleted = False, rm_pk_bucket = PkInt 1\<rparr>))
      = Inr rows \<and> length rows = 2"
proof -
  let ?d = "\<lparr>bd_version_array = [Cell False 5, Cell False 7], bd_deleted_array = None,
    bd_pk_column = Some (Int64Array [Cell False 1, Cell False 2]),
    bd_value_columns = [(''id'', Int64Array [Cell False 1, Cell False 2])]\<rparr>"
  have d: "decoder_new example_batch (Some ''id'') = Inr ?d"
    by (simp add: decoder_new_def example_batch_def column_named_def version_column_def deleted_column_def timestamp_column_def)
  have v: "version_try_from_i64 5 = Inr (VersionId 5)" "version_try_from_i64 7 = Inr (VersionId 7)"
    by (simp_all add: version_try_from_i64_def version_try_from_raw_def i64_max_def)
  have meta: "parquet_batch_to_metadata example_batch ''id'' =
      Inr [\<lparr>rm_version = VersionId 5, rm_deleted = False, rm_pk_bucket = PkInt 1\<rparr>,
           \<lparr>rm_version = VersionId 7, rm_deleted = False, rm_pk_bucket = PkInt 2\<rparr>]"
    unfolding parquet_batch_to_metadata_def d by (simp add: example_batch_def upt_rec decoder_metadata_at_def
        decoder_version_at_def v decoder_deleted_at_def decoder_pk_bucket_at_def null_or_key_def)
  have "count_resolved_from_metadata [PkInt 1, PkInt 2] ''id''
      (map (metadata_of metadata_versioned_row ''id'' \<circ> snd) ([] :: (version_id \<times> row_metadata) list)) example_batch None = Inr 2"
    unfolding count_resolved_from_metadata_def meta
    by (simp add: count_merged_rows_def select_latest_versions_def best_versions_def consider_candidate_def
        is_visible_at_snapshot_def version_candidate_from_row_def metadata_versioned_row_def cold_item_def List.map_filter_simps)
  from count_agrees_with_scan [OF this d] show ?thesis by simp
qed

lemma bound_of_frontier:
  assumes "L = 0 \<or> L \<le> max_log_index"
    and "\<forall>v\<in>V. \<exists>l ordinal. raft_try_new l ordinal = Inr (RaftVersionId v)"
  shows "\<exists>b. transaction_snapshot_bound L = Some b \<and> (\<forall>v\<in>V. v \<le> b \<longleftrightarrow> raft_log_index (RaftVersionId v) \<le> L)"
proof (cases "L = 0")
  case True
  have "\<not> v \<le> empty_snapshot \<and> raft_log_index (RaftVersionId v) \<noteq> 0" if "v \<in> V" for v
  proof -
    obtain l ordinal where r: "raft_try_new l ordinal = Inr (RaftVersionId v)"
      using assms(2) \<open>v \<in> V\<close> by blast
    then have "l \<noteq> 0"
      using raft_new_value(2) [OF r] by (auto simp: log_index_ok_def)
    with raft_new_ok [OF r] raft_log_index_new [OF r] show ?thesis
      by (simp add: version_le_iff version_ok_def empty_snapshot_def)
  qed
  with True show ?thesis
    by (simp add: transaction_snapshot_bound_def)
next
  case False
  with assms(1) have ok: "log_index_ok L"
    by (simp add: log_index_ok_iff)
  have "v \<le> VersionId (push_bit 16 L OR 65535) \<longleftrightarrow> raft_log_index (RaftVersionId v) \<le> L" if "v \<in> V" for v
    using assms(2) \<open>v \<in> V\<close> below_bound_iff [OF _ ok] raft_log_index_new by fastforce
  with transaction_snapshot_bound_ok [OF ok] show ?thesis by blast
qed

text \<open>
  C40: Snapshot reads. When every row version was packed from a log index, selection in a
  transaction pinned at frontier \<open>L\<close> gives exactly what an unrestricted selection gives on the rows
  of entries up to \<open>L\<close>: later commits change nothing and every earlier row takes part.
\<close>

theorem snapshot_read_is_prefix_read:
  assumes "L = 0 \<or> L \<le> max_log_index"
    and "\<forall>v\<in>vc_version ` set hot \<union> vc_version ` set cold. \<exists>l ordinal. raft_try_new l ordinal = Inr (RaftVersionId v)"
  shows "\<exists>b. transaction_snapshot_bound L = Some b \<and>
    best_versions hot cold (Some b) =
      best_versions (filter (\<lambda>c. raft_log_index (RaftVersionId (vc_version c)) \<le> L) hot)
        (filter (\<lambda>c. raft_log_index (RaftVersionId (vc_version c)) \<le> L) cold) None"
proof -
  let ?P = "\<lambda>v. raft_log_index (RaftVersionId v) \<le> L"
  obtain b where b: "transaction_snapshot_bound L = Some b"
    and iff: "\<And>v. v \<in> vc_version ` set hot \<union> vc_version ` set cold \<Longrightarrow> v \<le> b \<longleftrightarrow> ?P v"
    using bound_of_frontier [OF assms] by blast
  have "visible_for (Some b) k (map hot_item hot @ map cold_item cold) =
      visible_for None k (map hot_item (filter (\<lambda>c. ?P (vc_version c)) hot) @
        map cold_item (filter (\<lambda>c. ?P (vc_version c)) cold))" for k
    using iff by (simp add: visible_for_def filter_map comp_def hot_item_def cold_item_def is_visible_at_snapshot_def)
      (intro arg_cong2 [of _ _ _ _ append] arg_cong [of _ _ "map _"] filter_cong; auto)
  with b show ?thesis
    by (simp add: best_versions_at fun_eq_iff)
qed

theorem snapshot_read_is_prefix_read_witness:
  "\<exists>b. transaction_snapshot_bound 3 = Some b \<and>
     best_versions [example_candidate 1 327680 False ''hot''] [example_candidate 1 131072 False ''cold''] (Some b) =
     best_versions (filter (\<lambda>c. raft_log_index (RaftVersionId (vc_version c)) \<le> 3) [example_candidate 1 327680 False ''hot''])
       (filter (\<lambda>c. raft_log_index (RaftVersionId (vc_version c)) \<le> 3) [example_candidate 1 131072 False ''cold'']) None"
proof -
  have "raft_try_new 5 0 = Inr (RaftVersionId (VersionId 327680))" "raft_try_new 2 0 = Inr (RaftVersionId (VersionId 131072))"
    by (simp_all add: raft_try_new_iff log_index_ok_def push_bit_eq_mult)
  then show ?thesis
    by (intro snapshot_read_is_prefix_read) (auto simp: example_candidate_def max_log_index_def i64_max_def)
qed

end
