(* ===== verification/Spec2Isabelle.thy ===== *)
theory Spec2Isabelle
  imports Sharding TxLifecycle TopicRetentionSpec TopicConsumeSpec MvccSelect
begin

text \<open>
  A verification library for KalamDB, a database server in Rust. The paths below are relative to
  \<open>src/backend/crates/\<close>.

  \<^bold>\<open>The program.\<close> A table row lives in a hot store and, after a flush, in cold Parquet segments; each
  row version carries a version id derived from the Raft log entry that wrote it. An explicit
  transaction stages its mutations in a write set, sees them through an overlay, claims the primary
  keys it inserts, reads the base rows at a pinned snapshot and commits through the one Raft group
  its tables belong to. Committed rows are routed to topics, whose messages are stored with consecutive
  offsets per partition, cached in a tail, read by consumer groups that lease windows of offsets, and
  removed by retention.

  \<^bold>\<open>Conventions.\<close> \<open>u64\<close> and \<open>usize\<close> are naturals with saturating or checked operations written out
  (\<open>sat_add\<close>, \<open>u64_max\<close>), or 64-bit words where the code packs bits. A \<open>HashMap\<close> or \<open>DashMap\<close> is a
  partial function; where the code walks one, the order is an argument. A \<open>BTreeMap\<close> is a strictly
  ascending association list (\<open>bt_get\<close>, \<open>bt_insert\<close>, \<open>bt_remove\<close> of \<open>KPrelude\<close>). Errors are the left
  values of sum types. The outcome of a storage call and the reading of a clock are arguments. Code
  outside the repository (SQL parser, hashes, JSON and Parquet encodings, UUIDs) is a parameter.
  A lock held over a whole method makes that method one step; where a method releases and retakes
  locks, the steps are separate and others may act in between.

  \<^bold>\<open>Base theories.\<close>
  \<^item> \<open>KPrelude\<close>: identifiers, saturating arithmetic, ordered maps and their laws.
  \<^item> \<open>TextNum\<close>: printing and parsing of decimal numbers; parsing inverts printing.
  \<^item> \<open>MachineWords\<close>: fields packed into 64-bit words and big-endian bytes; packing two fields and
    comparing words compares the pairs, and byte order is numeric order.
  \<^item> \<open>Rows\<close>: scalar values, rows, primary-key bucket keys (\<open>kalamdb-commons/src/conversions/pk_bucket.rs\<close>)
    and the text of a key; within a column type the text determines the value.

  \<^bold>\<open>Raft groups and transactions.\<close>
  \<^item> \<open>Sharding\<close> (\<open>kalamdb-sharding\<close>): the shard router and the group ids with their numbers and names.
    Routed groups exist, names parse back.
  \<^item> \<open>TxOverlay\<close>, \<open>TxWriteSet\<close> (\<open>kalamdb-transactions/src/overlay.rs\<close>, \<open>write_set.rs\<close>,
    \<open>staged_mutation.rs\<close>): the overlay of staged rows and the write set with its indexes, byte count and
    savepoints. The indexes are always those of the mutation list; a rollback to a savepoint
    restores the write set of that moment; a lookup in an overlay refines the fold of the row's entries.
  \<^item> \<open>TxOwner\<close> (\<open>owner.rs\<close>, \<open>kalamdb-commons/src/models/transaction.rs\<close>): execution owners and
    session ids.
  \<^item> \<open>CommitSequence\<close> (\<open>commit_sequence.rs\<close>): frontiers of the groups, pinning of snapshots.
  \<^item> \<open>PkClaims\<close> (\<open>pk_claims.rs\<close>): the claim table and the acquire loop as a step relation with a label for
    the acting transaction. Only the owner releases a claim, and a wakeup can be lost.
  \<^item> \<open>TxCoordinator\<close>, \<open>TxCoordinatorInv\<close>, \<open>TxLifecycle\<close> (\<open>kalamdb-core/src/transactions/coordinator.rs\<close>):
    every operation of the coordinator, the invariant with one preservation lemma per operation, and
    the step relation with the properties of commit, rollback, timeout sweep and leadership change.

  \<^bold>\<open>Row versions and reads.\<close>
  \<^item> \<open>VersionIds\<close> (\<open>kalamdb-commons/src/ids/version_id.rs\<close>, \<open>version_domain.rs\<close>,
    \<open>kalamdb-tables/src/utils/base/versions.rs\<close>): version ids on 64-bit words, their Raft packing and
    encodings, assignment along a log, and the snapshot bounds, which agree with log indices.
  \<^item> \<open>MvccSelect\<close> (\<open>kalamdb-datafusion-sources/src/exec.rs\<close>, \<open>kalamdb-tables/src/utils/base/hot_scan.rs\<close>):
    selection of the visible version per primary key over hot rows and decoded cold batches, counting,
    and the scan limits. The winner is the greatest version within the snapshot, counting agrees with
    scanning, and a bounded read is an unbounded read of the bounded rows.

  \<^bold>\<open>Topics.\<close>
  \<^item> \<open>RowFilter\<close> (\<open>kalamdb-row-filter\<close>): compilation and evaluation of the filter of a route, compared
    with SQL's three-valued semantics.
  \<^item> \<open>TopicPartition\<close>, \<open>TopicStore\<close>, \<open>TopicClaims\<close>, \<open>TopicOffsets\<close>, \<open>TopicRouting\<close>: the cached tail and
    offset allocator (\<open>kalamdb-publisher/src/partition.rs\<close>), the message store
    (\<open>kalamdb-tables/src/topics\<close>), the claims of a group (\<open>kalamdb-publisher/src/service/consume.rs\<close>), committed
    offsets (\<open>kalamdb-system/src/providers/topic_offsets\<close>) and the route cache
    (\<open>kalamdb-publisher/src/routing.rs\<close>). Tail and store are readers of one log through the locale
    \<open>log_reader\<close>.
  \<^item> \<open>TopicService\<close>, \<open>TopicPublish\<close>, \<open>TopicReads\<close>, \<open>TopicRetention\<close>, \<open>TopicRetentionSpec\<close>, \<open>TopicConsume\<close>,
    \<open>TopicConsumeSpec\<close>: the publisher service over these parts (\<open>kalamdb-publisher/src/service\<close>). Its
    invariant relates each partition's runtime to the durable log; publishing appends the planned
    messages, fetches read pages of the log, a restart reuses no offset, retention removes a prefix and
    ends, and a group delivers no committed offset and no leased one.

  \<^bold>\<open>Fuel.\<close> Only the retry loop of a group fetch is bounded by fuel: it can run forever at a hole in the
  log, which is proved, and without holes two rounds are enough, which is proved as well. All other
  loops are total functions.

  \<^bold>\<open>Not modelled.\<close> Consensus, networking and log storage of Raft; the storage engines and their
  encodings; SQL parsing, planning and execution; the HTTP, WebSocket and PostgreSQL front ends,
  authentication and sessions; live queries, jobs, functions, views, vector and file storage; the
  command line, client libraries and user interface. They are input and output, generated code or calls
  of external libraries around the modelled parts, and the components list of the project names each with
  its reason.
\<close>

end
